(* ===== verification/Prelude.thy ===== *)
theory Prelude
  imports Main "HOL-Library.Word"
begin

text \<open>
  The vocabulary shared by the theories of the development: the byte strings and machine
  integers of the broker, the collection of rewrite rules for the frames on their way to an actor, and
  the generic facts about lists that the component proofs rest on.
\<close>

section \<open>Types\<close>

text \<open>Go's \<^verbatim>\<open>string\<close> and \<^verbatim>\<open>[]byte\<close> are both sequences of bytes, that is, of HOL characters.\<close>

type_synonym bytes = string

type_synonym u64 = "64 word"

text \<open>\<^verbatim>\<open>time.Duration\<close>: a signed 64-bit count of nanoseconds.\<close>

type_synonym duration = "64 word"

section \<open>Rewrite rules\<close>

text \<open>What a task of a goroutine is about: the connection it writes to or opens, and the frames it carries.\<close>

named_theorems wire_simps

section \<open>Lists\<close>

lemma tl_member: "x \<in> set (tl xs) \<Longrightarrow> x \<in> set xs"
  by (cases xs) auto

lemma distinct_singleton:
  "distinct xs \<Longrightarrow> a \<in> set xs \<Longrightarrow> set xs \<subseteq> {a} \<Longrightarrow> xs = [a]"
  by (cases xs; cases "tl xs") auto

end
