(* ===== verification/GoStrings.thy ===== *)
theory GoStrings
  imports Prelude "HOL-Library.Char_ord"
begin

text \<open>
  The parts of Go's \<^verbatim>\<open>strings\<close>, \<^verbatim>\<open>encoding/hex\<close> and \<^verbatim>\<open>net\<close> packages that the
  broker calls, on byte strings: byte search, white-space trimming with the UTF-8 encoded
  Unicode spaces, ASCII case folding, hexadecimal encoding and \<^verbatim>\<open>net.SplitHostPort\<close>.
\<close>

section \<open>Bytes\<close>

abbreviation byte :: "char \<Rightarrow> nat" where
  "byte c \<equiv> of_char c"

definition is_digit :: "char \<Rightarrow> bool" where
  "is_digit c \<longleftrightarrow> 48 \<le> byte c \<and> byte c \<le> 57"

definition is_hex :: "char \<Rightarrow> bool" where
  "is_hex c \<longleftrightarrow> is_digit c \<or> (97 \<le> byte c \<and> byte c \<le> 102) \<or> (65 \<le> byte c \<and> byte c \<le> 70)"

definition hex_digit :: "nat \<Rightarrow> char" where
  "hex_digit n = (if n < 10 then char_of (48 + n) else char_of (87 + n))"

definition hex_value :: "char \<Rightarrow> nat" where
  "hex_value c = (if is_digit c then byte c - 48
     else if 97 \<le> byte c then byte c - 87 else byte c - 55)"

text \<open>\<^verbatim>\<open>hex.EncodeToString\<close>.\<close>

definition hex_byte :: "8 word \<Rightarrow> bytes" where
  "hex_byte b = [hex_digit (unat b div 16), hex_digit (unat b mod 16)]"

definition hex_EncodeToString :: "8 word list \<Rightarrow> bytes" where
  "hex_EncodeToString bs = concat (map hex_byte bs)"

section \<open>Searching\<close>

text \<open>\<^verbatim>\<open>strings.IndexByte\<close>; the result \<^verbatim>\<open>-1\<close> is \<^term>\<open>None\<close>.\<close>

fun IndexByte :: "bytes \<Rightarrow> char \<Rightarrow> nat option" where
  "IndexByte [] c = None"
| "IndexByte (x # xs) c = (if x = c then Some 0 else map_option Suc (IndexByte xs c))"

definition LastIndexByte :: "bytes \<Rightarrow> char \<Rightarrow> nat option" where
  "LastIndexByte s c = map_option (\<lambda>i. length s - Suc i) (IndexByte (rev s) c)"

section \<open>White space\<close>

text \<open>
  \<^verbatim>\<open>unicode.IsSpace\<close> on the first rune of a byte string: how many bytes the leading white
  space character occupies, 0 when the string does not start with one. The multi-byte cases
  are the UTF-8 encodings of U+0085, U+00A0, U+1680, U+2000 to U+200A, U+2028, U+2029, U+202F,
  U+205F and U+3000.
\<close>

definition ascii_space :: "nat \<Rightarrow> bool" where
  "ascii_space n \<longleftrightarrow> (9 \<le> n \<and> n \<le> 13) \<or> n = 32"

definition space2 :: "nat \<Rightarrow> nat \<Rightarrow> bool" where
  "space2 a b \<longleftrightarrow> a = 0xC2 \<and> (b = 0x85 \<or> b = 0xA0)"

definition space3 :: "nat \<Rightarrow> nat \<Rightarrow> nat \<Rightarrow> bool" where
  "space3 a b c \<longleftrightarrow>
     (a = 0xE1 \<and> b = 0x9A \<and> c = 0x80) \<or>
     (a = 0xE2 \<and> b = 0x80 \<and> ((0x80 \<le> c \<and> c \<le> 0x8A) \<or> c = 0xA8 \<or> c = 0xA9 \<or> c = 0xAF)) \<or>
     (a = 0xE2 \<and> b = 0x81 \<and> c = 0x9F) \<or>
     (a = 0xE3 \<and> b = 0x80 \<and> c = 0x80)"

fun trim_left :: "bytes \<Rightarrow> bytes" where
  "trim_left [] = []"
| "trim_left [a] = (if ascii_space (byte a) then [] else [a])"
| "trim_left [a, b] = (if ascii_space (byte a) then trim_left [b]
     else if space2 (byte a) (byte b) then [] else [a, b])"
| "trim_left (a # b # c # s) = (if ascii_space (byte a) then trim_left (b # c # s)
     else if space2 (byte a) (byte b) then trim_left (c # s)
     else if space3 (byte a) (byte b) (byte c) then trim_left s
     else a # b # c # s)"

text \<open>
  Trimming on the right reads the last rune (\<^verbatim>\<open>utf8.DecodeLastRuneInString\<close>): the same
  encodings, seen from the end of the string.
\<close>

fun trim_left_rev :: "bytes \<Rightarrow> bytes" where
  "trim_left_rev [] = []"
| "trim_left_rev [a] = (if ascii_space (byte a) then [] else [a])"
| "trim_left_rev [a, b] = (if ascii_space (byte a) then trim_left_rev [b]
     else if space2 (byte b) (byte a) then [] else [a, b])"
| "trim_left_rev (a # b # c # s) = (if ascii_space (byte a) then trim_left_rev (b # c # s)
     else if space2 (byte b) (byte a) then trim_left_rev (c # s)
     else if space3 (byte c) (byte b) (byte a) then trim_left_rev s
     else a # b # c # s)"

definition TrimSpace :: "bytes \<Rightarrow> bytes" where
  "TrimSpace s = rev (trim_left_rev (rev (trim_left s)))"

text \<open>\<^verbatim>\<open>strings.TrimRight(s, cutset)\<close> for a one-byte cutset.\<close>

definition TrimRight :: "bytes \<Rightarrow> char \<Rightarrow> bytes" where
  "TrimRight s c = rev (dropWhile (\<lambda>x. x = c) (rev s))"

section \<open>Case folding\<close>

definition to_upper :: "char \<Rightarrow> char" where
  "to_upper c = (if 97 \<le> byte c \<and> byte c \<le> 122 then char_of (byte c - 32) else c)"

text \<open>
  \<^verbatim>\<open>strings.EqualFold\<close> where one side is ASCII without the letters k and s, the only ASCII
  letters that a non-ASCII rune folds to.
\<close>

definition EqualFold :: "bytes \<Rightarrow> bytes \<Rightarrow> bool" where
  "EqualFold s t \<longleftrightarrow> map to_upper s = map to_upper t"

section \<open>Host and port\<close>

datatype addr_error = MissingPort | TooManyColons | MissingBracket | UnexpectedOpen | UnexpectedClose

text \<open>\<^verbatim>\<open>net.SplitHostPort\<close>, with its checks in its order.\<close>

definition check_brackets :: "bytes \<Rightarrow> nat \<Rightarrow> nat \<Rightarrow> nat \<Rightarrow> bytes \<Rightarrow> addr_error + (bytes \<times> bytes)" where
  "check_brackets hp j k i host =
     (if IndexByte (drop j hp) (CHR ''['') \<noteq> None then Inl UnexpectedOpen
      else if IndexByte (drop k hp) (CHR '']'') \<noteq> None then Inl UnexpectedClose
      else Inr (host, drop (Suc i) hp))"

definition SplitHostPort :: "bytes \<Rightarrow> addr_error + (bytes \<times> bytes)" where
  "SplitHostPort hp = (case LastIndexByte hp (CHR '':'') of
     None \<Rightarrow> Inl MissingPort
   | Some i \<Rightarrow>
       if take 1 hp = ''['' then
         (case IndexByte hp (CHR '']'') of
            None \<Rightarrow> Inl MissingBracket
          | Some e \<Rightarrow>
              if Suc e = length hp then Inl MissingPort
              else if Suc e = i then check_brackets hp 1 (Suc e) i (drop 1 (take e hp))
              else if hp ! Suc e = CHR '':'' then Inl TooManyColons else Inl MissingPort)
       else if IndexByte (take i hp) (CHR '':'') \<noteq> None then Inl TooManyColons
       else check_brackets hp 0 0 i (take i hp))"

section \<open>Facts\<close>

lemma IndexByte_None_iff: "IndexByte s c = None \<longleftrightarrow> c \<notin> set s"
  by (induction s) auto

lemma IndexByte_Some_iff:
  "IndexByte s c = Some i \<longleftrightarrow> (i < length s \<and> s ! i = c \<and> c \<notin> set (take i s))"
proof (induction s arbitrary: i)
  case Nil
  then show ?case by simp
next
  case (Cons x s)
  show ?case by (cases i) (auto simp: Cons)
qed

lemma IndexByte_append_Cons:
  "c \<notin> set xs \<Longrightarrow> IndexByte (xs @ c # ys) c = Some (length xs)"
  by (auto simp: IndexByte_Some_iff)

lemma LastIndexByte_append_Cons:
  "c \<notin> set ys \<Longrightarrow> LastIndexByte (xs @ c # ys) c = Some (length xs)"
  using IndexByte_append_Cons [of c "rev ys" "rev xs"] by (simp add: LastIndexByte_def)

lemma LastIndexByte_None_iff: "LastIndexByte s c = None \<longleftrightarrow> c \<notin> set s"
  by (simp add: LastIndexByte_def IndexByte_None_iff)

lemma SplitHostPort_plain:
  assumes "set host \<inter> {CHR ''['', CHR '']'', CHR '':''} = {}"
    and "set port \<inter> {CHR ''['', CHR '']'', CHR '':''} = {}"
  shows "SplitHostPort (host @ CHR '':'' # port) = Inr (host, port)"
proof -
  have last: "LastIndexByte (host @ CHR '':'' # port) (CHR '':'') = Some (length host)"
    using assms by (intro LastIndexByte_append_Cons) auto
  have "take 1 (host @ CHR '':'' # port) \<noteq> ''[''"
    using assms by (cases host) auto
  then show ?thesis
    using assms last by (auto simp: SplitHostPort_def check_brackets_def IndexByte_None_iff
        IndexByte_Some_iff in_set_conv_nth)
qed

lemma SplitHostPort_bracket:
  assumes "set host \<inter> {CHR ''['', CHR '']''} = {}"
    and "set port \<inter> {CHR ''['', CHR '']'', CHR '':''} = {}"
  shows "SplitHostPort (CHR ''['' # host @ CHR '']'' # CHR '':'' # port) = Inr (host, port)"
proof -
  let ?hp = "CHR ''['' # host @ CHR '']'' # CHR '':'' # port"
  have last: "LastIndexByte ?hp (CHR '':'') = Some (Suc (Suc (length host)))"
    using LastIndexByte_append_Cons [of "CHR '':''" port "CHR ''['' # host @ '']''"] assms by auto
  have first: "IndexByte (host @ CHR '']'' # CHR '':'' # port) (CHR '']'') = Some (length host)"
    using assms by (intro IndexByte_append_Cons) auto
  show ?thesis
    using assms by (auto simp: SplitHostPort_def last first check_brackets_def IndexByte_None_iff)
qed

lemma SplitHostPort_error_no_colon: "CHR '':'' \<notin> set hp \<Longrightarrow> SplitHostPort hp = Inl MissingPort"
  by (simp add: SplitHostPort_def LastIndexByte_None_iff [THEN iffD2])

lemma trim_left_idem: "trim_left (trim_left s) = trim_left s"
  by (induction s rule: trim_left.induct) auto

lemma trim_left_suffix: "\<exists>p. s = p @ trim_left s"
proof (induction s rule: trim_left.induct)
  case (3 a b)
  then show ?case by (metis append_Cons append_Nil append_Nil2 trim_left.simps(3))
next
  case (4 a b c s)
  then show ?case by (metis append_Cons append_Nil trim_left.simps(4))
qed auto

lemma hex_EncodeToString_length: "length (hex_EncodeToString bs) = 2 * length bs"
  by (induction bs) (auto simp: hex_EncodeToString_def hex_byte_def)

end
