(* ===== verification/Utf8.thy ===== *)
theory Utf8
  imports GoStrings
begin

text \<open>
  Go's \<^verbatim>\<open>unicode/utf8\<close> as the JSON package uses it: the length of the valid encoding a byte
  string starts with (\<^verbatim>\<open>DecodeRune\<close> reports an error with width 1 where there is none),
  validity of a whole string, and \<^verbatim>\<open>EncodeRune\<close>.
\<close>

section \<open>Decoding one rune\<close>

definition is_cont :: "nat \<Rightarrow> bool" where
  "is_cont n \<longleftrightarrow> 0x80 \<le> n \<and> n \<le> 0xBF"

text \<open>The accepted second bytes of a three-byte and of a four-byte encoding.\<close>

definition second3 :: "nat \<Rightarrow> nat \<Rightarrow> bool" where
  "second3 a b \<longleftrightarrow> is_cont b \<and> 0xE0 \<le> a \<and> a \<le> 0xEF \<and>
     (a = 0xE0 \<longrightarrow> 0xA0 \<le> b) \<and> (a = 0xED \<longrightarrow> b \<le> 0x9F)"

definition second4 :: "nat \<Rightarrow> nat \<Rightarrow> bool" where
  "second4 a b \<longleftrightarrow> is_cont b \<and> 0xF0 \<le> a \<and> a \<le> 0xF4 \<and>
     (a = 0xF0 \<longrightarrow> 0x90 \<le> b) \<and> (a = 0xF4 \<longrightarrow> b \<le> 0x8F)"

fun utf8_len :: "bytes \<Rightarrow> nat option" where
  "utf8_len [] = None"
| "utf8_len (a # s) =
     (if byte a < 0x80 then Some 1
      else (case s of
         [] \<Rightarrow> None
       | b # t \<Rightarrow>
           if 0xC2 \<le> byte a \<and> byte a \<le> 0xDF \<and> is_cont (byte b) then Some 2
           else (case t of
              [] \<Rightarrow> None
            | c # u \<Rightarrow>
                if second3 (byte a) (byte b) \<and> is_cont (byte c) then Some 3
                else (case u of
                   [] \<Rightarrow> None
                 | d # _ \<Rightarrow>
                     if second4 (byte a) (byte b) \<and> is_cont (byte c) \<and> is_cont (byte d)
                     then Some 4 else None))))"

text \<open>A complete encoding of one rune.\<close>

definition is_rune :: "bytes \<Rightarrow> bool" where
  "is_rune u \<longleftrightarrow> utf8_len u = Some (length u)"

lemma utf8_len_bounds: "utf8_len s = Some n \<Longrightarrow> 0 < n \<and> n \<le> 4 \<and> n \<le> length s"
  by (cases s) (auto split: list.splits if_splits)

lemma utf8_len_ascii: "byte c < 128 \<Longrightarrow> utf8_len (c # s) = Some 1"
  by simp

section \<open>Valid strings\<close>

function valid_utf8 :: "bytes \<Rightarrow> bool" where
  "valid_utf8 s = (s = [] \<or> (case utf8_len s of None \<Rightarrow> False | Some n \<Rightarrow> valid_utf8 (drop n s)))"
  by pat_completeness auto
termination
  by (relation "measure length") (auto dest: utf8_len_bounds)

declare valid_utf8.simps [simp del]

text \<open>\<^verbatim>\<open>utf8.EncodeRune\<close>; a surrogate or a value beyond U+10FFFF encodes as U+FFFD.\<close>

definition replacement :: bytes where
  "replacement = [CHR 0xEF, CHR 0xBF, CHR 0xBD]"

definition is_surrogate :: "nat \<Rightarrow> bool" where
  "is_surrogate r \<longleftrightarrow> 0xD800 \<le> r \<and> r < 0xE000"

definition encode_rune :: "nat \<Rightarrow> bytes" where
  "encode_rune r =
     (if r < 0x80 then [char_of r]
      else if r < 0x800 then [char_of (0xC0 + r div 64), char_of (0x80 + r mod 64)]
      else if is_surrogate r \<or> 0x10FFFF < r then replacement
      else if r < 0x10000 then
        [char_of (0xE0 + r div 4096), char_of (0x80 + r div 64 mod 64), char_of (0x80 + r mod 64)]
      else [char_of (0xF0 + r div 262144), char_of (0x80 + r div 4096 mod 64),
            char_of (0x80 + r div 64 mod 64), char_of (0x80 + r mod 64)])"

section \<open>Facts\<close>

lemma valid_utf8_Nil [simp]: "valid_utf8 []"
  by (simp add: valid_utf8.simps)

lemma utf8_len_append: "utf8_len u = Some n \<Longrightarrow> utf8_len (u @ s) = Some n"
  by (cases u) (auto split: list.splits if_splits)

lemma valid_utf8_rune: "is_rune u \<Longrightarrow> valid_utf8 (u @ s) = valid_utf8 s"
  using utf8_len_append [of u "length u" s]
  by (auto simp: is_rune_def valid_utf8.simps [of "u @ s"])

lemma is_rune_ascii: "byte c < 128 \<Longrightarrow> is_rune [c]"
  by (simp add: is_rune_def)

lemma valid_utf8_ascii_Cons: "byte c < 128 \<Longrightarrow> valid_utf8 (c # s) = valid_utf8 s"
  using valid_utf8_rune [of "[c]" s] by (simp add: is_rune_ascii)

lemma valid_utf8_ascii: "list_all (\<lambda>c. byte c < 128) s \<Longrightarrow> valid_utf8 s"
  by (induction s) (auto simp: valid_utf8_ascii_Cons)

lemma is_rune_replacement: "is_rune replacement"
  by code_simp

lemma byte_char_of [simp]: "n < 256 \<Longrightarrow> byte (char_of n) = n"
  by simp

lemma is_rune_encode_rune: "is_rune (encode_rune r)"
proof -
  have small: "r div 64 mod 64 < 64" "r mod 64 < 64" "r div 4096 mod 64 < 64" by simp_all
  consider "r < 0x80" | "0x80 \<le> r" "r < 0x800" | "0x800 \<le> r" "is_surrogate r \<or> 0x10FFFF < r"
    | "0x800 \<le> r" "\<not> is_surrogate r" "r < 0x10000"
    | "0x10000 \<le> r" "r \<le> 0x10FFFF"
    by linarith
  then show ?thesis
  proof cases
    case 1
    then show ?thesis by (simp add: encode_rune_def is_rune_ascii)
  next
    case 2
    then have "2 \<le> r div 64" "r div 64 < 32" by auto
    with 2 small show ?thesis
      by (simp add: encode_rune_def is_rune_def is_cont_def)
  next
    case 3
    then show ?thesis by (simp add: encode_rune_def is_rune_replacement)
  next
    case 4
    then have a: "r div 4096 < 16" by auto
    have b: "r div 4096 = 0 \<Longrightarrow> 32 \<le> r div 64 mod 64" using 4 by auto
    have c: "r div 64 mod 64 \<le> 31" if "r div 4096 = 13"
    proof -
      from that have q: "r div 64 div 64 = 13" by (simp add: div_mult2_eq [symmetric])
      from that have "r < 0xE000" by linarith
      with 4 have "r < 0xD800" by (auto simp: is_surrogate_def)
      then have "r div 64 < 864" by linarith
      with q show ?thesis using div_mult_mod_eq [of "r div 64" 64] by linarith
    qed
    from 4 a b c small show ?thesis
      by (auto simp: encode_rune_def is_rune_def is_cont_def second3_def)
  next
    case 5
    then have a: "r div 262144 \<le> 4" by auto
    have b: "r div 262144 = 0 \<Longrightarrow> 16 \<le> r div 4096 mod 64" using 5 by auto
    have c: "r div 4096 mod 64 \<le> 15" if "r div 262144 = 4"
    proof -
      from that have q: "r div 4096 div 64 = 4" by (simp add: div_mult2_eq [symmetric])
      from 5 have "r div 4096 \<le> 271" by linarith
      with q show ?thesis using div_mult_mod_eq [of "r div 4096" 64] by linarith
    qed
    have d: "\<not> is_surrogate r" using 5 by (simp add: is_surrogate_def)
    from 5 a b c d small show ?thesis
      by (auto simp: encode_rune_def is_rune_def is_cont_def second3_def second4_def)
  qed
qed

lemmas valid_utf8_encode_rune = valid_utf8_rune [OF is_rune_encode_rune]
lemmas valid_utf8_replacement = valid_utf8_rune [OF is_rune_replacement]

lemma is_rune_take: "utf8_len s = Some n \<Longrightarrow> is_rune (take n s)"
  by (cases s) (auto simp: is_rune_def numeral_eq_Suc split: list.splits if_splits)

declare utf8_len.simps(2) [simp del]
declare utf8_len_ascii [simp]

end
