(* ===== verification/Json.thy ===== *)
theory Json
  imports Utf8
begin

text \<open>
  The concrete syntax of JSON as Go's \<^verbatim>\<open>encoding/json\<close> accepts and prints it. A document is
  a tree that keeps the source text of its numbers and of its (still quoted) strings and drops
  only the white space between tokens, so a \<^verbatim>\<open>json.RawMessage\<close> is such a tree. The parser
  takes fuel; the fuel \<^term>\<open>json_parse\<close> supplies is enough for every input, and
  printing a well-formed tree and parsing it again gives it back.
\<close>

section \<open>Documents\<close>

datatype json =
    JNull
  | JTrue
  | JFalse
  | JNum bytes
  | JStr bytes
  | JArr "json list"
  | JObj "(bytes \<times> json) list"

fun json_depth :: "json \<Rightarrow> nat" where
  "json_depth (JArr vs) = Suc (fold max (map json_depth vs) 0)"
| "json_depth (JObj kvs) = Suc (fold max (map (\<lambda>(k, v). json_depth v) kvs) 0)"
| "json_depth _ = 0"

section \<open>Tokens\<close>

definition is_ws :: "char \<Rightarrow> bool" where
  "is_ws c \<longleftrightarrow> byte c = 32 \<or> byte c = 9 \<or> byte c = 10 \<or> byte c = 13"

definition skip_ws :: "bytes \<Rightarrow> bytes" where
  "skip_ws s = dropWhile is_ws s"

abbreviation quote_char :: char where
  "quote_char \<equiv> CHR 0x22"

abbreviation backslash :: char where
  "backslash \<equiv> CHR 0x5C"

definition is_escape :: "char \<Rightarrow> bool" where
  "is_escape c \<longleftrightarrow> c \<in> set ''bfnrt/'' \<or> c = quote_char \<or> c = backslash"

text \<open>
  One item of a string literal, a plain character or an escape sequence, and what follows it.
\<close>

definition scan_item :: "bytes \<Rightarrow> (bytes \<times> bytes) option" where
  "scan_item s = (case s of
     [] \<Rightarrow> None
   | c # t \<Rightarrow>
       if c = backslash then
         (case t of
            [] \<Rightarrow> None
          | e # u \<Rightarrow>
              if is_escape e then Some ([c, e], u)
              else if e = CHR ''u'' \<and> 4 \<le> length u \<and> list_all is_hex (take 4 u)
              then Some (c # e # take 4 u, drop 4 u)
              else None)
       else if byte c < 32 \<or> c = quote_char then None
       else Some ([c], t))"

lemma scan_item_shorter: "scan_item s = Some (i, t) \<Longrightarrow> length t < length s"
  by (auto simp: scan_item_def split: list.splits if_splits)

text \<open>A string literal after its opening quote: its raw text, and what follows the closing quote.\<close>

function scan_string :: "bytes \<Rightarrow> (bytes \<times> bytes) option" where
  "scan_string s = (case s of
     [] \<Rightarrow> None
   | c # t \<Rightarrow>
       if c = quote_char then Some ([], t)
       else (case scan_item s of
          None \<Rightarrow> None
        | Some (i, u) \<Rightarrow> map_option (\<lambda>(r, v). (i @ r, v)) (scan_string u)))"
  by pat_completeness auto
termination
  by (relation "measure length") (auto dest: scan_item_shorter)

declare scan_string.simps [simp del]

definition scan_int :: "bytes \<Rightarrow> (bytes \<times> bytes) option" where
  "scan_int s = (case s of
     [] \<Rightarrow> None
   | c # t \<Rightarrow>
       if c = CHR ''0'' then Some ([c], t)
       else if is_digit c then Some (takeWhile is_digit s, dropWhile is_digit s)
       else None)"

definition scan_frac :: "bytes \<Rightarrow> (bytes \<times> bytes) option" where
  "scan_frac s = (case s of
     [] \<Rightarrow> Some ([], s)
   | c # t \<Rightarrow>
       if c = CHR ''.'' then
         (if takeWhile is_digit t = [] then None
          else Some (c # takeWhile is_digit t, dropWhile is_digit t))
       else Some ([], s))"

definition scan_sign :: "bytes \<Rightarrow> bytes \<times> bytes" where
  "scan_sign s = (case s of
     [] \<Rightarrow> ([], s)
   | c # t \<Rightarrow> if c = CHR ''+'' \<or> c = CHR ''-'' then ([c], t) else ([], s))"

definition scan_exp :: "bytes \<Rightarrow> (bytes \<times> bytes) option" where
  "scan_exp s = (case s of
     [] \<Rightarrow> Some ([], s)
   | c # t \<Rightarrow>
       if c = CHR ''e'' \<or> c = CHR ''E'' then
         (let (sg, u) = scan_sign t
          in if takeWhile is_digit u = [] then None
             else Some (c # sg @ takeWhile is_digit u, dropWhile is_digit u))
       else Some ([], s))"

definition scan_minus :: "bytes \<Rightarrow> bytes \<times> bytes" where
  "scan_minus s = (case s of
     [] \<Rightarrow> ([], s)
   | c # t \<Rightarrow> if c = CHR ''-'' then ([c], t) else ([], s))"

definition scan_number :: "bytes \<Rightarrow> (bytes \<times> bytes) option" where
  "scan_number s = (let (m, s0) = scan_minus s in
     case scan_int s0 of None \<Rightarrow> None | Some (i, s1) \<Rightarrow>
     (case scan_frac s1 of None \<Rightarrow> None | Some (f, s2) \<Rightarrow>
      (case scan_exp s2 of None \<Rightarrow> None | Some (e, s3) \<Rightarrow> Some (m @ i @ f @ e, s3))))"

definition scan_literal :: "bytes \<Rightarrow> json \<Rightarrow> bytes \<Rightarrow> (json \<times> bytes) option" where
  "scan_literal w j s = (if take (length w) s = w then Some (j, drop (length w) s) else None)"

section \<open>Parser\<close>

text \<open>
  The three productions, each over the parsers it calls; the recursion ties them together and
  spends one unit of fuel per production.
\<close>

definition value_body :: "(bytes \<Rightarrow> ((bytes \<times> json) list \<times> bytes) option) \<Rightarrow>
    (bytes \<Rightarrow> (json list \<times> bytes) option) \<Rightarrow> bytes \<Rightarrow> (json \<times> bytes) option" where
  "value_body members elems s = (case skip_ws s of
     [] \<Rightarrow> None
   | c # t \<Rightarrow>
       if c = CHR ''{'' then
         (case skip_ws t of
            [] \<Rightarrow> None
          | d # u \<Rightarrow> if d = CHR ''}'' then Some (JObj [], u)
                     else map_option (\<lambda>(kvs, v). (JObj kvs, v)) (members (d # u)))
       else if c = CHR ''['' then
         (case skip_ws t of
            [] \<Rightarrow> None
          | d # u \<Rightarrow> if d = CHR '']'' then Some (JArr [], u)
                     else map_option (\<lambda>(vs, v). (JArr vs, v)) (elems (d # u)))
       else if c = quote_char then map_option (\<lambda>(r, u). (JStr r, u)) (scan_string t)
       else if c = CHR ''t'' then scan_literal ''true'' JTrue (c # t)
       else if c = CHR ''f'' then scan_literal ''false'' JFalse (c # t)
       else if c = CHR ''n'' then scan_literal ''null'' JNull (c # t)
       else map_option (\<lambda>(r, u). (JNum r, u)) (scan_number (c # t)))"

definition elems_body :: "(bytes \<Rightarrow> (json \<times> bytes) option) \<Rightarrow>
    (bytes \<Rightarrow> (json list \<times> bytes) option) \<Rightarrow> bytes \<Rightarrow> (json list \<times> bytes) option" where
  "elems_body val elems s = (case val s of
     None \<Rightarrow> None
   | Some (v, t) \<Rightarrow> (case skip_ws t of
       [] \<Rightarrow> None
     | d # u \<Rightarrow> if d = CHR '','' then map_option (\<lambda>(vs, w). (v # vs, w)) (elems u)
                else if d = CHR '']'' then Some ([v], u) else None))"

definition key_body :: "bytes \<Rightarrow> (bytes \<times> bytes) option" where
  "key_body s = (case skip_ws s of
     [] \<Rightarrow> None
   | c # t \<Rightarrow>
       if c \<noteq> quote_char then None
       else (case scan_string t of
          None \<Rightarrow> None
        | Some (k, u) \<Rightarrow> (case skip_ws u of
            [] \<Rightarrow> None
          | d # v \<Rightarrow> if d = CHR '':'' then Some (k, v) else None)))"

definition members_body :: "(bytes \<Rightarrow> (json \<times> bytes) option) \<Rightarrow>
    (bytes \<Rightarrow> ((bytes \<times> json) list \<times> bytes) option) \<Rightarrow> bytes \<Rightarrow>
    ((bytes \<times> json) list \<times> bytes) option" where
  "members_body val members s = (case key_body s of
     None \<Rightarrow> None
   | Some (k, t) \<Rightarrow> (case val t of
       None \<Rightarrow> None
     | Some (j, u) \<Rightarrow> (case skip_ws u of
         [] \<Rightarrow> None
       | d # v \<Rightarrow> if d = CHR '','' then map_option (\<lambda>(kvs, w). ((k, j) # kvs, w)) (members v)
                  else if d = CHR ''}'' then Some ([(k, j)], v) else None)))"

fun parse_value :: "nat \<Rightarrow> bytes \<Rightarrow> (json \<times> bytes) option"
  and parse_elems :: "nat \<Rightarrow> bytes \<Rightarrow> (json list \<times> bytes) option"
  and parse_members :: "nat \<Rightarrow> bytes \<Rightarrow> ((bytes \<times> json) list \<times> bytes) option" where
  "parse_value 0 s = None"
| "parse_value (Suc n) s = value_body (parse_members n) (parse_elems n) s"
| "parse_elems 0 s = None"
| "parse_elems (Suc n) s = elems_body (parse_value n) (parse_elems n) s"
| "parse_members 0 s = None"
| "parse_members (Suc n) s = members_body (parse_value n) (parse_members n) s"

text \<open>
  A complete document: nothing but white space after the value, and no nesting beyond
  \<^verbatim>\<open>maxNestingDepth\<close>.
\<close>

definition json_fuel :: "bytes \<Rightarrow> nat" where
  "json_fuel s = 2 * length s + 1"

definition json_parse :: "bytes \<Rightarrow> json option" where
  "json_parse s = (case parse_value (json_fuel s) s of
     None \<Rightarrow> None
   | Some (j, t) \<Rightarrow> if skip_ws t = [] \<and> json_depth j \<le> 10000 then Some j else None)"

section \<open>Printer\<close>

fun join :: "bytes list \<Rightarrow> bytes" where
  "join [] = []"
| "join [x] = x"
| "join (x # y # xs) = x @ CHR '','' # join (y # xs)"

fun json_print :: "json \<Rightarrow> bytes" where
  "json_print JNull = ''null''"
| "json_print JTrue = ''true''"
| "json_print JFalse = ''false''"
| "json_print (JNum r) = r"
| "json_print (JStr r) = quote_char # r @ [quote_char]"
| "json_print (JArr vs) = CHR ''['' # join (map json_print vs) @ '']''"
| "json_print (JObj kvs) =
     CHR ''{'' # join (map (\<lambda>(k, v). quote_char # k @ quote_char # CHR '':'' # json_print v) kvs) @ ''}''"

section \<open>Well-formed documents\<close>

definition wf_str :: "bytes \<Rightarrow> bool" where
  "wf_str r \<longleftrightarrow> scan_string (r @ [quote_char]) = Some (r, [])"

definition wf_num :: "bytes \<Rightarrow> bool" where
  "wf_num r \<longleftrightarrow> scan_number r = Some (r, [])"

fun wf_json :: "json \<Rightarrow> bool" where
  "wf_json (JNum r) = wf_num r"
| "wf_json (JStr r) = wf_str r"
| "wf_json (JArr vs) = list_all wf_json vs"
| "wf_json (JObj kvs) = list_all (\<lambda>(k, v). wf_str k \<and> wf_json v) kvs"
| "wf_json _ = True"

section \<open>The scanner\<close>

lemma not_is_escape_u [simp]: "\<not> is_escape (CHR ''u'')"
  by code_simp

lemma scan_item_plain:
  "c \<noteq> backslash \<Longrightarrow> c \<noteq> quote_char \<Longrightarrow> 32 \<le> byte c \<Longrightarrow> scan_item (c # t) = Some ([c], t)"
  by (simp add: scan_item_def)

lemma scan_item_escape: "is_escape e \<Longrightarrow> scan_item (backslash # e # t) = Some ([backslash, e], t)"
  by (simp add: scan_item_def)

lemma scan_item_unicode:
  "length h = 4 \<Longrightarrow> list_all is_hex h \<Longrightarrow>
   scan_item (backslash # CHR ''u'' # h @ t) = Some (backslash # CHR ''u'' # h, t)"
  by (simp add: scan_item_def)

lemma scan_item_cases:
  assumes "scan_item s = Some (i, t)"
  obtains (plain) c where "s = c # t" "i = [c]" "c \<noteq> backslash" "c \<noteq> quote_char" "32 \<le> byte c"
  | (escape) e where "s = backslash # e # t" "i = [backslash, e]" "is_escape e"
  | (unicode) h where "s = backslash # CHR ''u'' # h @ t" "i = backslash # CHR ''u'' # h"
      "length h = 4" "list_all is_hex h"
proof (cases s)
  case Nil
  with assms show ?thesis by (simp add: scan_item_def)
next
  case (Cons c u)
  show ?thesis
  proof (cases "c = backslash")
    case False
    with assms Cons plain show ?thesis by (simp add: scan_item_def split: if_splits)
  next
    case True
    show ?thesis
    proof (cases u)
      case Nil
      with assms Cons True show ?thesis by (simp add: scan_item_def)
    next
      case (Cons e v)
      show ?thesis
      proof (cases "is_escape e")
        case True
        with assms \<open>s = c # u\<close> \<open>c = backslash\<close> Cons escape [of e] show ?thesis
          by (simp add: scan_item_def)
      next
        case False
        with assms \<open>s = c # u\<close> \<open>c = backslash\<close> Cons unicode [of "take 4 v"] show ?thesis
          by (auto simp: scan_item_def split: if_splits)
      qed
    qed
  qed
qed
lemma scan_item_split:
  "scan_item s = Some (i, t) \<Longrightarrow> s = i @ t \<and> i \<noteq> [] \<and> hd i \<noteq> quote_char"
  by (erule scan_item_cases) auto

lemma scan_item_hd: "scan_item s = Some (i, t) \<Longrightarrow> \<exists>c u. s = c # u \<and> c \<noteq> quote_char"
  by (erule scan_item_cases) auto

lemma scan_item_self: "scan_item s = Some (i, t) \<Longrightarrow> scan_item (i @ u) = Some (i, u)"
  by (erule scan_item_cases)
    (simp_all add: scan_item_plain scan_item_escape scan_item_unicode)

lemma scan_item_append: "scan_item s = Some (i, t) \<Longrightarrow> scan_item (s @ u) = Some (i, t @ u)"
  using scan_item_self [of s i t "t @ u"] scan_item_split [of s i t] by simp

lemma scan_string_quote [simp]: "scan_string (quote_char # s) = Some ([], s)"
  by (simp add: scan_string.simps)

lemma scan_string_Nil [simp]: "scan_string [] = None"
  by (simp add: scan_string.simps)

lemma scan_string_item:
  "scan_item s = Some (i, t) \<Longrightarrow> scan_string s = map_option (\<lambda>(r, u). (i @ r, u)) (scan_string t)"
  using scan_item_hd [of s i t] by (subst scan_string.simps) auto

lemma scan_string_cases:
  assumes "scan_string s = Some (r, t)"
  obtains (quote) "s = quote_char # t" "r = []"
  | (item) i u r' where "scan_item s = Some (i, u)" "scan_string u = Some (r', t)" "r = i @ r'"
  using assms by (subst (asm) scan_string.simps) (auto split: list.splits if_splits option.splits)

lemma scan_string_induct [consumes 1, case_names quote item]:
  assumes "scan_string s = Some (r, t)"
    and "\<And>t. P (quote_char # t) [] t"
    and "\<And>s i u r t. \<lbrakk>scan_item s = Some (i, u); scan_string u = Some (r, t); P u r t\<rbrakk> \<Longrightarrow> P s (i @ r) t"
  shows "P s r t"
  using assms(1)
proof (induction s arbitrary: r rule: measure_induct_rule [where f = length])
  case (less s)
  from less.prems show ?case
  proof (cases rule: scan_string_cases)
    case quote
    then show ?thesis using assms(2) by simp
  next
    case (item i u r')
    then have "P u r' t" by (intro less.IH) (auto dest: scan_item_shorter)
    with item show ?thesis using assms(3) by simp
  qed
qed

lemma scan_string_append: "scan_string s = Some (r, t) \<Longrightarrow> scan_string (s @ u) = Some (r, t @ u)"
proof (induction rule: scan_string_induct)
  case (item s i v r t)
  then show ?case using scan_string_item [OF scan_item_append [of s i v u]] by simp
qed simp

lemma scan_string_shorter: "scan_string s = Some (r, t) \<Longrightarrow> length t < length s"
  by (induction rule: scan_string_induct) (auto dest: scan_item_shorter)

lemma scan_string_split: "scan_string s = Some (r, t) \<Longrightarrow> s = r @ quote_char # t"
  by (induction rule: scan_string_induct) (auto dest: scan_item_split)

lemma scan_string_self: "scan_string s = Some (r, t) \<Longrightarrow> scan_string (r @ quote_char # u) = Some (r, u)"
proof (induction rule: scan_string_induct)
  case (item s i v r t)
  then show ?case using scan_string_item [OF scan_item_self [of s i v "r @ quote_char # u"]] by simp
qed simp

lemma scan_string_wf: "scan_string s = Some (r, t) \<Longrightarrow> wf_str r"
  unfolding wf_str_def by (rule scan_string_self)

lemma scan_string_wf_str: "wf_str r \<Longrightarrow> scan_string (r @ quote_char # t) = Some (r, t)"
  unfolding wf_str_def by (rule scan_string_self)

section \<open>Numbers\<close>

definition stops :: "(char \<Rightarrow> bool) \<Rightarrow> bytes \<Rightarrow> bool" where
  "stops P u \<longleftrightarrow> (case u of [] \<Rightarrow> True | c # _ \<Rightarrow> \<not> P c)"

definition num_end :: "bytes \<Rightarrow> bool" where
  "num_end = stops (\<lambda>c. is_digit c \<or> c = CHR ''.'' \<or> c = CHR ''e'' \<or> c = CHR ''E'')"

lemma stops_Nil [simp]: "stops P []"
  by (simp add: stops_def)

lemma stops_Cons [simp]: "stops P (c # u) \<longleftrightarrow> \<not> P c"
  by (simp add: stops_def)

lemma takeWhile_stops: "stops P u \<Longrightarrow> takeWhile P (takeWhile P s @ u) = takeWhile P s"
  by (cases u) (auto simp: takeWhile_tail)

lemma dropWhile_stops: "stops P u \<Longrightarrow> dropWhile P (takeWhile P s @ u) = u"
  by (cases u) (auto simp: dropWhile_append3 dropWhile_append2 dest: set_takeWhileD)

lemma scan_int_self:
  "scan_int s = Some (i, t) \<Longrightarrow> stops is_digit u \<Longrightarrow> scan_int (i @ u) = Some (i, u)"
  by (auto simp: scan_int_def takeWhile_stops dropWhile_stops split: list.splits if_splits)

lemma scan_int_split: "scan_int s = Some (i, t) \<Longrightarrow> s = i @ t \<and> i \<noteq> []"
  by (auto simp: scan_int_def split: list.splits if_splits)

lemma scan_frac_self:
  "scan_frac s = Some (f, t) \<Longrightarrow> stops is_digit u \<Longrightarrow> stops (\<lambda>c. c = CHR ''.'') u \<Longrightarrow>
   scan_frac (f @ u) = Some (f, u)"
  by (cases u) (auto simp: scan_frac_def takeWhile_stops dropWhile_stops
      split: list.splits if_splits dest: set_takeWhileD)

lemma scan_frac_split: "scan_frac s = Some (f, t) \<Longrightarrow> s = f @ t"
  by (auto simp: scan_frac_def split: list.splits if_splits)

lemma scan_frac_stops: "scan_frac s = Some (f, t) \<Longrightarrow> f = [] \<or> (\<exists>d. f = CHR ''.'' # d)"
  by (auto simp: scan_frac_def split: list.splits if_splits)

lemma scan_sign_split: "scan_sign s = (g, t) \<Longrightarrow> s = g @ t"
  by (auto simp: scan_sign_def split: list.splits if_splits)

lemma scan_sign_self:
  "scan_sign s = (g, t) \<Longrightarrow> takeWhile is_digit t \<noteq> [] \<Longrightarrow>
   scan_sign (g @ takeWhile is_digit t @ u) = (g, takeWhile is_digit t @ u)"
  by (cases t) (auto simp: scan_sign_def is_digit_def split: list.splits if_splits)

lemma scan_exp_cases:
  assumes "scan_exp s = Some (e, t)"
  obtains (none) "e = []" "t = s" "stops (\<lambda>c. c = CHR ''e'' \<or> c = CHR ''E'') s"
  | (exp) c v g w where "s = c # v" "c = CHR ''e'' \<or> c = CHR ''E''" "scan_sign v = (g, w)"
      "takeWhile is_digit w \<noteq> []" "e = c # g @ takeWhile is_digit w" "t = dropWhile is_digit w"
  using assms by (auto simp: scan_exp_def split: list.splits if_splits prod.splits)

lemma scan_exp_self:
  assumes "scan_exp s = Some (e, t)" "stops is_digit u" "stops (\<lambda>c. c = CHR ''e'' \<or> c = CHR ''E'') u"
  shows "scan_exp (e @ u) = Some (e, u)"
  using assms(1)
proof (cases rule: scan_exp_cases)
  case none
  with assms show ?thesis by (cases u) (auto simp: scan_exp_def)
next
  case (exp c v g w)
  with assms scan_sign_self [of v g w u] show ?thesis
    by (auto simp: scan_exp_def takeWhile_stops dropWhile_stops)
qed

lemma scan_exp_split: "scan_exp s = Some (e, t) \<Longrightarrow> s = e @ t"
  by (erule scan_exp_cases) (auto dest: scan_sign_split)

lemma scan_exp_stops: "scan_exp s = Some (e, t) \<Longrightarrow>
    stops is_digit u \<Longrightarrow> stops is_digit (e @ u) \<and> (e = [] \<or> stops (\<lambda>c. c = CHR ''.'') e)"
  by (erule scan_exp_cases) (auto simp: is_digit_def)

lemma num_endD:
  assumes "num_end u"
  shows "stops is_digit u" "stops (\<lambda>c. c = CHR ''.'') u" "stops (\<lambda>c. c = CHR ''e'' \<or> c = CHR ''E'') u"
  using assms by (cases u; simp add: num_end_def)+

lemma scan_number_cases:
  assumes "scan_number s = Some (r, t)"
  obtains m s0 i s1 f s2 e where "scan_minus s = (m, s0)" "scan_int s0 = Some (i, s1)"
    "scan_frac s1 = Some (f, s2)" "scan_exp s2 = Some (e, t)" "r = m @ i @ f @ e"
  using assms by (auto simp: scan_number_def split: prod.splits option.splits)

lemma scan_minus_self:
  "scan_minus s = (m, s0) \<Longrightarrow> scan_int s0 = Some (i, s1) \<Longrightarrow> scan_minus (m @ i @ u) = (m, i @ u)"
  using scan_int_split [of s0 i s1]
  by (cases i) (auto simp: scan_minus_def scan_int_def is_digit_def split: list.splits if_splits)

lemma scan_number_self:
  assumes "scan_number s = Some (r, t)" "num_end u"
  shows "scan_number (r @ u) = Some (r, u)"
  using assms(1)
proof (rule scan_number_cases)
  fix m s0 i s1 f s2 e
  assume *: "scan_minus s = (m, s0)" "scan_int s0 = Some (i, s1)"
    "scan_frac s1 = Some (f, s2)" "scan_exp s2 = Some (e, t)" "r = m @ i @ f @ e"
  note u = num_endD [OF assms(2)]
  have e: "stops is_digit (e @ u)" "stops (\<lambda>c. c = CHR ''.'') (e @ u)"
    using scan_exp_stops [OF *(4) u(1)] u by (cases e; auto)+
  have f: "stops is_digit (f @ e @ u)"
    using scan_frac_stops [OF *(3)] e by (auto simp: is_digit_def)
  show ?thesis
    using scan_minus_self [OF *(1,2), of "f @ e @ u"] scan_int_self [OF *(2) f]
      scan_frac_self [OF *(3) e] scan_exp_self [OF *(4) u(1,3)]
    by (simp add: scan_number_def \<open>r = _\<close>)
qed

lemma scan_number_split: "scan_number s = Some (r, t) \<Longrightarrow> s = r @ t \<and> r \<noteq> []"
  by (erule scan_number_cases)
    (auto simp: scan_minus_def split: list.splits if_splits
      dest!: scan_int_split scan_frac_split scan_exp_split)

lemma scan_number_wf: "scan_number s = Some (r, t) \<Longrightarrow> wf_num r"
  using scan_number_self [of s r t "[]"] by (simp add: wf_num_def num_end_def)

lemma scan_number_wf_num: "wf_num r \<Longrightarrow> num_end t \<Longrightarrow> scan_number (r @ t) = Some (r, t)"
  unfolding wf_num_def by (rule scan_number_self)

lemma wf_num_hd: "wf_num r \<Longrightarrow> \<exists>c s. r = c # s \<and> (is_digit c \<or> c = CHR ''-'')"
  unfolding wf_num_def
  by (erule scan_number_cases)
    (auto simp: scan_minus_def scan_int_def is_digit_def split: list.splits if_splits)


section \<open>The parser\<close>

lemma length_skip_ws: "length (skip_ws s) \<le> length s"
  by (simp add: skip_ws_def length_dropWhile_le)

lemma skip_ws_Cons_length: "skip_ws s = c # t \<Longrightarrow> length t < length s"
  using length_skip_ws [of s] by simp

lemma skip_ws_Cons [simp]: "\<not> is_ws c \<Longrightarrow> skip_ws (c # s) = c # s"
  by (simp add: skip_ws_def)

lemma skip_ws_idem [simp]: "skip_ws (skip_ws s) = skip_ws s"
  by (simp add: skip_ws_def)

lemma value_body_cases:
  assumes "value_body members elems s = Some (j, t)"
  obtains (empty_obj) u where "skip_ws s = CHR ''{'' # u" "skip_ws u = CHR ''}'' # t" "j = JObj []"
  | (obj) u kvs where "skip_ws s = CHR ''{'' # u" "members (skip_ws u) = Some (kvs, t)" "j = JObj kvs"
      "skip_ws u \<noteq> []" "hd (skip_ws u) \<noteq> CHR ''}''"
  | (empty_arr) u where "skip_ws s = CHR ''['' # u" "skip_ws u = CHR '']'' # t" "j = JArr []"
  | (arr) u vs where "skip_ws s = CHR ''['' # u" "elems (skip_ws u) = Some (vs, t)" "j = JArr vs"
      "skip_ws u \<noteq> []" "hd (skip_ws u) \<noteq> CHR '']''"
  | (str) u r where "skip_ws s = quote_char # u" "scan_string u = Some (r, t)" "j = JStr r"
  | (lit) c u where "skip_ws s = c # u" "length t < length (c # u)" "j = JNull \<or> j = JTrue \<or> j = JFalse"
  | (num) c u r where "skip_ws s = c # u" "scan_number (c # u) = Some (r, t)" "j = JNum r"
  using assms
  by (simp add: value_body_def scan_literal_def split: list.splits if_splits) auto

lemma elems_body_cases:
  assumes "elems_body val elems s = Some (vs, t)"
  obtains (last) v u where "val s = Some (v, u)" "skip_ws u = CHR '']'' # t" "vs = [v]"
  | (more) v u w vs' where "val s = Some (v, u)" "skip_ws u = CHR '','' # w" "elems w = Some (vs', t)"
      "vs = v # vs'"
  using assms by (auto simp: elems_body_def split: list.splits if_splits option.splits)

lemma members_body_cases:
  assumes "members_body val members s = Some (kvs, t)"
  obtains (last) k u j w where "key_body s = Some (k, u)" "val u = Some (j, w)"
      "skip_ws w = CHR ''}'' # t" "kvs = [(k, j)]"
  | (more) k u j w x kvs' where "key_body s = Some (k, u)" "val u = Some (j, w)"
      "skip_ws w = CHR '','' # x" "members x = Some (kvs', t)" "kvs = (k, j) # kvs'"
  using assms by (auto simp: members_body_def split: list.splits if_splits option.splits)

lemma key_body_shorter: "key_body s = Some (k, t) \<Longrightarrow> length t < length s"
  by (auto simp: key_body_def split: list.splits if_splits option.splits
      dest!: scan_string_shorter skip_ws_Cons_length)

lemma key_body_wf: "key_body s = Some (k, t) \<Longrightarrow> wf_str k"
  by (auto simp: key_body_def split: list.splits if_splits option.splits dest: scan_string_wf)

lemma parse_shorter:
  "parse_value n s = Some (j, t) \<Longrightarrow> length t < length s"
  "parse_elems n s = Some (vs, t) \<Longrightarrow> length t < length s"
  "parse_members n s = Some (kvs, t) \<Longrightarrow> length t < length s"
proof (induction n s and n s and n s arbitrary: j t and vs t and kvs t
    rule: parse_value_parse_elems_parse_members.induct)
  case (2 n s)
  note IH = this(1,2)
  from 2(3) have "value_body (parse_members n) (parse_elems n) s = Some (j, t)" by simp
  then show ?case
  proof (cases rule: value_body_cases)
    case (obj u kvs)
    then show ?thesis using IH(1) [OF obj(2)] length_skip_ws [of u] skip_ws_Cons_length [OF obj(1)] by simp
  next
    case (arr u vs)
    then show ?thesis using IH(2) [OF arr(2)] length_skip_ws [of u] skip_ws_Cons_length [OF arr(1)] by simp
  next
    case (lit c u)
    then show ?thesis using length_skip_ws [of s] by simp
  next
    case (num c u r)
    then show ?thesis using length_skip_ws [of s] scan_number_split [OF num(2)] by (cases r) auto
  qed (auto dest!: skip_ws_Cons_length scan_string_shorter)
next
  case (4 n s)
  note IH = this(1,2)
  from 4(3) have "elems_body (parse_value n) (parse_elems n) s = Some (vs, t)" by simp
  then show ?case
  proof (cases rule: elems_body_cases)
    case (last v u)
    then show ?thesis using IH(1) [OF last(1)] skip_ws_Cons_length [OF last(2)] by simp
  next
    case (more v u w vs')
    then show ?thesis using IH(1) [OF more(1)] IH(2) [OF more(3)] skip_ws_Cons_length [OF more(2)] by simp
  qed
next
  case (6 n s)
  note IH = this(1,2)
  from 6(3) have "members_body (parse_value n) (parse_members n) s = Some (kvs, t)" by simp
  then show ?case
  proof (cases rule: members_body_cases)
    case (last k u j w)
    then show ?thesis
      using IH(1) [OF last(2)] skip_ws_Cons_length [OF last(3)] key_body_shorter [OF last(1)] by simp
  next
    case (more k u j w x kvs')
    then show ?thesis using IH(1) [OF more(2)] IH(2) [OF more(4)] skip_ws_Cons_length [OF more(3)]
        key_body_shorter [OF more(1)] by simp
  qed
qed simp_all

lemma parse_wf:
  "parse_value n s = Some (j, t) \<Longrightarrow> wf_json j"
  "parse_elems n s = Some (vs, t) \<Longrightarrow> list_all wf_json vs"
  "parse_members n s = Some (kvs, t) \<Longrightarrow> list_all (\<lambda>(k, v). wf_str k \<and> wf_json v) kvs"
proof (induction n s and n s and n s arbitrary: j t and vs t and kvs t
    rule: parse_value_parse_elems_parse_members.induct)
  case (2 n s)
  then show ?case by (auto elim!: value_body_cases dest: scan_string_wf scan_number_wf)
next
  case (4 n s)
  then show ?case by (auto elim!: elems_body_cases)
next
  case (6 n s)
  then show ?case by (auto elim!: members_body_cases dest: key_body_wf)
qed simp_all

text \<open>Each production calls the others on shorter input only; the element list calls its first value in place.\<close>

lemma value_body_cong:
  assumes "\<And>x. length x < length s \<Longrightarrow> members x = members' x"
    and "\<And>x. length x < length s \<Longrightarrow> elems x = elems' x"
  shows "value_body members elems s = value_body members' elems' s"
proof (cases "skip_ws s")
  case (Cons c u)
  show ?thesis
  proof (cases "skip_ws u")
    case (Cons d v)
    with \<open>skip_ws s = c # u\<close> have "length (d # v) < length s"
      using length_skip_ws [of s] length_skip_ws [of u] by simp
    with assms have "members (d # v) = members' (d # v)" "elems (d # v) = elems' (d # v)" by blast+
    with Cons \<open>skip_ws s = c # u\<close> show ?thesis unfolding value_body_def by (simp only: list.case)
  qed (use Cons in \<open>simp add: value_body_def\<close>)
qed (simp add: value_body_def)

lemma elems_body_cong:
  assumes "val s = val' s"
    and "\<And>v t. val' s = Some (v, t) \<Longrightarrow> length t < length s"
    and "\<And>x. length x < length s \<Longrightarrow> elems x = elems' x"
  shows "elems_body val elems s = elems_body val' elems' s"
proof (cases "val' s")
  case (Some r)
  obtain v t where r: "r = (v, t)" by (cases r)
  have "elems u = elems' u" if "skip_ws t = d # u" for d u
    using assms(2) [of v t] Some r skip_ws_Cons_length [OF that] by (intro assms(3)) simp
  then show ?thesis using assms(1) Some r by (simp add: elems_body_def split: list.split)
qed (use assms(1) in \<open>simp add: elems_body_def\<close>)

lemma members_body_cong:
  assumes "\<And>x. length x < length s \<Longrightarrow> val x = val' x"
    and "\<And>x v t. val' x = Some (v, t) \<Longrightarrow> length t < length x"
    and "\<And>x. length x < length s \<Longrightarrow> members x = members' x"
  shows "members_body val members s = members_body val' members' s"
proof (cases "key_body s")
  case (Some r)
  obtain k t where r: "r = (k, t)" by (cases r)
  with Some have t: "length t < length s" using key_body_shorter by blast
  have "members v = members' v" if "val' t = Some (j, u)" "skip_ws u = d # v" for d j u v
    using assms(2) [OF that(1)] skip_ws_Cons_length [OF that(2)] t by (intro assms(3)) simp
  then show ?thesis using assms(1) [OF t] Some r
    by (simp add: members_body_def split: list.split option.split)
qed (simp add: members_body_def)

text \<open>More fuel than \<^term>\<open>json_fuel\<close> never changes the outcome.\<close>

lemma parse_fuel_Suc:
  "2 * length s < n \<Longrightarrow> parse_value (Suc n) s = parse_value n s"
  "2 * length s + 1 < n \<Longrightarrow> parse_elems (Suc n) s = parse_elems n s"
  "2 * length s < n \<Longrightarrow> parse_members (Suc n) s = parse_members n s"
proof (induction n arbitrary: s)
  case (Suc n)
  { case 1
    then show ?case
      using value_body_cong [of s "parse_members (Suc n)" "parse_members n" "parse_elems (Suc n)" "parse_elems n"]
        Suc.IH(2,3) by simp
  next
    case 2
    then show ?case
      using elems_body_cong [of "parse_value (Suc n)" s "parse_value n" "parse_elems (Suc n)" "parse_elems n"]
        Suc.IH(1,2) parse_shorter(1) by simp
  next
    case 3
    then show ?case
      using members_body_cong [of s "parse_value (Suc n)" "parse_value n" "parse_members (Suc n)" "parse_members n"]
        Suc.IH(1,3) parse_shorter(1) by simp }
qed simp_all

lemma parse_fuel: "json_fuel s \<le> n \<Longrightarrow> parse_value n s = parse_value (json_fuel s) s"
proof (induction n rule: dec_induct)
  case (step n)
  then have "parse_value (Suc n) s = parse_value n s"
    by (intro parse_fuel_Suc(1)) (simp add: json_fuel_def)
  with step show ?case by (simp only:)
qed simp


section \<open>Printing and parsing\<close>

lemma not_ws [simp]: "\<not> is_ws (CHR ''{'')" "\<not> is_ws (CHR ''}'')" "\<not> is_ws (CHR ''['')" "\<not> is_ws (CHR '']'')"
    "\<not> is_ws quote_char" "\<not> is_ws (CHR '','')" "\<not> is_ws (CHR '':'')" "\<not> is_ws (CHR ''t'')"
    "\<not> is_ws (CHR ''f'')" "\<not> is_ws (CHR ''n'')" "\<not> is_ws (CHR ''-'')"
  by (simp_all add: is_ws_def)

lemma is_digit_not_ws: "is_digit c \<Longrightarrow> \<not> is_ws c"
  by (auto simp: is_digit_def is_ws_def)

lemma wf_num_start:
  assumes "wf_num r"
  obtains c s where "r = c # s" "\<not> is_ws c"
    "c \<notin> {CHR ''{'', CHR ''}'', CHR ''['', CHR '']'', quote_char, CHR ''t'', CHR ''f'', CHR ''n''}"
proof -
  from wf_num_hd [OF assms] obtain c s where r: "r = c # s" and c: "is_digit c \<or> c = CHR ''-''" by blast
  have "\<not> is_ws c" using c is_digit_not_ws by auto
  moreover have "c \<notin> {CHR ''{'', CHR ''}'', CHR ''['', CHR '']'', quote_char, CHR ''t'', CHR ''f'', CHR ''n''}"
    using c by (auto simp: is_digit_def)
  ultimately show ?thesis by (rule that [OF r])
qed

lemma key_body_print: "wf_str k \<Longrightarrow> key_body (quote_char # k @ quote_char # CHR '':'' # s) = Some (k, s)"
  by (simp add: key_body_def scan_string_wf_str)

lemma json_print_start:
  assumes "wf_json j"
  obtains c s where "json_print j = c # s" "\<not> is_ws c" "c \<noteq> CHR '']''" "c \<noteq> CHR ''}''"
  using assms by (cases j) (auto elim: wf_num_start)

lemma num_end_delim [simp]: "num_end []" "num_end (CHR '','' # t)" "num_end (CHR '']'' # t)" "num_end (CHR ''}'' # t)"
  by (simp_all add: num_end_def is_digit_def)

lemma skip_ws_print: "wf_json j \<Longrightarrow> skip_ws (json_print j @ t) = json_print j @ t"
  by (erule json_print_start) simp

lemma parse_print_num:
  assumes "wf_num r" "num_end t"
  shows "parse_value (Suc n) (r @ t) = Some (JNum r, t)"
  using assms(1)
proof (rule wf_num_start)
  fix c s
  assume "r = c # s" "\<not> is_ws c"
    "c \<notin> {CHR ''{'', CHR ''}'', CHR ''['', CHR '']'', quote_char, CHR ''t'', CHR ''f'', CHR ''n''}"
  then show ?thesis using scan_number_wf_num [OF assms] by (simp add: value_body_def)
qed

lemma parse_print_elems:
  assumes "\<And>v t n. \<lbrakk>v \<in> set vs; num_end t; 2 * length (json_print v @ t) < n\<rbrakk> \<Longrightarrow>
      parse_value n (json_print v @ t) = Some (v, t)"
    and "vs \<noteq> []" "2 * length (join (map json_print vs) @ CHR '']'' # t) + 1 < n"
  shows "parse_elems n (join (map json_print vs) @ CHR '']'' # t) = Some (vs, t)"
  using assms
proof (induction vs arbitrary: n rule: induct_list012)
  case (2 v)
  then obtain m where "n = Suc m" by (cases n) auto
  with 2 show ?case by (simp add: elems_body_def)
next
  case (3 v w vs)
  then obtain m where m: "n = Suc m" by (cases n) auto
  have "parse_elems m (join (map json_print (w # vs)) @ CHR '']'' # t) = Some (w # vs, t)"
    using 3(3,5) m by (intro 3(2)) auto
  moreover have "parse_value m (json_print v @ CHR '','' # join (map json_print (w # vs)) @ CHR '']'' # t) =
      Some (v, CHR '','' # join (map json_print (w # vs)) @ CHR '']'' # t)"
    using 3(5) m by (intro 3(3)) auto
  ultimately show ?case using m by (simp add: elems_body_def)
qed simp

abbreviation print_member :: "bytes \<times> json \<Rightarrow> bytes" where
  "print_member \<equiv> \<lambda>(k, v). quote_char # k @ quote_char # CHR '':'' # json_print v"

lemma parse_print_members:
  assumes "\<And>k v t n. \<lbrakk>(k, v) \<in> set kvs; num_end t; 2 * length (json_print v @ t) < n\<rbrakk> \<Longrightarrow>
      parse_value n (json_print v @ t) = Some (v, t)"
    and "\<And>k v. (k, v) \<in> set kvs \<Longrightarrow> wf_str k"
    and "kvs \<noteq> []" "2 * length (join (map print_member kvs) @ CHR ''}'' # t) < n"
  shows "parse_members n (join (map print_member kvs) @ CHR ''}'' # t) = Some (kvs, t)"
  using assms
proof (induction kvs arbitrary: n rule: induct_list012)
  case (2 kv)
  obtain k v where kv: "kv = (k, v)" by (cases kv)
  from 2 obtain m where m: "n = Suc m" by (cases n) auto
  have "parse_value m (json_print v @ CHR ''}'' # t) = Some (v, CHR ''}'' # t)"
    using 2(4) m kv by (intro 2(1)) auto
  moreover have "wf_str k" using 2(2) kv by auto
  ultimately show ?case using m kv by (simp add: members_body_def key_body_print)
next
  case (3 kv kw kvs)
  obtain k v where kv: "kv = (k, v)" by (cases kv)
  from 3 obtain m where m: "n = Suc m" by (cases n) auto
  let ?rest = "join (map print_member (kw # kvs)) @ CHR ''}'' # t"
  have "parse_members m ?rest = Some (kw # kvs, t)"
    using 3(4,6) m kv by (intro 3(2) 3(3)) auto
  moreover have "parse_value m (json_print v @ CHR '','' # ?rest) = Some (v, CHR '','' # ?rest)"
    using 3(6) m kv by (intro 3(3)) auto
  moreover have "wf_str k" using 3(4) kv by auto
  ultimately show ?case using m kv by (simp add: members_body_def key_body_print)
qed simp

lemma parse_print_literal:
  assumes "0 < n"
  shows "parse_value n (json_print JNull @ t) = Some (JNull, t)"
    "parse_value n (json_print JTrue @ t) = Some (JTrue, t)"
    "parse_value n (json_print JFalse @ t) = Some (JFalse, t)"
  using assms by (cases n; simp add: value_body_def scan_literal_def)+

lemma join_start:
  "xs \<noteq> [] \<Longrightarrow> hd xs = c # s \<Longrightarrow> \<exists>u. join xs = c # u"
  by (induction xs rule: join.induct) auto

theorem parse_print:
  "\<lbrakk>wf_json j; num_end t; 2 * length (json_print j @ t) < n\<rbrakk> \<Longrightarrow> parse_value n (json_print j @ t) = Some (j, t)"
proof (induction j arbitrary: t n)
  case (JNum r)
  then obtain m where "n = Suc m" by (cases n) auto
  with JNum show ?case by (simp only: json_print.simps wf_json.simps parse_print_num)
next
  case (JStr r)
  then obtain m where "n = Suc m" by (cases n) auto
  with JStr show ?case by (simp add: value_body_def scan_string_wf_str)
next
  case (JArr vs)
  then obtain m where m: "n = Suc m" by (cases n) auto
  show ?case
  proof (cases vs)
    case Nil
    with m show ?thesis by (simp add: value_body_def)
  next
    case (Cons v vs')
    with JArr.prems(1) obtain c s where "json_print v = c # s" "\<not> is_ws c" "c \<noteq> CHR '']''"
      by (auto elim: json_print_start)
    then obtain u where u: "join (map json_print vs) = c # u" "\<not> is_ws c" "c \<noteq> CHR '']''"
      using join_start [of "map json_print vs" c s] Cons by auto
    have "parse_elems m (join (map json_print vs) @ CHR '']'' # t) = Some (vs, t)"
      using JArr m Cons by (intro parse_print_elems) (auto simp: list_all_iff)
    with m u show ?thesis by (simp add: value_body_def)
  qed
next
  case (JObj kvs)
  then obtain m where m: "n = Suc m" by (cases n) auto
  show ?case
  proof (cases kvs)
    case Nil
    with m show ?thesis by (simp add: value_body_def)
  next
    case (Cons kv kvs')
    obtain k v where "kv = (k, v)" by (cases kv)
    then obtain u where u: "join (map print_member kvs) = quote_char # u"
      using join_start [of "map print_member kvs" quote_char "k @ quote_char # CHR '':'' # json_print v"] Cons
      by auto
    have wf: "wf_str k \<and> wf_json v" if "(k, v) \<in> set kvs" for k v
      using JObj.prems(1) that by (auto simp: list_all_iff)
    have IH: "parse_value n (json_print v @ t) = Some (v, t)"
      if "(k, v) \<in> set kvs" "num_end t" "2 * length (json_print v @ t) < n" for k v t n
      using that wf by (intro JObj.IH [of "(k, v)"]) auto
    have "parse_members m (join (map print_member kvs) @ CHR ''}'' # t) = Some (kvs, t)"
      using JObj.prems m Cons wf IH by (intro parse_print_members) auto
    with m u show ?thesis by (simp add: value_body_def)
  qed
qed (rule parse_print_literal, simp)+

text \<open>Printing a document and parsing the text gives the document back.\<close>

theorem json_parse_print: "wf_json j \<Longrightarrow> json_depth j \<le> 10000 \<Longrightarrow> json_parse (json_print j) = Some j"
  using parse_print [of j "[]" "json_fuel (json_print j)"]
  by (simp add: json_parse_def json_fuel_def skip_ws_def)

text \<open>What the parser returns is well formed.\<close>

theorem json_parse_wf: "json_parse s = Some j \<Longrightarrow> wf_json j \<and> json_depth j \<le> 10000"
  by (auto simp: json_parse_def split: option.splits if_splits dest: parse_wf(1))

end
