(* ===== verification/JsonString.thy ===== *)
theory JsonString
  imports Json
begin

text \<open>
  JSON string literals in Go's \<^verbatim>\<open>encoding/json\<close>: \<^verbatim>\<open>unquote\<close> (escapes, surrogate pairs,
  replacement of invalid UTF-8), \<^verbatim>\<open>appendString\<close> with HTML escaping on, and the HTML escaping
  that \<^verbatim>\<open>appendCompact\<close> applies to a \<^verbatim>\<open>json.RawMessage\<close> when it is marshalled. Quoting and
  unquoting are inverse on valid UTF-8, and HTML escaping does not change what a literal means.
\<close>

section \<open>Unquoting\<close>

definition hex4 :: "bytes \<Rightarrow> nat" where
  "hex4 u = foldl (\<lambda>a h. 16 * a + hex_value h) 0 (take 4 u)"

definition unescape :: "char \<Rightarrow> char" where
  "unescape e = (if e = CHR ''b'' then CHR 0x08 else if e = CHR ''f'' then CHR 0x0C
     else if e = CHR ''n'' then CHR 0x0A else if e = CHR ''r'' then CHR 0x0D
     else if e = CHR ''t'' then CHR 0x09 else e)"

text \<open>\<^verbatim>\<open>getu4\<close> and \<^verbatim>\<open>utf16.DecodeRune\<close>: the rune a high surrogate forms with the escape that follows it.\<close>

definition surrogate_pair :: "nat \<Rightarrow> bytes \<Rightarrow> nat option" where
  "surrogate_pair hi v =
     (if take 2 v = [backslash, CHR ''u''] \<and> 6 \<le> length v \<and> list_all is_hex (take 4 (drop 2 v))
         \<and> hi < 0xDC00 \<and> 0xDC00 \<le> hex4 (drop 2 v) \<and> hex4 (drop 2 v) < 0xE000
      then Some (0x10000 + (hi - 0xD800) * 1024 + (hex4 (drop 2 v) - 0xDC00))
      else None)"

function unquote :: "bytes \<Rightarrow> bytes" where
  "unquote s = (case s of
     [] \<Rightarrow> []
   | c # t \<Rightarrow>
       if c = backslash then
         (case t of
            [] \<Rightarrow> []
          | e # u \<Rightarrow>
              if e = CHR ''u'' then
                (if is_surrogate (hex4 u) then
                   (case surrogate_pair (hex4 u) (drop 4 u) of
                      Some r \<Rightarrow> encode_rune r @ unquote (drop 10 u)
                    | None \<Rightarrow> replacement @ unquote (drop 4 u))
                 else encode_rune (hex4 u) @ unquote (drop 4 u))
              else if is_escape e then unescape e # unquote u
              else [])
       else if byte c < 128 then c # unquote t
       else (case utf8_len s of
          None \<Rightarrow> replacement @ unquote t
        | Some n \<Rightarrow> take n s @ unquote (drop n s)))"
  by pat_completeness auto
termination
  by (relation "measure length") (auto dest: utf8_len_bounds)

declare unquote.simps [simp del]

section \<open>Quoting\<close>

definition u_escape :: "nat \<Rightarrow> bytes" where
  "u_escape r = [backslash, CHR ''u'', hex_digit (r div 4096), hex_digit (r div 256 mod 16),
     hex_digit (r div 16 mod 16), hex_digit (r mod 16)]"

definition html_char :: "char \<Rightarrow> bool" where
  "html_char c \<longleftrightarrow> c = CHR ''<'' \<or> c = CHR ''>'' \<or> c = CHR ''&''"

definition quote_ascii :: "char \<Rightarrow> bytes" where
  "quote_ascii c =
     (if c = quote_char \<or> c = backslash then [backslash, c]
      else if byte c = 8 then [backslash, CHR ''b'']
      else if byte c = 12 then [backslash, CHR ''f'']
      else if byte c = 10 then [backslash, CHR ''n'']
      else if byte c = 13 then [backslash, CHR ''r'']
      else if byte c = 9 then [backslash, CHR ''t'']
      else if byte c < 32 \<or> html_char c then u_escape (byte c)
      else [c])"

abbreviation line_sep :: bytes where
  "line_sep \<equiv> [CHR 0xE2, CHR 0x80, CHR 0xA8]"

abbreviation para_sep :: bytes where
  "para_sep \<equiv> [CHR 0xE2, CHR 0x80, CHR 0xA9]"

definition quote_rune :: "bytes \<Rightarrow> bytes" where
  "quote_rune u = (if u = line_sep then u_escape 0x2028
     else if u = para_sep then u_escape 0x2029 else u)"

function quote :: "bytes \<Rightarrow> bytes" where
  "quote s = (case s of
     [] \<Rightarrow> []
   | c # t \<Rightarrow>
       if byte c < 128 then quote_ascii c @ quote t
       else (case utf8_len s of
          None \<Rightarrow> u_escape 0xFFFD @ quote t
        | Some n \<Rightarrow> quote_rune (take n s) @ quote (drop n s)))"
  by pat_completeness auto
termination
  by (relation "measure length") (auto dest: utf8_len_bounds)

declare quote.simps [simp del]

text \<open>The escaping inside a string literal that is copied, not re-quoted.\<close>

function html_escape :: "bytes \<Rightarrow> bytes" where
  "html_escape s = (case s of
     [] \<Rightarrow> []
   | c # t \<Rightarrow>
       if html_char c then u_escape (byte c) @ html_escape t
       else if take 3 s = line_sep then u_escape 0x2028 @ html_escape (drop 3 s)
       else if take 3 s = para_sep then u_escape 0x2029 @ html_escape (drop 3 s)
       else c # html_escape t)"
  by pat_completeness auto
termination
  by (relation "measure length") auto

declare html_escape.simps [simp del]

fun json_html :: "json \<Rightarrow> json" where
  "json_html (JStr r) = JStr (html_escape r)"
| "json_html (JArr vs) = JArr (map json_html vs)"
| "json_html (JObj kvs) = JObj (map (\<lambda>(k, v). (html_escape k, json_html v)) kvs)"
| "json_html j = j"

section \<open>Unquoting step by step\<close>

lemma unquote_Nil [simp]: "unquote [] = []"
  by (simp add: unquote.simps)

lemma unquote_plain: "c \<noteq> backslash \<Longrightarrow> byte c < 128 \<Longrightarrow> unquote (c # t) = c # unquote t"
  by (simp add: unquote.simps [of "c # t"])

lemma unquote_escape: "is_escape e \<Longrightarrow> unquote (backslash # e # t) = unescape e # unquote t"
  by (auto simp: unquote.simps [of "backslash # e # t"])

lemma unquote_unicode:
  "\<not> is_surrogate (hex4 h) \<Longrightarrow> length h = 4 \<Longrightarrow>
   unquote (backslash # CHR ''u'' # h @ t) = encode_rune (hex4 h) @ unquote t"
  by (simp add: unquote.simps [of "backslash # CHR ''u'' # h @ t"] hex4_def)

lemma unquote_multibyte:
  assumes "is_rune u" "\<not> byte (hd u) < 128"
  shows "unquote (u @ t) = u @ unquote t"
proof -
  from assms obtain c v where u: "u = c # v" by (cases u) (auto simp: is_rune_def)
  have len: "utf8_len (u @ t) = Some (length u)" using assms utf8_len_append by (auto simp: is_rune_def)
  from assms u have "c \<noteq> backslash" by auto
  with assms u len show ?thesis by (subst unquote.simps) simp
qed

lemma unquote_invalid:
  "\<not> byte c < 128 \<Longrightarrow> utf8_len (c # t) = None \<Longrightarrow> unquote (c # t) = replacement @ unquote t"
  by (subst unquote.simps) auto

lemma byte_unescape: "is_escape e \<Longrightarrow> byte (unescape e) < 128"
  unfolding is_escape_def by (simp, elim disjE) (simp_all add: unescape_def)

lemma valid_utf8_unquote: "valid_utf8 (unquote s)"
proof (induction s rule: unquote.induct)
  case (1 s)
  show ?case
  proof (cases s)
    case (Cons c t)
    show ?thesis
    proof (cases "c = backslash")
      case True
      with Cons 1 show ?thesis
        by (subst unquote.simps)
          (auto split: list.splits option.splits
            simp: valid_utf8_encode_rune valid_utf8_replacement valid_utf8_ascii_Cons byte_unescape)
    next
      case False
      with Cons 1 show ?thesis
        by (subst unquote.simps)
          (auto split: option.splits simp: valid_utf8_replacement valid_utf8_ascii_Cons
            valid_utf8_rune [OF is_rune_take] simp del: utf8_len.simps)
    qed
  qed simp
qed

section \<open>Quoting and unquoting\<close>

lemma byte_hex_digit: "n < 16 \<Longrightarrow> byte (hex_digit n) = (if n < 10 then 48 + n else 87 + n)"
  by (simp add: hex_digit_def)

lemma hex_value_hex_digit: "n < 16 \<Longrightarrow> hex_value (hex_digit n) = n"
  by (simp add: hex_value_def is_digit_def byte_hex_digit)

lemma is_hex_hex_digit: "n < 16 \<Longrightarrow> is_hex (hex_digit n)"
  by (simp add: is_hex_def is_digit_def byte_hex_digit)

lemma hex4_hex_digits:
  "r < 65536 \<Longrightarrow> hex4 [hex_digit (r div 4096), hex_digit (r div 256 mod 16),
     hex_digit (r div 16 mod 16), hex_digit (r mod 16)] = r"
proof -
  assume r: "r < 65536"
  have "r div 256 = r div 16 div 16" "r div 4096 = r div 16 div 16 div 16"
    by (simp_all add: div_mult2_eq [symmetric])
  then have "16 * (16 * (16 * (r div 4096) + r div 256 mod 16) + r div 16 mod 16) + r mod 16 = r"
    by (metis mult.commute div_mult_mod_eq)
  with r show ?thesis by (simp add: hex4_def hex_value_hex_digit)
qed

lemma unquote_u_escape:
  "r < 65536 \<Longrightarrow> \<not> is_surrogate r \<Longrightarrow> unquote (u_escape r @ t) = encode_rune r @ unquote t"
  using unquote_unicode [of "drop 2 (u_escape r)" t] hex4_hex_digits [of r] by (simp add: u_escape_def)

lemma encode_rune_byte: "byte c < 128 \<Longrightarrow> encode_rune (byte c) = [c]"
  by (simp add: encode_rune_def)

lemma char_eq_of_byte: "byte c = n \<Longrightarrow> byte d = n \<Longrightarrow> c = d"
  by (metis char_of_char)

lemma char_of_byte: "byte c = n \<Longrightarrow> char_of n = c"
  by (metis char_of_char)

lemma quote_ascii_escapes:
  "unquote (quote_ascii (CHR 0x08) @ t) = CHR 0x08 # unquote t"
  "unquote (quote_ascii (CHR 0x0C) @ t) = CHR 0x0C # unquote t"
  "unquote (quote_ascii (CHR 0x0A) @ t) = CHR 0x0A # unquote t"
  "unquote (quote_ascii (CHR 0x0D) @ t) = CHR 0x0D # unquote t"
  "unquote (quote_ascii (CHR 0x09) @ t) = CHR 0x09 # unquote t"
  "unquote (quote_ascii quote_char @ t) = quote_char # unquote t"
  "unquote (quote_ascii backslash @ t) = backslash # unquote t"
  by (simp_all add: quote_ascii_def unquote_escape is_escape_def unescape_def)

lemma unquote_quote_ascii:
  assumes "byte c < 128"
  shows "unquote (quote_ascii c @ t) = c # unquote t"
proof (cases "c \<in> {CHR 0x08, CHR 0x0C, CHR 0x0A, CHR 0x0D, CHR 0x09, quote_char, backslash}")
  case True
  then show ?thesis using quote_ascii_escapes by auto
next
  case False
  then have b: "byte c \<noteq> 8" "byte c \<noteq> 12" "byte c \<noteq> 10" "byte c \<noteq> 13" "byte c \<noteq> 9"
    using char_eq_of_byte [of c 8 "CHR 0x08"] char_eq_of_byte [of c 12 "CHR 0x0C"]
      char_eq_of_byte [of c 10 "CHR 0x0A"] char_eq_of_byte [of c 13 "CHR 0x0D"]
      char_eq_of_byte [of c 9 "CHR 0x09"] by auto
  show ?thesis
  proof (cases "byte c < 32 \<or> html_char c")
    case True
    with False b have "quote_ascii c = u_escape (byte c)" by (simp add: quote_ascii_def)
    with assms show ?thesis by (simp add: unquote_u_escape is_surrogate_def encode_rune_byte)
  next
    case f: False
    with False b have "quote_ascii c = [c]" by (simp add: quote_ascii_def)
    with assms False show ?thesis by (simp add: unquote_plain)
  qed
qed

lemma is_rune_ascii_iff: "is_rune u \<Longrightarrow> byte (hd u) < 128 \<Longrightarrow> \<exists>c. u = [c]"
  by (cases u) (auto simp: is_rune_def)

lemma unquote_quote_rune:
  assumes "is_rune u" "\<not> byte (hd u) < 128"
  shows "unquote (quote_rune u @ t) = u @ unquote t"
proof -
  have "encode_rune 0x2028 = line_sep" "encode_rune 0x2029 = para_sep"
    by (simp_all add: encode_rune_def is_surrogate_def char_of_byte)
  then show ?thesis using assms
    by (auto simp: quote_rune_def unquote_u_escape unquote_multibyte is_surrogate_def)
qed

lemma quote_Nil [simp]: "quote [] = []"
  by (simp add: quote.simps)

lemma quote_ascii_Cons: "byte c < 128 \<Longrightarrow> quote (c # t) = quote_ascii c @ quote t"
  by (simp add: quote.simps [of "c # t"])

lemma quote_rune_append:
  assumes "is_rune u" "\<not> byte (hd u) < 128"
  shows "quote (u @ t) = quote_rune u @ quote t"
proof -
  from assms(1) obtain c v where u: "u = c # v" by (cases u) (auto simp: is_rune_def)
  have len: "utf8_len (u @ t) = Some (length u)" using assms utf8_len_append by (auto simp: is_rune_def)
  with assms u show ?thesis by (subst quote.simps) simp
qed

text \<open>A valid string is a sequence of runes: the induction principle for it.\<close>

lemma valid_utf8_induct [consumes 1, case_names Nil ascii rune]:
  assumes "valid_utf8 s"
    and "P []"
    and "\<And>c t. \<lbrakk>byte c < 128; valid_utf8 t; P t\<rbrakk> \<Longrightarrow> P (c # t)"
    and "\<And>u t. \<lbrakk>is_rune u; \<not> byte (hd u) < 128; valid_utf8 t; P t\<rbrakk> \<Longrightarrow> P (u @ t)"
  shows "P s"
  using assms(1)
proof (induction s rule: valid_utf8.induct)
  case (1 s)
  show ?case
  proof (cases s)
    case Nil
    then show ?thesis using assms(2) by simp
  next
    case (Cons c t)
    with "1.prems" obtain n where n: "utf8_len s = Some n" "valid_utf8 (drop n s)"
      by (subst (asm) valid_utf8.simps) (auto split: option.splits)
    then have IH: "P (drop n s)" using "1.IH" Cons by simp
    show ?thesis
    proof (cases "byte c < 128")
      case True
      with n Cons have "n = 1" by simp
      with True n IH Cons show ?thesis using assms(3) by simp
    next
      case False
      have "hd (take n s) = c" using utf8_len_bounds [OF n(1)] Cons by (cases n) auto
      with False n IH show ?thesis using assms(4) [of "take n s" "drop n s"] is_rune_take by auto
    qed
  qed
qed

theorem unquote_quote: "valid_utf8 s \<Longrightarrow> unquote (quote s) = s"
  by (induction rule: valid_utf8_induct)
    (simp_all add: quote_ascii_Cons quote_rune_append unquote_quote_ascii unquote_quote_rune)

section \<open>Well-formed literals\<close>

lemma wf_str_Nil [simp]: "wf_str []"
  by (simp add: wf_str_def)

lemma wf_str_item:
  assumes "\<And>t. scan_item (i @ t) = Some (i, t)"
  shows "wf_str (i @ r) = wf_str r"
  unfolding wf_str_def using scan_string_item [OF assms, of "r @ [quote_char]"]
  by (auto split: prod.splits)

definition plain :: "char \<Rightarrow> bool" where
  "plain c \<longleftrightarrow> c \<noteq> backslash \<and> c \<noteq> quote_char \<and> 32 \<le> byte c"

lemma wf_str_plain: "plain c \<Longrightarrow> wf_str (c # r) = wf_str r"
  using wf_str_item [of "[c]" r] by (simp add: plain_def scan_item_plain)

lemma wf_str_plains: "list_all plain u \<Longrightarrow> wf_str (u @ r) = wf_str r"
  by (induction u) (auto simp: wf_str_plain)

lemma wf_str_escape: "is_escape e \<Longrightarrow> wf_str (backslash # e # r) = wf_str r"
  using wf_str_item [of "[backslash, e]" r] by (simp add: scan_item_escape)

lemma wf_str_unicode:
  "length h = 4 \<Longrightarrow> list_all is_hex h \<Longrightarrow> wf_str (backslash # CHR ''u'' # h @ r) = wf_str r"
  using wf_str_item [of "backslash # CHR ''u'' # h" r] by (simp add: scan_item_unicode)

lemma wf_str_u_escape: "n < 65536 \<Longrightarrow> wf_str (u_escape n @ r) = wf_str r"
  using wf_str_unicode [of "drop 2 (u_escape n)" r] by (simp add: u_escape_def is_hex_hex_digit)

lemma wf_str_cases:
  assumes "wf_str r"
  obtains (Nil) "r = []"
  | (plain) c t where "r = c # t" "plain c" "wf_str t"
  | (escape) e t where "r = backslash # e # t" "is_escape e" "wf_str t"
  | (unicode) h t where "r = backslash # CHR ''u'' # h @ t" "length h = 4" "list_all is_hex h" "wf_str t"
proof -
  from assms have "scan_string (r @ [quote_char]) = Some (r, [])" by (simp add: wf_str_def)
  then show ?thesis
  proof (cases rule: scan_string_cases)
    case quote
    with Nil show ?thesis by simp
  next
    case (item i u r')
    from item(2) have wf: "wf_str r'" by (rule scan_string_wf)
    from item(1) show ?thesis
      using item(3) wf plain escape unicode by (cases rule: scan_item_cases) (auto simp: plain_def)
  qed
qed

lemma plain_high: "\<not> byte c < 128 \<Longrightarrow> plain c"
  by (auto simp: plain_def)

lemma is_rune_high: "is_rune u \<Longrightarrow> \<not> byte (hd u) < 128 \<Longrightarrow> list_all (\<lambda>c. \<not> byte c < 128) u"
  by (cases u) (auto simp: is_rune_def utf8_len.simps is_cont_def second3_def second4_def
      split: list.splits if_splits)

lemma is_rune_plain: "is_rune u \<Longrightarrow> \<not> byte (hd u) < 128 \<Longrightarrow> list_all plain u"
  by (rule list.pred_mono_strong [OF is_rune_high]) (auto intro: plain_high)

lemma wf_str_quote_ascii: "byte c < 128 \<Longrightarrow> wf_str (quote_ascii c @ r) = wf_str r"
proof -
  assume c: "byte c < 128"
  have "is_escape quote_char" "is_escape backslash" "is_escape (CHR ''b'')" "is_escape (CHR ''f'')"
    "is_escape (CHR ''n'')" "is_escape (CHR ''r'')" "is_escape (CHR ''t'')"
    by (simp_all add: is_escape_def)
  with c show ?thesis
    by (simp add: quote_ascii_def wf_str_escape wf_str_u_escape) (auto simp: wf_str_plain plain_def)
qed

lemma wf_str_quote_rune: "is_rune u \<Longrightarrow> \<not> byte (hd u) < 128 \<Longrightarrow> wf_str (quote_rune u @ r) = wf_str r"
  by (simp add: quote_rune_def wf_str_u_escape wf_str_plains is_rune_plain)

theorem wf_str_quote: "wf_str (quote s)"
proof (induction s rule: quote.induct)
  case (1 s)
  show ?case
  proof (cases s)
    case (Cons c t)
    show ?thesis
    proof (cases "utf8_len s")
      case None
      with Cons 1 show ?thesis by (subst quote.simps) (auto simp: wf_str_u_escape)
    next
      case (Some n)
      have "hd (take n s) = c" using utf8_len_bounds [OF Some] Cons by (cases n) auto
      with Some Cons 1 is_rune_take [OF Some] show ?thesis
        by (subst quote.simps) (auto simp: wf_str_quote_ascii wf_str_quote_rune)
    qed
  qed simp
qed

section \<open>HTML escaping keeps the meaning\<close>

lemma html_escape_Nil [simp]: "html_escape [] = []"
  by (simp add: html_escape.simps)

lemma html_escape_html: "html_char c \<Longrightarrow> html_escape (c # t) = u_escape (byte c) @ html_escape t"
  by (simp add: html_escape.simps [of "c # t"])

lemma html_escape_sep:
  "html_escape (line_sep @ t) = u_escape 0x2028 @ html_escape t"
  "html_escape (para_sep @ t) = u_escape 0x2029 @ html_escape t"
  by (simp_all add: html_escape.simps [of "_ # _"] html_char_def)

definition starts_sep :: "bytes \<Rightarrow> bool" where
  "starts_sep s \<longleftrightarrow> take 3 s = line_sep \<or> take 3 s = para_sep"

lemma html_escape_copy: "\<not> html_char c \<Longrightarrow> \<not> starts_sep (c # t) \<Longrightarrow> html_escape (c # t) = c # html_escape t"
  by (auto simp: html_escape.simps [of "c # t"] starts_sep_def)

lemma not_html_literal [simp]: "\<not> html_char backslash" "\<not> html_char (CHR ''u'')"
  by (simp_all add: html_char_def)

lemma html_escape_other: "\<not> html_char c \<Longrightarrow> c \<noteq> CHR 0xE2 \<Longrightarrow> html_escape (c # t) = c # html_escape t"
  by (rule html_escape_copy) (auto simp: starts_sep_def)

lemma html_escape_others:
  "list_all (\<lambda>c. \<not> html_char c \<and> c \<noteq> CHR 0xE2) u \<Longrightarrow> html_escape (u @ t) = u @ html_escape t"
  by (induction u) (auto simp: html_escape_other)

lemma not_html_hex: "is_hex c \<Longrightarrow> \<not> html_char c \<and> c \<noteq> CHR 0xE2"
  by (auto simp: html_char_def is_hex_def is_digit_def)

lemma not_html_escape_char: "is_escape e \<Longrightarrow> \<not> html_char e \<and> e \<noteq> CHR 0xE2"
  unfolding is_escape_def by (simp, elim disjE) (simp_all add: html_char_def)

lemma html_escape_escape: "is_escape e \<Longrightarrow> html_escape (backslash # e # t) = backslash # e # html_escape t"
  using html_escape_others [of "[backslash, e]" t] by (simp add: not_html_escape_char)

lemma html_escape_unicode:
  "list_all is_hex h \<Longrightarrow> html_escape (backslash # CHR ''u'' # h @ t) = backslash # CHR ''u'' # h @ html_escape t"
  using html_escape_others [of "backslash # CHR ''u'' # h" t]
  by (simp add: list_all_iff not_html_hex)

lemma html_char_ascii: "html_char c \<Longrightarrow> byte c < 128 \<and> 32 \<le> byte c \<and> c \<noteq> backslash"
  by (auto simp: html_char_def)

lemma html_escape_rune:
  assumes "is_rune u" "\<not> byte (hd u) < 128" "u \<noteq> line_sep" "u \<noteq> para_sep"
  shows "html_escape (u @ t) = u @ html_escape t"
proof -
  from assms(1) obtain c v where u: "u = c # v" by (cases u) (auto simp: is_rune_def)
  have high: "\<not> byte c < 128" "list_all (\<lambda>c. \<not> byte c < 128) v" using is_rune_high [OF assms(1,2)] u by auto
  have v: "list_all (\<lambda>c. is_cont (byte c)) v"
    using assms(1) u high(1) by (auto simp: is_rune_def utf8_len.simps second3_def second4_def
        split: list.splits if_splits)
  have "\<not> starts_sep (u @ t)"
  proof
    assume "starts_sep (u @ t)"
    then have "take 3 (u @ t) = line_sep \<or> take 3 (u @ t) = para_sep" by (simp add: starts_sep_def)
    then obtain b w where ut: "u @ t = CHR 0xE2 # CHR 0x80 # b # w" "b = CHR 0xA8 \<or> b = CHR 0xA9"
      by (cases "u @ t"; cases "tl (u @ t)"; cases "tl (tl (u @ t))") auto
    then have "utf8_len (u @ t) = Some 3" by (auto simp: utf8_len.simps second3_def is_cont_def)
    moreover have "utf8_len (u @ t) = Some (length u)"
      using assms(1) utf8_len_append by (simp add: is_rune_def)
    ultimately have "length u = 3" by simp
    then have "u = take 3 (u @ t)" by simp
    with ut assms(3,4) show False by auto
  qed
  moreover have "\<not> html_char c" using high(1) html_char_ascii by auto
  moreover have "list_all (\<lambda>c. \<not> html_char c \<and> c \<noteq> CHR 0xE2) v"
    using v by (rule list.pred_mono_strong) (auto simp: is_cont_def html_char_def)
  ultimately show ?thesis using u by (simp add: html_escape_copy html_escape_others)
qed

lemma utf8_len_conts:
  assumes "\<not> byte c < 128"
  shows "utf8_len (c # t) = utf8_len (c # takeWhile (\<lambda>x. is_cont (byte x)) t)"
proof -
  have *: "second3 a b \<Longrightarrow> is_cont b" "second4 a b \<Longrightarrow> is_cont b" for a b
    by (simp_all add: second3_def second4_def)
  show ?thesis
  proof (cases t)
    case (Cons b t1)
    then show ?thesis using assms *
      by (cases t1; cases "tl t1") (auto simp: utf8_len.simps)
  qed simp
qed

lemma takeWhile_cont_html:
  "takeWhile (\<lambda>x. is_cont (byte x)) (html_escape t) = takeWhile (\<lambda>x. is_cont (byte x)) t"
proof (induction t)
  case (Cons c t)
  have not_cont: "\<not> is_cont (byte backslash)" "\<not> is_cont (byte (CHR 0xE2))" by (simp_all add: is_cont_def)
  show ?case
  proof (cases "html_char c \<or> starts_sep (c # t)")
    case True
    then have "\<not> is_cont (byte c)" "\<exists>u. html_escape (c # t) = backslash # u"
      by (auto simp: html_escape.simps [of "c # t"] u_escape_def starts_sep_def is_cont_def dest: html_char_ascii)
    with not_cont show ?thesis by auto
  next
    case False
    with Cons show ?thesis by (simp add: html_escape_copy)
  qed
qed simp

lemma utf8_len_html: "\<not> byte c < 128 \<Longrightarrow> utf8_len (c # html_escape t) = utf8_len (c # t)"
  using utf8_len_conts [of c t] utf8_len_conts [of c "html_escape t"] by (simp add: takeWhile_cont_html)

text \<open>The pieces in which unquoting and HTML escaping both read a well-formed literal.\<close>

lemma wf_str_pieces [consumes 1, case_names Nil html sep ascii rune invalid escape unicode pair]:
  assumes "wf_str r"
    and "P []"
    and "\<And>c t. \<lbrakk>html_char c; wf_str t; P t\<rbrakk> \<Longrightarrow> P (c # t)"
    and "\<And>u t. \<lbrakk>u = line_sep \<or> u = para_sep; wf_str t; P t\<rbrakk> \<Longrightarrow> P (u @ t)"
    and "\<And>c t. \<lbrakk>plain c; byte c < 128; \<not> html_char c; wf_str t; P t\<rbrakk> \<Longrightarrow> P (c # t)"
    and "\<And>u t. \<lbrakk>is_rune u; \<not> byte (hd u) < 128; u \<noteq> line_sep; u \<noteq> para_sep; wf_str t; P t\<rbrakk> \<Longrightarrow> P (u @ t)"
    and "\<And>c t. \<lbrakk>\<not> byte c < 128; utf8_len (c # t) = None; wf_str t; P t\<rbrakk> \<Longrightarrow> P (c # t)"
    and "\<And>e t. \<lbrakk>is_escape e; wf_str t; P t\<rbrakk> \<Longrightarrow> P (backslash # e # t)"
    and "\<And>h t. \<lbrakk>length h = 4; list_all is_hex h; \<not> is_surrogate (hex4 h) \<or> surrogate_pair (hex4 h) t = None;
        wf_str t; P t\<rbrakk> \<Longrightarrow> P (backslash # CHR ''u'' # h @ t)"
    and "\<And>h k t. \<lbrakk>length h = 4; list_all is_hex h; length k = 4; list_all is_hex k; is_surrogate (hex4 h);
        surrogate_pair (hex4 h) (backslash # CHR ''u'' # k) \<noteq> None; wf_str t; P t\<rbrakk>
        \<Longrightarrow> P (backslash # CHR ''u'' # h @ backslash # CHR ''u'' # k @ t)"
  shows "P r"
  using assms(1)
proof (induction r rule: measure_induct_rule [where f = length])
  case (less r)
  from less.prems show ?case
  proof (cases rule: wf_str_cases)
    case Nil
    then show ?thesis using assms(2) by simp
  next
    case (plain c t)
    then have Pt: "P t" using less.IH by simp
    show ?thesis
    proof (cases "byte c < 128")
      case True
      with plain Pt show ?thesis using assms(3,5) by (cases "html_char c") auto
    next
      case high: False
      show ?thesis
      proof (cases "utf8_len r")
        case None
        with plain high Pt show ?thesis using assms(7) by auto
      next
        case (Some n)
        let ?u = "take n r" and ?t = "drop n r"
        have u: "is_rune ?u" "\<not> byte (hd ?u) < 128"
          using is_rune_take [OF Some] utf8_len_bounds [OF Some] plain high by (cases n; simp)+
        have wf: "wf_str ?t" using wf_str_plains [OF is_rune_plain [OF u], of ?t] less.prems by simp
        have "P ?t" using wf utf8_len_bounds [OF Some] by (intro less.IH) auto
        then show ?thesis using assms(4) [of ?u ?t] assms(6) [of ?u ?t] u wf by auto
      qed
    qed
  next
    case (escape e t)
    then show ?thesis using assms(8) less.IH by simp
  next
    case (unicode h t)
    show ?thesis
    proof (cases "\<not> is_surrogate (hex4 h) \<or> surrogate_pair (hex4 h) t = None")
      case True
      with unicode show ?thesis using assms(9) less.IH by simp
    next
      case False
      then have t: "take 2 t = [backslash, CHR ''u'']" "6 \<le> length t" "list_all is_hex (take 4 (drop 2 t))"
        by (auto simp: surrogate_pair_def split: if_splits)
      let ?k = "take 4 (drop 2 t)" and ?t = "drop 6 t"
      have split: "t = backslash # CHR ''u'' # ?k @ ?t"
        using t(1) append_take_drop_id [of 2 t] append_take_drop_id [of 4 "drop 2 t"] by simp
      have wf: "wf_str ?t" using unicode(4) wf_str_unicode [of ?k ?t] t split by simp
      have "P ?t" using wf unicode(1) t by (intro less.IH) auto
      moreover have "surrogate_pair (hex4 h) (backslash # CHR ''u'' # ?k) \<noteq> None"
        using False t by (auto simp: surrogate_pair_def hex4_def split: if_splits)
      ultimately show ?thesis
        using False unicode t wf split assms(10) [of h ?k ?t] by simp
    qed
  qed
qed

lemma wf_str_html_escape: "wf_str r \<Longrightarrow> wf_str (html_escape r)"
proof (induction rule: wf_str_pieces)
  case (html c t)
  then show ?case using html_char_ascii [of c] by (simp add: html_escape_html wf_str_u_escape)
next
  case (sep u t)
  then show ?case using html_escape_sep [of t] by (auto simp: wf_str_u_escape)
next
  case (ascii c t)
  then have "c \<noteq> CHR 0xE2" by auto
  with ascii show ?case by (simp add: html_escape_other wf_str_plain)
next
  case (rune u t)
  then show ?case by (simp add: html_escape_rune wf_str_plains is_rune_plain)
next
  case (invalid c t)
  show ?case
  proof (cases "starts_sep (c # t)")
    case True
    then have "utf8_len (c # t) = Some 3"
      by (cases t; cases "tl t") (auto simp: starts_sep_def utf8_len.simps second3_def is_cont_def)
    with invalid show ?thesis by simp
  next
    case False
    have "\<not> html_char c" using invalid html_char_ascii by auto
    with invalid False show ?thesis by (simp add: html_escape_copy wf_str_plain plain_high)
  qed
qed (simp_all add: html_escape_escape html_escape_unicode wf_str_escape wf_str_unicode)

lemma unquote_surrogate:
  assumes "length h = 4" "is_surrogate (hex4 h)"
  shows "unquote (backslash # CHR ''u'' # h @ t) = (case surrogate_pair (hex4 h) t of
      Some r \<Rightarrow> encode_rune r @ unquote (drop 6 t) | None \<Rightarrow> replacement @ unquote t)"
proof -
  have "hex4 (h @ t) = hex4 h" "drop 10 (h @ t) = drop 6 t" using assms(1) by (simp_all add: hex4_def)
  with assms show ?thesis
    by (subst unquote.simps) (simp split: option.split)
qed

lemma surrogate_pair_append:
  "length k = 4 \<Longrightarrow> surrogate_pair hi (backslash # CHR ''u'' # k @ t) = surrogate_pair hi (backslash # CHR ''u'' # k)"
  by (simp add: surrogate_pair_def hex4_def)

lemma surrogate_pair_u_escape: "n < 0xD800 \<Longrightarrow> surrogate_pair hi (u_escape n @ t) = None"
  using hex4_hex_digits [of n] by (simp add: surrogate_pair_def u_escape_def hex4_def)

lemma surrogate_pair_start: "surrogate_pair hi v \<noteq> None \<Longrightarrow> \<exists>w. v = backslash # CHR ''u'' # w"
  by (cases v; cases "tl v") (auto simp: surrogate_pair_def split: if_splits)

lemma html_escape_u_escape:
  assumes "html_char c \<or> starts_sep (c # u)"
  obtains n v where "n < 0xD800" "html_escape (c # u) = u_escape n @ v"
proof (cases "html_char c")
  case True
  then show ?thesis using that [of "byte c"] html_char_ascii [of c] by (simp add: html_escape_html)
next
  case False
  with assms have "take 3 (c # u) = line_sep \<or> take 3 (c # u) = para_sep" by (simp add: starts_sep_def)
  then obtain v where "c # u = line_sep @ v \<or> c # u = para_sep @ v" by (metis append_take_drop_id)
  then show ?thesis using that [of "0x2028"] that [of "0x2029"] html_escape_sep [of v] by auto
qed

lemma surrogate_pair_html:
  assumes "wf_str t" "surrogate_pair hi t = None"
  shows "surrogate_pair hi (html_escape t) = None"
proof (rule ccontr)
  assume *: "surrogate_pair hi (html_escape t) \<noteq> None"
  then obtain w where w: "html_escape t = backslash # CHR ''u'' # w" using surrogate_pair_start by blast
  from assms(1) show False
  proof (cases rule: wf_str_cases)
    case (plain c u)
    show False
    proof (cases "html_char c \<or> starts_sep t")
      case True
      then obtain n v where "n < 0xD800" "html_escape t = u_escape n @ v"
        using plain(1) html_escape_u_escape by metis
      with * surrogate_pair_u_escape show False by auto
    next
      case False
      with plain w show False by (simp add: html_escape_copy plain_def)
    qed
  next
    case (escape e u)
    with w show False by (auto simp: html_escape_escape)
  next
    case (unicode h u)
    with * assms(2) surrogate_pair_append [of h hi] show False by (simp add: html_escape_unicode)
  qed (use w in simp)
qed

theorem unquote_html_escape: "wf_str r \<Longrightarrow> unquote (html_escape r) = unquote r"
proof (induction rule: wf_str_pieces)
  case (html c t)
  then show ?case using html_char_ascii [of c]
    by (simp add: html_escape_html unquote_u_escape is_surrogate_def encode_rune_byte unquote_plain)
next
  case (sep u t)
  have "is_rune line_sep" "is_rune para_sep" by (simp_all add: is_rune_def utf8_len.simps second3_def is_cont_def)
  then have "unquote (u @ t) = u @ unquote t" using sep by (intro unquote_multibyte) auto
  moreover have "encode_rune 0x2028 = line_sep" "encode_rune 0x2029 = para_sep"
    by (simp_all add: encode_rune_def is_surrogate_def char_of_byte)
  ultimately show ?case using sep html_escape_sep [of t] by (auto simp: unquote_u_escape is_surrogate_def)
next
  case (ascii c t)
  then have "c \<noteq> CHR 0xE2" by auto
  with ascii show ?case by (simp add: html_escape_other unquote_plain plain_def)
next
  case (rune u t)
  then show ?case by (simp add: html_escape_rune unquote_multibyte)
next
  case (invalid c t)
  have "\<not> starts_sep (c # t)"
    using invalid(2) by (cases t; cases "tl t") (auto simp: starts_sep_def utf8_len.simps second3_def is_cont_def)
  moreover have "\<not> html_char c" using invalid html_char_ascii by auto
  ultimately show ?case using invalid by (simp add: html_escape_copy unquote_invalid utf8_len_html)
next
  case (unicode h t)
  then show ?case
    by (cases "is_surrogate (hex4 h)")
      (auto simp: html_escape_unicode unquote_unicode unquote_surrogate surrogate_pair_html)
next
  case (pair h k t)
  then show ?case
    by (auto simp: html_escape_unicode unquote_surrogate surrogate_pair_append)
qed (simp_all add: html_escape_escape unquote_escape)

lemma wf_json_html: "wf_json j \<Longrightarrow> wf_json (json_html j)"
  by (induction j rule: json_html.induct) (auto simp: list_all_iff wf_str_html_escape)

lemma json_depth_html: "json_depth (json_html j) = json_depth j"
proof (induction j rule: json_html.induct)
  case (2 vs)
  then have "map (json_depth \<circ> json_html) vs = map json_depth vs" by simp
  then show ?case by (simp del: map_eq_conv)
next
  case (3 kvs)
  then have "map (\<lambda>(k, v). json_depth v) (map (\<lambda>(k, v). (html_escape k, json_html v)) kvs)
      = map (\<lambda>(k, v). json_depth v) kvs" by auto
  then show ?case by (simp only: json_html.simps json_depth.simps)
qed simp_all

end
