(* ===== verification/JsonCodec.thy ===== *)
theory JsonCodec
  imports JsonString "HOL-Library.List_Lexorder"
begin

text \<open>
  How \<^verbatim>\<open>encoding/json\<close> moves JSON objects into and out of Go values: decoding into a struct
  (exact then case-insensitive field names, \<^verbatim>\<open>null\<close> as a no-op, type errors remembered while
  decoding goes on), decoding into and encoding a \<^verbatim>\<open>map[string]json.RawMessage\<close> (later keys
  win, keys are written in byte order), and encoding strings and integers.
\<close>

section \<open>Field names\<close>

text \<open>
  \<^verbatim>\<open>foldName\<close>: ASCII letters in upper case, and the two non-ASCII runes that fold to an ASCII
  letter, U+017F to S and U+212A to K. No other rune folds into ASCII, so this decides equality
  with an ASCII field name.
\<close>

fun fold_name :: "bytes \<Rightarrow> bytes" where
  "fold_name (a # b # c # s) =
     (if a = CHR 0xC5 \<and> b = CHR 0xBF then CHR ''S'' # fold_name (c # s)
      else if a = CHR 0xE2 \<and> b = CHR 0x84 \<and> c = CHR 0xAA then CHR ''K'' # fold_name s
      else to_upper a # fold_name (b # c # s))"
| "fold_name [a, b] =
     (if a = CHR 0xC5 \<and> b = CHR 0xBF then ''S'' else [to_upper a, to_upper b])"
| "fold_name [a] = [to_upper a]"
| "fold_name [] = []"

definition match_field :: "bytes list \<Rightarrow> bytes \<Rightarrow> bytes option" where
  "match_field names key =
     (if key \<in> set names then Some key
      else find (\<lambda>f. fold_name f = fold_name key) names)"

section \<open>Decoding into a struct\<close>

text \<open>
  A setter stores one JSON value into one field; its flag reports a type error. The flag does
  not stop the loop, it only makes the whole \<^verbatim>\<open>Unmarshal\<close> fail at the end.
\<close>

fun decode_fields :: "bytes list \<Rightarrow> (bytes \<Rightarrow> json \<Rightarrow> 'a \<Rightarrow> 'a \<times> bool) \<Rightarrow>
    (bytes \<times> json) list \<Rightarrow> 'a \<Rightarrow> 'a \<times> bool" where
  "decode_fields names set_field [] x = (x, False)"
| "decode_fields names set_field ((k, v) # kvs) x =
     (case match_field names (unquote k) of
        None \<Rightarrow> decode_fields names set_field kvs x
      | Some f \<Rightarrow>
          (let r = set_field f v x; r' = decode_fields names set_field kvs (fst r)
           in (fst r', snd r \<or> snd r')))"

definition decode_string :: "json \<Rightarrow> bytes \<Rightarrow> bytes \<times> bool" where
  "decode_string v old = (case v of JStr r \<Rightarrow> (unquote r, False) | JNull \<Rightarrow> (old, False) | _ \<Rightarrow> (old, True))"

definition decode_bool :: "json \<Rightarrow> bool \<Rightarrow> bool \<times> bool" where
  "decode_bool v old = (case v of JTrue \<Rightarrow> (True, False) | JFalse \<Rightarrow> (False, False)
     | JNull \<Rightarrow> (old, False) | _ \<Rightarrow> (old, True))"

text \<open>\<^verbatim>\<open>strconv.ParseInt(s, 10, 64)\<close> on a JSON number literal.\<close>

definition digits_value :: "bytes \<Rightarrow> nat" where
  "digits_value s = foldl (\<lambda>a c. 10 * a + (byte c - 48)) 0 s"

definition parse_int64 :: "bytes \<Rightarrow> int option" where
  "parse_int64 s =
     (let (m, d) = scan_minus s; n = int (digits_value d); i = (if m = [] then n else - n)
      in if list_all is_digit d \<and> - (2 ^ 63) \<le> i \<and> i < 2 ^ 63 then Some i else None)"

definition decode_int :: "json \<Rightarrow> int \<Rightarrow> int \<times> bool" where
  "decode_int v old = (case v of
     JNum r \<Rightarrow> (case parse_int64 r of Some i \<Rightarrow> (i, False) | None \<Rightarrow> (old, True))
   | JNull \<Rightarrow> (old, False)
   | _ \<Rightarrow> (old, True))"

text \<open>A \<^verbatim>\<open>json.RawMessage\<close> takes any value, \<^verbatim>\<open>null\<close> included.\<close>

definition decode_raw :: "json \<Rightarrow> json option \<Rightarrow> json option \<times> bool" where
  "decode_raw v old = (Some v, False)"

datatype json_error = SyntaxError | TypeError

definition unmarshal_struct :: "bytes list \<Rightarrow> (bytes \<Rightarrow> json \<Rightarrow> 'a \<Rightarrow> 'a \<times> bool) \<Rightarrow> json \<Rightarrow> 'a \<Rightarrow> 'a \<times> bool" where
  "unmarshal_struct names set_field j x = (case j of
     JNull \<Rightarrow> (x, False)
   | JObj kvs \<Rightarrow> decode_fields names set_field kvs x
   | _ \<Rightarrow> (x, True))"

definition Unmarshal :: "bytes list \<Rightarrow> (bytes \<Rightarrow> json \<Rightarrow> 'a \<Rightarrow> 'a \<times> bool) \<Rightarrow> bytes \<Rightarrow> 'a \<Rightarrow> json_error + 'a" where
  "Unmarshal names set_field b x = (case json_parse b of
     None \<Rightarrow> Inl SyntaxError
   | Some j \<Rightarrow> (let (y, e) = unmarshal_struct names set_field j x in if e then Inl TypeError else Inr y))"

section \<open>Maps\<close>

text \<open>
  A Go map with string keys whose contents are only read in key order: an association list
  kept sorted by key, one entry per key.
\<close>

type_synonym 'v smap = "(bytes \<times> 'v) list"

fun smap_put :: "bytes \<Rightarrow> 'v \<Rightarrow> 'v smap \<Rightarrow> 'v smap" where
  "smap_put k v [] = [(k, v)]"
| "smap_put k v ((k', v') # m) =
     (if k < k' then (k, v) # (k', v') # m
      else if k = k' then (k, v) # m
      else (k', v') # smap_put k v m)"

definition unmarshal_map :: "(bytes \<times> json) list \<Rightarrow> json smap" where
  "unmarshal_map kvs = fold (\<lambda>(k, v). smap_put (unquote k) v) kvs []"

definition marshal_map :: "json smap \<Rightarrow> json" where
  "marshal_map m = JObj (map (\<lambda>(k, v). (quote k, json_html v)) m)"

section \<open>Encoding\<close>

definition encode_string :: "bytes \<Rightarrow> json" where
  "encode_string s = JStr (quote s)"

fun show_nat :: "nat \<Rightarrow> bytes" where
  "show_nat n = (if n < 10 then [char_of (48 + n)] else show_nat (n div 10) @ [char_of (48 + n mod 10)])"

declare show_nat.simps [simp del]

definition show_int :: "int \<Rightarrow> bytes" where
  "show_int i = (if i < 0 then CHR ''-'' # show_nat (nat (- i)) else show_nat (nat i))"

definition encode_bool :: "bool \<Rightarrow> json" where
  "encode_bool b = (if b then JTrue else JFalse)"

text \<open>A struct field as the encoder writes it: its name, and the value unless \<^verbatim>\<open>omitempty\<close> drops it.\<close>

definition field_if :: "bool \<Rightarrow> bytes \<Rightarrow> json \<Rightarrow> (bytes \<times> json) list" where
  "field_if b name v = (if b then [(name, v)] else [])"

section \<open>Facts: decoding\<close>

text \<open>The values an object holds for one field, in order.\<close>

definition field_values :: "bytes list \<Rightarrow> bytes \<Rightarrow> (bytes \<times> json) list \<Rightarrow> json list" where
  "field_values names f kvs = map snd (filter (\<lambda>(k, v). match_field names (unquote k) = Some f) kvs)"

lemma field_values_Nil [simp]: "field_values names f [] = []"
  by (simp add: field_values_def)

lemma field_values_Cons [simp]: "field_values names f ((k, v) # kvs) =
    (if match_field names (unquote k) = Some f then v # field_values names f kvs else field_values names f kvs)"
  by (simp add: field_values_def)

text \<open>
  A field whose setter acts on it alone receives the object's values for it one after another,
  and nothing else.
\<close>

lemma decode_fields_get:
  assumes "\<And>f' v x. get (fst (set_field f' v x)) = (if f' = f then dec v (get x) else get x)"
  shows "get (fst (decode_fields names set_field kvs x)) = foldl (\<lambda>y v. dec v y) (get x) (field_values names f kvs)"
proof (induction kvs arbitrary: x)
  case (Cons kv kvs)
  obtain k v where kv: "kv = (k, v)" by (cases kv)
  show ?case
  proof (cases "match_field names (unquote k)")
    case None
    with kv Cons show ?thesis by simp
  next
    case (Some f')
    with kv Cons [of "fst (set_field f' v x)"] show ?thesis by (simp add: assms Let_def)
  qed
qed simp

text \<open>Whether decoding fails depends on the values only, not on the order.\<close>

lemma decode_fields_error:
  assumes "\<And>f v x. snd (set_field f v x) = err f v"
  shows "snd (decode_fields names set_field kvs x) \<longleftrightarrow>
    (\<exists>(k, v) \<in> set kvs. \<exists>f. match_field names (unquote k) = Some f \<and> err f v)"
proof (induction kvs arbitrary: x)
  case (Cons kv kvs)
  obtain k v where kv: "kv = (k, v)" by (cases kv)
  show ?case
  proof (cases "match_field names (unquote k)")
    case None
    with kv Cons show ?thesis by simp
  next
    case (Some f')
    with kv Cons [of "fst (set_field f' v x)"] assms [of f' v x] show ?thesis by (auto simp: Let_def)
  qed
qed simp

section \<open>Facts: sorted maps\<close>

lemma map_of_smap_put: "map_of (smap_put k v m) = (map_of m)(k \<mapsto> v)"
  by (induction m) auto

lemma keys_smap_put: "fst ` set (smap_put k v m) = insert k (fst ` set m)"
  using arg_cong [OF map_of_smap_put [of k v m], of dom] by (simp add: dom_map_of_conv_image_fst)

lemma sorted_smap_put: "sorted_wrt (<) (map fst m) \<Longrightarrow> sorted_wrt (<) (map fst (smap_put k v m))"
proof (induction m)
  case (Cons kv m)
  obtain k' v' where kv: "kv = (k', v')" by (cases kv)
  from Cons have IH: "sorted_wrt (<) (map fst (smap_put k v m))" by simp
  have "\<forall>x \<in> set (map fst (smap_put k v m)). k' < x" if "k' < k"
    using Cons.prems that kv keys_smap_put [of k v m] by auto
  with Cons.prems kv IH show ?case by auto
qed simp

lemma sorted_unmarshal_map: "sorted_wrt (<) (map fst (unmarshal_map kvs))"
proof -
  have "sorted_wrt (<) (map fst (fold (\<lambda>(k, v). smap_put (unquote k) v) kvs m))"
    if "sorted_wrt (<) (map fst m)" for m :: "json smap"
    using that by (induction kvs arbitrary: m) (auto simp: sorted_smap_put)
  then show ?thesis by (simp add: unmarshal_map_def)
qed

lemma distinct_smap: "sorted_wrt (<) (map fst m) \<Longrightarrow> distinct (map fst (m :: 'v smap))"
  by (simp add: strict_sorted_iff)

lemma map_of_unmarshal_map:
  "map_of (unmarshal_map kvs) = map_of (rev (map (\<lambda>(k, v). (unquote k, v)) kvs))"
proof -
  have "map_of (fold (\<lambda>(k, v). smap_put (unquote k) v) kvs m) =
      map_of m ++ map_of (rev (map (\<lambda>(k, v). (unquote k, v)) kvs))" for m :: "json smap"
    by (induction kvs arbitrary: m) (auto simp: map_of_smap_put)
  from this [of "[]"] show ?thesis by (simp add: unmarshal_map_def)
qed

lemma unmarshal_map_origin:
  assumes "(k, v) \<in> set (unmarshal_map kvs)"
  obtains rk where "(rk, v) \<in> set kvs" "unquote rk = k"
proof -
  have "map_of (unmarshal_map kvs) k = Some v"
    using assms distinct_smap [OF sorted_unmarshal_map] by simp
  then have "(k, v) \<in> set (rev (map (\<lambda>(k, v). (unquote k, v)) kvs))"
    unfolding map_of_unmarshal_map by (rule map_of_SomeD)
  then show ?thesis using that by auto
qed

lemma filter_smap_put:
  "\<not> Q k \<Longrightarrow> filter (\<lambda>(k, v). Q k) (smap_put k v m) = filter (\<lambda>(k, v). Q k) m"
  by (induction m) auto

lemma filter_sorted_last:
  fixes m :: "'v smap"
  assumes "sorted_wrt (<) (map fst m)" "(k, v) \<in> set m" "Q k" "\<And>k'. Q k' \<Longrightarrow> k' \<le> k"
  shows "\<exists>ys. filter (\<lambda>(k, v). Q k) m = ys @ [(k, v)]"
proof -
  from assms(2) obtain xs zs where m: "m = xs @ (k, v) # zs" by (auto simp: in_set_conv_decomp)
  have "\<forall>x \<in> set zs. k < fst x" using assms(1) m by (auto simp: sorted_wrt_append)
  then have "filter (\<lambda>(k, v). Q k) zs = []"
  proof (intro filter_False ballI)
    fix x
    assume "\<forall>x \<in> set zs. k < fst x" "x \<in> set zs"
    then have "\<not> fst x \<le> k" by (simp add: not_le)
    then show "\<not> (case x of (k, v) \<Rightarrow> Q k)" using assms(4) [of "fst x"] by (cases x) auto
  qed
  with m assms(3) show ?thesis by simp
qed

lemma field_values_marshal:
  assumes "list_all (\<lambda>(k, v). valid_utf8 k) m"
  shows "field_values names f (map (\<lambda>(k, v). (quote k, json_html v)) m) =
    map (\<lambda>(k, v). json_html v) (filter (\<lambda>(k, v). match_field names k = Some f) m)"
  using assms by (induction m) (auto simp: unquote_quote)

lemma unmarshal_map_unique:
  assumes "length (field_values names f kvs) \<le> 1"
  shows "map snd (filter (\<lambda>(k, v). match_field names k = Some f) (unmarshal_map kvs)) = field_values names f kvs"
proof (cases "filter (\<lambda>(k, v). match_field names (unquote k) = Some f) kvs")
  case Nil
  then have "filter (\<lambda>(k, v). match_field names k = Some f) (unmarshal_map kvs) = []"
    by (fastforce simp: filter_empty_conv elim: unmarshal_map_origin)
  with Nil show ?thesis by (simp add: field_values_def)
next
  case (Cons kv rest)
  obtain rk v where kv: "kv = (rk, v)" by (cases kv)
  let ?Q = "\<lambda>k. match_field names k = Some f" and ?k = "unquote rk"
  from Cons assms kv have flt: "filter (\<lambda>(k, v). ?Q (unquote k)) kvs = [(rk, v)]"
    by (simp add: field_values_def)
  then have only: "(rk', v') = (rk, v)" if "(rk', v') \<in> set kvs" "?Q (unquote rk')" for rk' v'
  proof -
    have "(rk', v') \<in> set (filter (\<lambda>(k, v). ?Q (unquote k)) kvs)" using that by simp
    then show ?thesis by (simp only: flt) simp
  qed
  have Q: "?Q ?k" and mem: "(rk, v) \<in> set kvs"
    using arg_cong [OF flt, of set] by auto
  have "?k \<in> fst ` set (rev (map (\<lambda>(k, v). (unquote k, v)) kvs))" using mem by force
  then have "map_of (unmarshal_map kvs) ?k \<noteq> None"
    unfolding map_of_unmarshal_map by (simp only: map_of_eq_None_iff not_not)
  then obtain v' where v': "map_of (unmarshal_map kvs) ?k = Some v'" by blast
  then have in_m: "(?k, v') \<in> set (unmarshal_map kvs)" by (rule map_of_SomeD)
  then obtain rk' where "(rk', v') \<in> set kvs" "unquote rk' = ?k" by (rule unmarshal_map_origin)
  then have "v' = v" using only [of rk' v'] Q by simp
  have "filter (\<lambda>(k, v). ?Q k) (unmarshal_map kvs) = [(?k, v)]"
  proof -
    have all: "x = (?k, v)" if "x \<in> set (filter (\<lambda>(k, v). ?Q k) (unmarshal_map kvs))" for x
    proof -
      obtain k w where x: "x = (k, w)" by (cases x)
      with that have "(k, w) \<in> set (unmarshal_map kvs)" "?Q k" by auto
      then obtain rk' where "(rk', w) \<in> set kvs" "unquote rk' = k" by (metis unmarshal_map_origin)
      then show ?thesis using only [of rk' w] x \<open>?Q k\<close> by auto
    qed
    have "distinct (filter (\<lambda>(k, v). ?Q k) (unmarshal_map kvs))"
      using distinct_smap [OF sorted_unmarshal_map] by (simp add: distinct_map)
    moreover have "(?k, v) \<in> set (filter (\<lambda>(k, v). ?Q k) (unmarshal_map kvs))"
      using in_m Q \<open>v' = v\<close> by simp
    ultimately show ?thesis using all by (intro distinct_singleton) blast+
  qed
  with flt show ?thesis by (simp add: field_values_def)
qed

section \<open>Facts: field names\<close>

text \<open>
  A field name of lower-case letters other than k and s, and of the underscore: every spelling
  of it that decoding accepts sorts before it.
\<close>

definition lower_name :: "bytes \<Rightarrow> bool" where
  "lower_name = list_all (\<lambda>c. (97 \<le> byte c \<and> byte c \<le> 122 \<or> c = CHR ''_'') \<and> c \<noteq> CHR ''k'' \<and> c \<noteq> CHR ''s'')"

lemma byte_to_upper:
  "byte (to_upper c) = (if 97 \<le> byte c \<and> byte c \<le> 122 then byte c - 32 else byte c)"
proof (cases "97 \<le> byte c \<and> byte c \<le> 122")
  case True
  then have "(byte c - 32) mod 256 = byte c - 32" by (intro mod_less) linarith
  with True show ?thesis by (simp add: to_upper_def)
next
  case False
  then show ?thesis by (auto simp: to_upper_def)
qed

lemma to_upper_le:
  assumes "to_upper a = to_upper x" "97 \<le> byte x \<and> byte x \<le> 122 \<or> x = CHR ''_''"
  shows "a \<le> x"
proof -
  have "byte (to_upper a) = byte (to_upper x)" using assms(1) by simp
  then have "byte a \<le> byte x" using assms(2) by (auto simp: byte_to_upper split: if_splits)
  then show ?thesis by (simp add: less_eq_char_def)
qed

lemma to_upper_SK:
  assumes "97 \<le> byte x \<and> byte x \<le> 122 \<or> x = CHR ''_''"
  shows "to_upper x = CHR ''S'' \<Longrightarrow> x = CHR ''s''" and "to_upper x = CHR ''K'' \<Longrightarrow> x = CHR ''k''"
proof -
  have "byte x = byte (CHR ''s'')" if "to_upper x = CHR ''S''"
    using assms byte_to_upper [of x] that by (auto split: if_splits)
  then show "to_upper x = CHR ''S'' \<Longrightarrow> x = CHR ''s''" by (simp only: of_char_eq_iff)
  have "byte x = byte (CHR ''k'')" if "to_upper x = CHR ''K''"
    using assms byte_to_upper [of x] that by (auto split: if_splits)
  then show "to_upper x = CHR ''K'' \<Longrightarrow> x = CHR ''k''" by (simp only: of_char_eq_iff)
qed

lemma fold_name_Cons:
  "fold_name (a # s) = (if a = CHR 0xC5 \<and> take 1 s = [CHR 0xBF] then CHR ''S'' # fold_name (drop 1 s)
     else if a = CHR 0xE2 \<and> take 2 s = [CHR 0x84, CHR 0xAA] then CHR ''K'' # fold_name (drop 2 s)
     else to_upper a # fold_name s)"
  by (cases s; cases "tl s") auto

declare fold_name.simps(1-3) [simp del]

lemma fold_name_lower: "lower_name n \<Longrightarrow> fold_name n = map to_upper n"
proof (induction n)
  case Nil
  show ?case by simp
next
  case (Cons c n)
  then have c: "97 \<le> byte c \<and> byte c \<le> 122 \<or> c = CHR ''_''" and n: "lower_name n"
    by (simp_all add: lower_name_def)
  from c have "byte c < 128" by auto
  then have "c \<noteq> CHR 0xC5" "c \<noteq> CHR 0xE2" by auto
  then have "fold_name (c # n) = to_upper c # fold_name n" by (simp only: fold_name_Cons simp_thms if_False)
  then show ?case by (simp only: Cons.IH [OF n] list.map)
qed

lemma fold_name_le:
  assumes "lower_name n" "fold_name k = map to_upper n"
  shows "k \<le> n"
  using assms
proof (induction k arbitrary: n)
  case (Cons a s)
  then obtain x n' where n: "n = x # n'" by (cases n) (auto simp: fold_name_Cons split: if_splits)
  from Cons.prems(1) n have x: "97 \<le> byte x \<and> byte x \<le> 122 \<or> x = CHR ''_''" "x \<noteq> CHR ''k''" "x \<noteq> CHR ''s''" "lower_name n'"
    by (auto simp: lower_name_def)
  have "to_upper x \<noteq> CHR ''S''" "to_upper x \<noteq> CHR ''K''" using to_upper_SK [OF x(1)] x(2,3) by auto
  with Cons.prems(2) n have eq: "to_upper a = to_upper x" "fold_name s = map to_upper n'"
    by (auto simp: fold_name_Cons split: if_splits)
  from Cons.IH [OF x(4) eq(2)] to_upper_le [OF eq(1) x(1)] n show ?case by (auto simp: order_le_less)
qed simp

lemma match_field_le:
  assumes "match_field names k = Some f" "lower_name f"
  shows "k \<le> f"
proof (cases "k \<in> set names")
  case True
  with assms show ?thesis by (simp add: match_field_def)
next
  case False
  with assms(1) have "find (\<lambda>f. fold_name f = fold_name k) names = Some f" by (simp add: match_field_def)
  then have "fold_name k = fold_name f" by (auto simp: find_Some_iff)
  with assms(2) show ?thesis by (simp add: fold_name_le fold_name_lower)
qed

section \<open>Facts: integers\<close>

lemma byte_digit: "n < 10 \<Longrightarrow> byte (char_of (48 + n)) = 48 + n"
  by simp

lemma is_digit_char_of: "n < 10 \<Longrightarrow> is_digit (char_of (48 + n :: nat))"
  by (simp add: is_digit_def)

lemma show_nat_digits: "list_all is_digit (show_nat n)"
proof (induction n rule: show_nat.induct)
  case (1 n)
  then show ?case by (subst show_nat.simps) (auto simp: is_digit_char_of)
qed

lemma digits_value_snoc: "digits_value (s @ [c]) = 10 * digits_value s + (byte c - 48)"
  by (simp add: digits_value_def)

lemma digits_value_show_nat: "digits_value (show_nat n) = n"
proof (induction n rule: show_nat.induct)
  case (1 n)
  show ?case
  proof (cases "n < 10")
    case True
    then show ?thesis by (subst show_nat.simps) (simp add: digits_value_def)
  next
    case False
    with 1 show ?thesis by (subst show_nat.simps) (simp add: digits_value_snoc)
  qed
qed

lemma show_nat_hd: "show_nat n \<noteq> [] \<and> (n = 0 \<and> show_nat n = ''0'' \<or> hd (show_nat n) \<noteq> CHR ''0'')"
proof (induction n rule: show_nat.induct)
  case (1 n)
  show ?case
  proof (cases "n < 10")
    case True
    have "char_of (48 + n) \<noteq> CHR ''0''" if "n \<noteq> 0"
      using True that byte_digit [of n] by (auto dest: arg_cong [of _ _ byte])
    moreover have "char_of (48 :: nat) = CHR ''0''" by (rule char_of_byte) simp
    ultimately show ?thesis using True by (subst (1 2 3) show_nat.simps) auto
  next
    case False
    with 1 have "hd (show_nat (n div 10)) \<noteq> CHR ''0''" "show_nat (n div 10) \<noteq> []" by auto
    with False show ?thesis by (subst (1 2 3) show_nat.simps) auto
  qed
qed

lemma scan_int_show_nat: "scan_int (show_nat n) = Some (show_nat n, [])"
proof -
  obtain c s where cs: "show_nat n = c # s" using show_nat_hd [of n] by (cases "show_nat n") auto
  have d: "list_all is_digit (c # s)" using show_nat_digits [of n] cs by simp
  show ?thesis
  proof (cases "c = CHR ''0''")
    case True
    with show_nat_hd [of n] cs show ?thesis by (auto simp: scan_int_def)
  next
    case False
    have "takeWhile is_digit (c # s) = c # s" "dropWhile is_digit (c # s) = []"
      using d by (auto simp: takeWhile_eq_all_conv dropWhile_eq_Nil_conv list_all_iff simp del: takeWhile.simps dropWhile.simps)
    with False d cs show ?thesis by (simp add: scan_int_def)
  qed
qed

lemma scan_minus_show_int:
  "scan_minus (show_int i) = (if i < 0 then (''-'', show_nat (nat (- i))) else ([], show_nat (nat i)))"
proof -
  obtain c s where cs: "show_nat (nat i) = c # s" using show_nat_hd [of "nat i"] by (cases "show_nat (nat i)") auto
  have "is_digit c" using show_nat_digits [of "nat i"] cs by simp
  then have "c \<noteq> CHR ''-''" by (auto simp: is_digit_def)
  with cs show ?thesis by (auto simp: show_int_def scan_minus_def)
qed

lemma wf_num_show_int: "wf_num (show_int i)"
proof -
  have "scan_number (show_int i) = Some (fst (scan_minus (show_int i)) @ snd (scan_minus (show_int i)), [])"
    by (simp add: scan_number_def scan_minus_show_int scan_int_show_nat scan_frac_def scan_exp_def)
  also have "fst (scan_minus (show_int i)) @ snd (scan_minus (show_int i)) = show_int i"
    by (auto simp: scan_minus_def split: list.split)
  finally show ?thesis by (simp add: wf_num_def)
qed

lemma parse_int64_show_int: "- (2 ^ 63) \<le> i \<Longrightarrow> i < 2 ^ 63 \<Longrightarrow> parse_int64 (show_int i) = Some i"
  by (auto simp: parse_int64_def scan_minus_show_int digits_value_show_nat show_nat_digits)

end
