(* ===== verification/SocketMode.thy ===== *)
theory SocketMode
  imports JsonCodec
begin

text \<open>
  The Socket Mode wire protocol, \<^verbatim>\<open>internal/socketmode/protocol.go\<close>: envelopes and their
  classification, decoding a frame, the acknowledgement, and the Events API callback with the
  filter for messages written by people.
\<close>

section \<open>Envelopes\<close>

definition TypeHello :: bytes where
  "TypeHello = ''hello''"

definition TypeDisconnect :: bytes where
  "TypeDisconnect = ''disconnect''"

definition TypeEventsAPI :: bytes where
  "TypeEventsAPI = ''events_api''"

definition TypeSlashCommands :: bytes where
  "TypeSlashCommands = ''slash_commands''"

definition TypeInteractive :: bytes where
  "TypeInteractive = ''interactive''"

lemmas envelope_types = TypeHello_def TypeDisconnect_def TypeEventsAPI_def TypeSlashCommands_def
  TypeInteractive_def

record Envelope =
  Type :: bytes
  EnvelopeID :: bytes
  AcceptsResponsePayload :: bool
  Payload :: "json option"
  NumConnections :: int
  Reason :: bytes

definition empty_envelope :: Envelope where
  "empty_envelope = \<lparr>Type = [], EnvelopeID = [], AcceptsResponsePayload = False, Payload = None,
     NumConnections = 0, Reason = []\<rparr>"

definition IsConnectionManagement :: "Envelope \<Rightarrow> bool" where
  "IsConnectionManagement e \<longleftrightarrow> Type e = TypeHello \<or> Type e = TypeDisconnect"

definition IsEvent :: "Envelope \<Rightarrow> bool" where
  "IsEvent e = (if Type e = TypeEventsAPI \<or> Type e = TypeSlashCommands \<or> Type e = TypeInteractive
     then True else False)"

section \<open>Decoding\<close>

definition envelope_fields :: "bytes list" where
  "envelope_fields = [''type'', ''envelope_id'', ''accepts_response_payload'', ''payload'',
     ''num_connections'', ''reason'']"

definition set_envelope :: "bytes \<Rightarrow> json \<Rightarrow> Envelope \<Rightarrow> Envelope \<times> bool" where
  "set_envelope f v e =
     (if f = ''type'' then (e\<lparr>Type := fst (decode_string v (Type e))\<rparr>, snd (decode_string v (Type e)))
      else if f = ''envelope_id'' then
        (e\<lparr>EnvelopeID := fst (decode_string v (EnvelopeID e))\<rparr>, snd (decode_string v (EnvelopeID e)))
      else if f = ''accepts_response_payload'' then
        (e\<lparr>AcceptsResponsePayload := fst (decode_bool v (AcceptsResponsePayload e))\<rparr>,
         snd (decode_bool v (AcceptsResponsePayload e)))
      else if f = ''payload'' then
        (e\<lparr>Payload := fst (decode_raw v (Payload e))\<rparr>, snd (decode_raw v (Payload e)))
      else if f = ''num_connections'' then
        (e\<lparr>NumConnections := fst (decode_int v (NumConnections e))\<rparr>, snd (decode_int v (NumConnections e)))
      else if f = ''reason'' then
        (e\<lparr>Reason := fst (decode_string v (Reason e))\<rparr>, snd (decode_string v (Reason e)))
      else (e, False))"

definition DecodeEnvelope :: "bytes \<Rightarrow> json_error + Envelope" where
  "DecodeEnvelope b = Unmarshal envelope_fields set_envelope b empty_envelope"

section \<open>Encoding\<close>

text \<open>\<^verbatim>\<open>json.Marshal\<close> of an envelope: every field is \<^verbatim>\<open>omitempty\<close>.\<close>

definition encode_envelope :: "Envelope \<Rightarrow> json" where
  "encode_envelope e = JObj
     (field_if (Type e \<noteq> []) ''type'' (encode_string (Type e))
      @ field_if (EnvelopeID e \<noteq> []) ''envelope_id'' (encode_string (EnvelopeID e))
      @ field_if (AcceptsResponsePayload e) ''accepts_response_payload'' (encode_bool (AcceptsResponsePayload e))
      @ (case Payload e of None \<Rightarrow> [] | Some p \<Rightarrow> [(''payload'', json_html p)])
      @ field_if (NumConnections e \<noteq> 0) ''num_connections'' (JNum (show_int (NumConnections e)))
      @ field_if (Reason e \<noteq> []) ''reason'' (encode_string (Reason e)))"

record Ack =
  AckEnvelopeID :: bytes
  AckPayload :: "json option"

definition encode_ack :: "Ack \<Rightarrow> json" where
  "encode_ack a = JObj
     ((''envelope_id'', encode_string (AckEnvelopeID a))
      # (case AckPayload a of None \<Rightarrow> [] | Some p \<Rightarrow> [(''payload'', json_html p)]))"

section \<open>Event callbacks\<close>

record MessageEvent =
  EvType :: bytes
  Subtype :: bytes
  Channel :: bytes
  ChannelType :: bytes
  User :: bytes
  BotID :: bytes
  Text :: bytes
  TS :: bytes
  ThreadTS :: bytes

record EventCallback =
  CbType :: bytes
  TeamID :: bytes
  APIAppID :: bytes
  Event :: MessageEvent
  EventID :: bytes
  EventTime :: int

definition empty_message :: MessageEvent where
  "empty_message = \<lparr>EvType = [], Subtype = [], Channel = [], ChannelType = [], User = [], BotID = [],
     Text = [], TS = [], ThreadTS = []\<rparr>"

definition empty_callback :: EventCallback where
  "empty_callback = \<lparr>CbType = [], TeamID = [], APIAppID = [], Event = empty_message, EventID = [],
     EventTime = 0\<rparr>"

definition message_fields :: "bytes list" where
  "message_fields = [''type'', ''subtype'', ''channel'', ''channel_type'', ''user'', ''bot_id'',
     ''text'', ''ts'', ''thread_ts'']"

definition set_message :: "bytes \<Rightarrow> json \<Rightarrow> MessageEvent \<Rightarrow> MessageEvent \<times> bool" where
  "set_message f v m =
     (if f = ''type'' then (m\<lparr>EvType := fst (decode_string v (EvType m))\<rparr>, snd (decode_string v (EvType m)))
      else if f = ''subtype'' then (m\<lparr>Subtype := fst (decode_string v (Subtype m))\<rparr>, snd (decode_string v (Subtype m)))
      else if f = ''channel'' then (m\<lparr>Channel := fst (decode_string v (Channel m))\<rparr>, snd (decode_string v (Channel m)))
      else if f = ''channel_type'' then
        (m\<lparr>ChannelType := fst (decode_string v (ChannelType m))\<rparr>, snd (decode_string v (ChannelType m)))
      else if f = ''user'' then (m\<lparr>User := fst (decode_string v (User m))\<rparr>, snd (decode_string v (User m)))
      else if f = ''bot_id'' then (m\<lparr>BotID := fst (decode_string v (BotID m))\<rparr>, snd (decode_string v (BotID m)))
      else if f = ''text'' then (m\<lparr>Text := fst (decode_string v (Text m))\<rparr>, snd (decode_string v (Text m)))
      else if f = ''ts'' then (m\<lparr>TS := fst (decode_string v (TS m))\<rparr>, snd (decode_string v (TS m)))
      else if f = ''thread_ts'' then
        (m\<lparr>ThreadTS := fst (decode_string v (ThreadTS m))\<rparr>, snd (decode_string v (ThreadTS m)))
      else (m, False))"

definition callback_fields :: "bytes list" where
  "callback_fields = [''type'', ''team_id'', ''api_app_id'', ''event'', ''event_id'', ''event_time'']"

definition set_callback :: "bytes \<Rightarrow> json \<Rightarrow> EventCallback \<Rightarrow> EventCallback \<times> bool" where
  "set_callback f v c =
     (if f = ''type'' then (c\<lparr>CbType := fst (decode_string v (CbType c))\<rparr>, snd (decode_string v (CbType c)))
      else if f = ''team_id'' then (c\<lparr>TeamID := fst (decode_string v (TeamID c))\<rparr>, snd (decode_string v (TeamID c)))
      else if f = ''api_app_id'' then
        (c\<lparr>APIAppID := fst (decode_string v (APIAppID c))\<rparr>, snd (decode_string v (APIAppID c)))
      else if f = ''event'' then
        (c\<lparr>Event := fst (unmarshal_struct message_fields set_message v (Event c))\<rparr>,
         snd (unmarshal_struct message_fields set_message v (Event c)))
      else if f = ''event_id'' then
        (c\<lparr>EventID := fst (decode_string v (EventID c))\<rparr>, snd (decode_string v (EventID c)))
      else if f = ''event_time'' then
        (c\<lparr>EventTime := fst (decode_int v (EventTime c))\<rparr>, snd (decode_int v (EventTime c)))
      else (c, False))"

datatype callback_error = NotEventsAPI bytes | BadPayload json_error

definition ParseEventCallback :: "Envelope \<Rightarrow> callback_error + EventCallback" where
  "ParseEventCallback e =
     (if Type e \<noteq> TypeEventsAPI then Inl (NotEventsAPI (Type e))
      else (case Payload e of
         None \<Rightarrow> Inl (BadPayload SyntaxError)
       | Some p \<Rightarrow>
           (let r = unmarshal_struct callback_fields set_callback p empty_callback
            in if snd r then Inl (BadPayload TypeError) else Inr (fst r))))"

definition IsHumanMessage :: "MessageEvent \<Rightarrow> bool" where
  "IsHumanMessage m =
     (if EvType m \<noteq> ''message'' \<and> EvType m \<noteq> ''app_mention'' then False
      else if Subtype m \<noteq> [] then False
      else if BotID m \<noteq> [] \<or> User m = [] then False
      else True)"

section \<open>Facts: decoding an envelope\<close>

lemma field_values_append: "field_values names f (xs @ ys) = field_values names f xs @ field_values names f ys"
  by (simp add: field_values_def)

lemma match_envelope [simp]:
  "match_field envelope_fields (unquote ''type'') = Some ''type''"
  "match_field envelope_fields (unquote ''envelope_id'') = Some ''envelope_id''"
  "match_field envelope_fields (unquote ''accepts_response_payload'') = Some ''accepts_response_payload''"
  "match_field envelope_fields (unquote ''payload'') = Some ''payload''"
  "match_field envelope_fields (unquote ''num_connections'') = Some ''num_connections''"
  "match_field envelope_fields (unquote ''reason'') = Some ''reason''"
  by code_simp+

text \<open>Which values a field refuses; the values already stored do not matter.\<close>

definition envelope_error :: "bytes \<Rightarrow> json \<Rightarrow> bool" where
  "envelope_error f v \<longleftrightarrow> snd (set_envelope f v empty_envelope)"

lemma decode_error:
  "snd (decode_string v old) = snd (decode_string v old')"
  "snd (decode_bool v b) = snd (decode_bool v b')"
  "snd (decode_int v i) = snd (decode_int v i')"
  "\<not> snd (decode_raw v r)"
  by (simp_all add: decode_string_def decode_bool_def decode_int_def decode_raw_def
      split: json.splits option.splits)

lemma set_envelope_error: "snd (set_envelope f v e) = envelope_error f v"
  using decode_error by (simp add: envelope_error_def set_envelope_def)

lemma set_envelope_fields:
  "Type (fst (set_envelope f v e)) = (if f = ''type'' then fst (decode_string v (Type e)) else Type e)"
  "EnvelopeID (fst (set_envelope f v e)) = (if f = ''envelope_id'' then fst (decode_string v (EnvelopeID e)) else EnvelopeID e)"
  "AcceptsResponsePayload (fst (set_envelope f v e)) =
     (if f = ''accepts_response_payload'' then fst (decode_bool v (AcceptsResponsePayload e)) else AcceptsResponsePayload e)"
  "Payload (fst (set_envelope f v e)) = (if f = ''payload'' then fst (decode_raw v (Payload e)) else Payload e)"
  "NumConnections (fst (set_envelope f v e)) =
     (if f = ''num_connections'' then fst (decode_int v (NumConnections e)) else NumConnections e)"
  "Reason (fst (set_envelope f v e)) = (if f = ''reason'' then fst (decode_string v (Reason e)) else Reason e)"
  by (simp_all add: set_envelope_def)

text \<open>The envelope an object decodes to, field by field.\<close>

definition envelope_of :: "(bytes \<Rightarrow> json list) \<Rightarrow> Envelope" where
  "envelope_of vals = \<lparr>
     Type = foldl (\<lambda>y v. fst (decode_string v y)) [] (vals ''type''),
     EnvelopeID = foldl (\<lambda>y v. fst (decode_string v y)) [] (vals ''envelope_id''),
     AcceptsResponsePayload = foldl (\<lambda>y v. fst (decode_bool v y)) False (vals ''accepts_response_payload''),
     Payload = foldl (\<lambda>y v. fst (decode_raw v y)) None (vals ''payload''),
     NumConnections = foldl (\<lambda>y v. fst (decode_int v y)) 0 (vals ''num_connections''),
     Reason = foldl (\<lambda>y v. fst (decode_string v y)) [] (vals ''reason'')\<rparr>"

lemma decode_envelope_fields:
  "fst (decode_fields envelope_fields set_envelope kvs empty_envelope) =
     envelope_of (\<lambda>f. field_values envelope_fields f kvs)"
  by (rule Envelope.equality)
    (simp_all add: envelope_of_def empty_envelope_def
      decode_fields_get [of Type set_envelope "''type''" "\<lambda>v y. fst (decode_string v y)", OF set_envelope_fields(1)]
      decode_fields_get [of EnvelopeID set_envelope "''envelope_id''" "\<lambda>v y. fst (decode_string v y)", OF set_envelope_fields(2)]
      decode_fields_get [of AcceptsResponsePayload set_envelope "''accepts_response_payload''" "\<lambda>v y. fst (decode_bool v y)", OF set_envelope_fields(3)]
      decode_fields_get [of Payload set_envelope "''payload''" "\<lambda>v y. fst (decode_raw v y)", OF set_envelope_fields(4)]
      decode_fields_get [of NumConnections set_envelope "''num_connections''" "\<lambda>v y. fst (decode_int v y)", OF set_envelope_fields(5)]
      decode_fields_get [of Reason set_envelope "''reason''" "\<lambda>v y. fst (decode_string v y)", OF set_envelope_fields(6)])

definition envelope_errors :: "(bytes \<times> json) list \<Rightarrow> bool" where
  "envelope_errors kvs \<longleftrightarrow> (\<exists>(k, v) \<in> set kvs. \<exists>f. match_field envelope_fields (unquote k) = Some f \<and> envelope_error f v)"

lemma DecodeEnvelope_object:
  "json_parse b = Some (JObj kvs) \<Longrightarrow> DecodeEnvelope b =
     (if envelope_errors kvs then Inl TypeError else Inr (envelope_of (\<lambda>f. field_values envelope_fields f kvs)))"
  using decode_fields_error [of set_envelope envelope_error envelope_fields kvs empty_envelope, OF set_envelope_error]
  by (simp add: DecodeEnvelope_def Unmarshal_def unmarshal_struct_def decode_envelope_fields [symmetric]
      envelope_errors_def case_prod_unfold)

lemma DecodeEnvelope_cases:
  assumes "DecodeEnvelope b = Inr e"
  obtains (null) "json_parse b = Some JNull" "e = empty_envelope"
  | (object) kvs where "json_parse b = Some (JObj kvs)" "\<not> envelope_errors kvs"
      "e = envelope_of (\<lambda>f. field_values envelope_fields f kvs)"
proof (cases "json_parse b")
  case None
  with assms show ?thesis by (simp add: DecodeEnvelope_def Unmarshal_def)
next
  case (Some j)
  show ?thesis
  proof (cases j)
    case (JObj kvs)
    with Some assms object DecodeEnvelope_object [of b kvs] show ?thesis by (auto split: if_splits)
  qed (use Some assms null in \<open>auto simp: DecodeEnvelope_def Unmarshal_def unmarshal_struct_def\<close>)
qed

section \<open>Facts: encoding and decoding\<close>

definition envelope_ok :: "Envelope \<Rightarrow> bool" where
  "envelope_ok e \<longleftrightarrow> valid_utf8 (Type e) \<and> valid_utf8 (EnvelopeID e) \<and> valid_utf8 (Reason e)
     \<and> - (2 ^ 63) \<le> NumConnections e \<and> NumConnections e < 2 ^ 63
     \<and> (case Payload e of None \<Rightarrow> True | Some p \<Rightarrow> wf_json p \<and> json_depth p < 10000)"

lemma wf_names [simp]:
  "wf_str ''type''" "wf_str ''envelope_id''" "wf_str ''accepts_response_payload''" "wf_str ''payload''"
  "wf_str ''num_connections''" "wf_str ''reason''"
  by code_simp+

lemma wf_field_if: "wf_str name \<Longrightarrow> wf_json v \<Longrightarrow> list_all (\<lambda>(k, v). wf_str k \<and> wf_json v) (field_if b name v)"
  by (simp add: field_if_def)

lemma wf_encode_envelope: "envelope_ok e \<Longrightarrow> wf_json (encode_envelope e)"
  by (auto simp: encode_envelope_def envelope_ok_def wf_field_if encode_string_def wf_str_quote encode_bool_def
      wf_num_show_int wf_json_html split: option.splits)

lemma fold_max_field_if: "fold max (map (\<lambda>(k, v). json_depth v) (field_if b name v)) n = (if b then max (json_depth v) n else n)"
  by (simp add: field_if_def)

lemma depth_encode_envelope: "envelope_ok e \<Longrightarrow> json_depth (encode_envelope e) \<le> 10000"
  by (auto simp: encode_envelope_def envelope_ok_def fold_max_field_if encode_string_def encode_bool_def
      json_depth_html split: option.splits)

lemma field_values_field_if:
  "match_field names (unquote name) = Some name \<Longrightarrow>
   field_values names f (field_if b name v) = (if b \<and> f = name then [v] else [])"
  by (simp add: field_if_def)

lemma field_values_payload:
  "field_values envelope_fields f (case p of None \<Rightarrow> [] | Some p \<Rightarrow> [(''payload'', json_html p)]) =
   (if f = ''payload'' then map json_html (case p of None \<Rightarrow> [] | Some p \<Rightarrow> [p]) else [])"
  by (cases p) auto

lemma decode_encode_scalar:
  "valid_utf8 s \<Longrightarrow> decode_string (encode_string s) old = (s, False)"
  "decode_bool (encode_bool b) old' = (b, False)"
  "- (2 ^ 63) \<le> i \<Longrightarrow> i < 2 ^ 63 \<Longrightarrow> decode_int (JNum (show_int i)) old'' = (i, False)"
  by (simp_all add: decode_string_def encode_string_def unquote_quote decode_bool_def encode_bool_def
      decode_int_def parse_int64_show_int)

lemma envelope_of_encode:
  assumes "envelope_ok e" "encode_envelope e = JObj kvs"
  shows "envelope_of (\<lambda>f. field_values envelope_fields f kvs) = e\<lparr>Payload := map_option json_html (Payload e)\<rparr>"
  using assms
  by (intro Envelope.equality)
    (auto simp: encode_envelope_def envelope_of_def field_values_append field_values_field_if field_values_payload
      envelope_ok_def decode_encode_scalar decode_raw_def split: option.splits if_splits)

lemma envelope_errors_simps:
  "\<not> envelope_errors []"
  "envelope_errors (xs @ ys) \<longleftrightarrow> envelope_errors xs \<or> envelope_errors ys"
  "match_field envelope_fields (unquote k) = Some f \<Longrightarrow>
     envelope_errors ((k, v) # kvs) \<longleftrightarrow> envelope_error f v \<or> envelope_errors kvs"
  by (auto simp: envelope_errors_def)

lemma envelope_errors_field_if:
  "match_field envelope_fields (unquote k) = Some f \<Longrightarrow>
     envelope_errors (field_if b k v) \<longleftrightarrow> b \<and> envelope_error f v"
  by (simp add: field_if_def envelope_errors_simps)

lemma envelope_error_encode:
  "\<not> envelope_error ''type'' (encode_string s)" "\<not> envelope_error ''envelope_id'' (encode_string s)"
  "\<not> envelope_error ''reason'' (encode_string s)"
  "\<not> envelope_error ''accepts_response_payload'' (encode_bool b)" "\<not> envelope_error ''payload'' p"
  "- (2 ^ 63) \<le> i \<Longrightarrow> i < 2 ^ 63 \<Longrightarrow> \<not> envelope_error ''num_connections'' (JNum (show_int i))"
  by (simp_all add: envelope_error_def set_envelope_def decode_raw_def decode_string_def encode_string_def
      decode_bool_def encode_bool_def decode_int_def parse_int64_show_int)

lemma envelope_errors_encode:
  assumes "envelope_ok e" "encode_envelope e = JObj kvs"
  shows "\<not> envelope_errors kvs"
  using assms
  by (cases "Payload e")
    (auto simp: encode_envelope_def envelope_errors_simps envelope_errors_field_if envelope_error_encode
      envelope_ok_def)

theorem DecodeEnvelope_encode:
  assumes "envelope_ok e"
  shows "DecodeEnvelope (json_print (encode_envelope e)) = Inr (e\<lparr>Payload := map_option json_html (Payload e)\<rparr>)"
proof -
  obtain kvs where kvs: "encode_envelope e = JObj kvs" by (simp add: encode_envelope_def)
  have "json_parse (json_print (encode_envelope e)) = Some (JObj kvs)"
    using json_parse_print [OF wf_encode_envelope [OF assms] depth_encode_envelope [OF assms]] kvs by simp
  then show ?thesis
    by (simp add: DecodeEnvelope_object envelope_errors_encode [OF assms kvs] envelope_of_encode [OF assms kvs])
qed

end
