(* ===== verification/Frames.thy ===== *)
theory Frames
  imports SocketMode
begin

text \<open>
  The frames the session sends to the actor (\<^verbatim>\<open>cmd/egress-broker/registry.go\<close>): the hello frame,
  the random actor-facing envelope ids, and the rewriting of an event's \<^verbatim>\<open>envelope_id\<close>. The
  rewritten frame always decodes to an envelope with the fresh id; the other fields survive as
  long as the event does not spell one of them twice.
\<close>

section \<open>Definitions\<close>

text \<open>A Go run-time panic the model can reach: writing to a nil map.\<close>

datatype go_panic = NilMapWrite

definition mustJSON :: "Envelope \<Rightarrow> bytes" where
  "mustJSON e = json_print (encode_envelope e)"

definition helloFrame :: bytes where
  "helloFrame = mustJSON (empty_envelope\<lparr>Type := TypeHello, NumConnections := 1\<rparr>)"

text \<open>
  \<^verbatim>\<open>crypto/rand\<close>: what the \<open>k\<close>-th read delivers is a parameter, byte by byte.
\<close>

type_synonym rand_source = "nat \<Rightarrow> nat \<Rightarrow> 8 word"

definition rand_Read :: "rand_source \<Rightarrow> nat \<Rightarrow> nat \<Rightarrow> 8 word list" where
  "rand_Read src k n = map (src k) [0..<n]"

definition randID :: "rand_source \<Rightarrow> nat \<Rightarrow> bytes" where
  "randID src k = hex_EncodeToString (rand_Read src k 12)"

definition rewriteEnvelopeID :: "bytes \<Rightarrow> bytes \<Rightarrow> go_panic + bytes" where
  "rewriteEnvelopeID raw fresh = (case json_parse raw of
     None \<Rightarrow> Inr raw
   | Some JNull \<Rightarrow> Inl NilMapWrite
   | Some (JObj kvs) \<Rightarrow>
       (let m = smap_put ''envelope_id'' (encode_string fresh) (unmarshal_map kvs)
        in Inr (json_print (marshal_map m)))
   | Some _ \<Rightarrow> Inr raw)"

section \<open>The rewritten frame\<close>

lemma fold_max_le: "fold max xs n \<le> b \<longleftrightarrow> n \<le> b \<and> (\<forall>x \<in> set xs. x \<le> (b :: nat))"
  by (induction xs arbitrary: n) auto

lemma depth_object: "json_depth (JObj kvs) \<le> Suc b \<longleftrightarrow> (\<forall>(k, v) \<in> set kvs. json_depth v \<le> b)"
  by (auto simp: fold_max_le)

definition stamped_map :: "(bytes \<times> json) list \<Rightarrow> bytes \<Rightarrow> json smap" where
  "stamped_map kvs fresh = smap_put ''envelope_id'' (encode_string fresh) (unmarshal_map kvs)"

lemma stamped_map_entry:
  assumes "(k, v) \<in> set (stamped_map kvs fresh)"
  shows "k = ''envelope_id'' \<and> v = encode_string fresh \<or> (\<exists>rk. (rk, v) \<in> set kvs \<and> unquote rk = k)"
proof -
  have "sorted_wrt (<) (map fst (stamped_map kvs fresh))"
    unfolding stamped_map_def by (intro sorted_smap_put sorted_unmarshal_map)
  then have "map_of (stamped_map kvs fresh) k = Some v" using assms by (intro map_of_is_SomeI distinct_smap)
  then have "((map_of (unmarshal_map kvs))(''envelope_id'' \<mapsto> encode_string fresh)) k = Some v"
    by (simp only: stamped_map_def map_of_smap_put)
  then show ?thesis by (auto split: if_splits dest!: map_of_SomeD elim: unmarshal_map_origin)
qed

lemma stamped_map_valid: "list_all (\<lambda>(k, v). valid_utf8 k) (stamped_map kvs fresh)"
proof -
  have "valid_utf8 ''envelope_id''" by (rule valid_utf8_ascii) simp
  then show ?thesis using stamped_map_entry valid_utf8_unquote by (fastforce simp: list_all_iff)
qed

lemma stamped_map_parse:
  assumes "json_parse raw = Some (JObj kvs)"
  shows "json_parse (json_print (marshal_map (stamped_map kvs fresh))) = Some (marshal_map (stamped_map kvs fresh))"
proof (rule json_parse_print)
  from json_parse_wf [OF assms] have wf: "\<forall>(k, v) \<in> set kvs. wf_json v \<and> json_depth v \<le> 9999"
    using depth_object [of kvs 9999] by (auto simp: list_all_iff)
  have "wf_json v \<and> json_depth v \<le> 9999" if "(k, v) \<in> set (stamped_map kvs fresh)" for k v
    using stamped_map_entry [OF that] wf by (auto simp: encode_string_def wf_str_quote)
  then show "wf_json (marshal_map (stamped_map kvs fresh))" "json_depth (marshal_map (stamped_map kvs fresh)) \<le> 10000"
    using depth_object [of "map (\<lambda>(k, v). (quote k, json_html v)) (stamped_map kvs fresh)" 9999]
    by (auto simp: marshal_map_def list_all_iff wf_str_quote wf_json_html json_depth_html simp del: json_depth.simps)
qed

lemma lower_envelope_id: "lower_name ''envelope_id''"
  by (simp add: lower_name_def)

lemma match_envelope_id: "match_field envelope_fields ''envelope_id'' = Some ''envelope_id''"
  by code_simp

lemma stamped_values:
  "field_values envelope_fields f (map (\<lambda>(k, v). (quote k, json_html v)) (stamped_map kvs fresh)) =
     map (\<lambda>(k, v). json_html v) (filter (\<lambda>(k, v). match_field envelope_fields k = Some f) (stamped_map kvs fresh))"
  by (rule field_values_marshal [OF stamped_map_valid])

lemma stamped_envelope_id:
  "\<exists>vs. field_values envelope_fields ''envelope_id'' (map (\<lambda>(k, v). (quote k, json_html v)) (stamped_map kvs fresh)) =
     vs @ [json_html (encode_string fresh)]"
proof -
  have sorted: "sorted_wrt (<) (map fst (stamped_map kvs fresh))"
    unfolding stamped_map_def by (intro sorted_smap_put sorted_unmarshal_map)
  have "map_of (stamped_map kvs fresh) ''envelope_id'' = Some (encode_string fresh)"
    by (simp add: stamped_map_def map_of_smap_put)
  then have mem: "(''envelope_id'', encode_string fresh) \<in> set (stamped_map kvs fresh)" by (rule map_of_SomeD)
  have "\<exists>ys. filter (\<lambda>(k, v). match_field envelope_fields k = Some ''envelope_id'') (stamped_map kvs fresh)
      = ys @ [(''envelope_id'', encode_string fresh)]"
    by (rule filter_sorted_last [OF sorted mem])
      (simp_all only: match_envelope_id match_field_le [OF _ lower_envelope_id])
  then obtain ys where "filter (\<lambda>(k, v). match_field envelope_fields k = Some ''envelope_id'') (stamped_map kvs fresh)
      = ys @ [(''envelope_id'', encode_string fresh)]" ..
  then show ?thesis unfolding stamped_values by simp
qed

lemma stamped_other:
  assumes "f \<noteq> ''envelope_id''" "length (field_values envelope_fields f kvs) \<le> 1"
  shows "field_values envelope_fields f (map (\<lambda>(k, v). (quote k, json_html v)) (stamped_map kvs fresh)) =
    map json_html (field_values envelope_fields f kvs)"
proof -
  have "filter (\<lambda>(k, v). match_field envelope_fields k = Some f) (stamped_map kvs fresh) =
      filter (\<lambda>(k, v). match_field envelope_fields k = Some f) (unmarshal_map kvs)"
    unfolding stamped_map_def using assms(1) match_envelope_id by (intro filter_smap_put) simp
  then show ?thesis unfolding stamped_values unmarshal_map_unique [OF assms(2), symmetric]
    by (simp add: comp_def case_prod_unfold)
qed

section \<open>Decoding the rewritten frame\<close>

lemma decode_html:
  "wf_json v \<Longrightarrow> decode_string (json_html v) old = decode_string v old"
  "decode_bool (json_html v) b = decode_bool v b"
  "decode_int (json_html v) i = decode_int v i"
  by (cases v; simp add: decode_string_def decode_bool_def decode_int_def unquote_html_escape)+

lemma envelope_error_html: "wf_json v \<Longrightarrow> envelope_error f (json_html v) = envelope_error f v"
  by (simp add: envelope_error_def set_envelope_def decode_html decode_raw_def)

lemma decode_stamp: "valid_utf8 fresh \<Longrightarrow> decode_string (json_html (encode_string fresh)) old = (fresh, False)"
  by (simp add: encode_string_def decode_string_def unquote_html_escape wf_str_quote unquote_quote)

lemma wf_object_values: "json_parse raw = Some (JObj kvs) \<Longrightarrow> (k, v) \<in> set kvs \<Longrightarrow> wf_json v"
  using json_parse_wf [of raw "JObj kvs"] by (auto simp: list_all_iff)

lemma stamped_no_errors:
  assumes "json_parse raw = Some (JObj kvs)" "\<not> envelope_errors kvs"
  shows "\<not> envelope_errors (map (\<lambda>(k, v). (quote k, json_html v)) (stamped_map kvs fresh))"
proof
  assume "envelope_errors (map (\<lambda>(k, v). (quote k, json_html v)) (stamped_map kvs fresh))"
  then obtain k v f where kv: "(k, v) \<in> set (stamped_map kvs fresh)"
    and f: "match_field envelope_fields (unquote (quote k)) = Some f" "envelope_error f (json_html v)"
    by (auto simp: envelope_errors_def)
  have "valid_utf8 k" using stamped_map_valid kv by (fastforce simp: list_all_iff)
  with f have match: "match_field envelope_fields k = Some f" by (simp add: unquote_quote)
  from stamped_map_entry [OF kv] show False
  proof (elim disjE conjE exE)
    assume "k = ''envelope_id''" and v: "v = encode_string fresh"
    then have "f = ''envelope_id''" using match match_envelope_id by simp
    with f v show False by (simp add: envelope_error_html envelope_error_encode encode_string_def wf_str_quote)
        (simp add: envelope_error_def set_envelope_def decode_string_def)
  next
    fix rk assume rk: "(rk, v) \<in> set kvs" "unquote rk = k"
    with wf_object_values [OF assms(1)] f(2) have "envelope_error f v" by (simp add: envelope_error_html)
    with rk match assms(2) show False by (auto simp: envelope_errors_def)
  qed
qed

definition stamped_envelope :: "(bytes \<times> json) list \<Rightarrow> bytes \<Rightarrow> Envelope" where
  "stamped_envelope kvs fresh = envelope_of (\<lambda>f. field_values envelope_fields f
     (map (\<lambda>(k, v). (quote k, json_html v)) (stamped_map kvs fresh)))"

lemma rewriteEnvelopeID_object:
  "json_parse raw = Some (JObj kvs) \<Longrightarrow>
     rewriteEnvelopeID raw fresh = Inr (json_print (marshal_map (stamped_map kvs fresh)))"
  by (simp add: rewriteEnvelopeID_def stamped_map_def Let_def)

lemma decode_rewritten:
  assumes "json_parse raw = Some (JObj kvs)" "\<not> envelope_errors kvs"
  shows "DecodeEnvelope (json_print (marshal_map (stamped_map kvs fresh))) = Inr (stamped_envelope kvs fresh)"
  using DecodeEnvelope_object [OF stamped_map_parse [OF assms(1), unfolded marshal_map_def]] stamped_no_errors [OF assms]
  by (simp add: marshal_map_def stamped_envelope_def)

lemma stamped_envelope_fresh: "valid_utf8 fresh \<Longrightarrow> EnvelopeID (stamped_envelope kvs fresh) = fresh"
  using stamped_envelope_id [of kvs fresh] by (auto simp: stamped_envelope_def envelope_of_def decode_stamp)

definition unambiguous :: "(bytes \<times> json) list \<Rightarrow> bool" where
  "unambiguous kvs \<longleftrightarrow> list_all (\<lambda>f. f = ''envelope_id'' \<or> length (field_values envelope_fields f kvs) \<le> 1) envelope_fields"

lemma le_one_cases: "length xs \<le> 1 \<Longrightarrow> (xs = [] \<Longrightarrow> P) \<Longrightarrow> (\<And>x. xs = [x] \<Longrightarrow> P) \<Longrightarrow> P"
  by (cases xs; cases "tl xs") auto

lemma foldl_html:
  assumes "length vs \<le> 1" "\<And>v. v \<in> set vs \<Longrightarrow> h (json_html v) a = h v a"
  shows "foldl (\<lambda>y v. h v y) a (map json_html vs) = foldl (\<lambda>y v. h v y) a vs"
  using assms(1) by (rule le_one_cases) (use assms(2) in auto)

lemma wf_field_values: "json_parse raw = Some (JObj kvs) \<Longrightarrow> v \<in> set (field_values envelope_fields f kvs) \<Longrightarrow> wf_json v"
  by (auto simp: field_values_def dest: wf_object_values)

lemma stamped_envelope_others:
  assumes "json_parse raw = Some (JObj kvs)" "unambiguous kvs" "valid_utf8 fresh"
  defines "e \<equiv> envelope_of (\<lambda>f. field_values envelope_fields f kvs)"
  shows "stamped_envelope kvs fresh = e\<lparr>EnvelopeID := fresh, Payload := map_option json_html (Payload e)\<rparr>"
proof -
  have one: "length (field_values envelope_fields f kvs) \<le> 1"
    if "f \<in> {''type'', ''accepts_response_payload'', ''payload'', ''num_connections'', ''reason''}" for f
    using assms(2) that by (auto simp: unambiguous_def envelope_fields_def)
  have other: "field_values envelope_fields f (map (\<lambda>(k, v). (quote k, json_html v)) (stamped_map kvs fresh)) =
      map json_html (field_values envelope_fields f kvs)"
    if "f \<in> {''type'', ''accepts_response_payload'', ''payload'', ''num_connections'', ''reason''}" for f
    by (rule stamped_other [OF _ one [OF that]]) (use that in auto)
  have str: "foldl (\<lambda>y v. fst (decode_string v y)) [] (map json_html (field_values envelope_fields f kvs)) =
      foldl (\<lambda>y v. fst (decode_string v y)) [] (field_values envelope_fields f kvs)" if "f = ''type'' \<or> f = ''reason''" for f
  proof (rule foldl_html)
    show "length (field_values envelope_fields f kvs) \<le> 1" using that by (intro one) blast
    show "fst (decode_string (json_html v) []) = fst (decode_string v [])" if "v \<in> set (field_values envelope_fields f kvs)" for v
      using wf_field_values [OF assms(1) that] by (simp only: decode_html)
  qed
  have scalar: "foldl (\<lambda>y v. fst (decode_bool v y)) False (map json_html vs) = foldl (\<lambda>y v. fst (decode_bool v y)) False vs"
    "foldl (\<lambda>y v. fst (decode_int v y)) 0 (map json_html vs) = foldl (\<lambda>y v. fst (decode_int v y)) 0 vs" for vs
    by (simp_all add: foldl_map decode_html)
  have raw: "foldl (\<lambda>y v. fst (decode_raw v y)) None (map json_html (field_values envelope_fields ''payload'' kvs)) =
      map_option json_html (foldl (\<lambda>y v. fst (decode_raw v y)) None (field_values envelope_fields ''payload'' kvs))"
    by (rule le_one_cases [OF one [of "''payload''"]]) (simp_all add: decode_raw_def)
  have "EnvelopeID (stamped_envelope kvs fresh) = fresh" by (rule stamped_envelope_fresh [OF assms(3)])
  then show ?thesis unfolding e_def
    by (intro Envelope.equality) (simp_all add: stamped_envelope_def envelope_of_def other str scalar raw)
qed

lemma event_not_null: "DecodeEnvelope raw = Inr e \<Longrightarrow> IsEvent e \<Longrightarrow> json_parse raw \<noteq> Some JNull"
  by (auto elim!: DecodeEnvelope_cases simp: IsEvent_def empty_envelope_def envelope_types)

lemma rewriteEnvelopeID_event:
  assumes "DecodeEnvelope raw = Inr e" "json_parse raw \<noteq> Some JNull" "valid_utf8 fresh"
  shows "\<exists>out e'. rewriteEnvelopeID raw fresh = Inr out \<and> DecodeEnvelope out = Inr e' \<and> EnvelopeID e' = fresh"
  using assms(1)
proof (cases rule: DecodeEnvelope_cases)
  case (object kvs)
  then show ?thesis using rewriteEnvelopeID_object decode_rewritten stamped_envelope_fresh [OF assms(3)] by blast
qed (use assms in simp)

lemma rewriteEnvelopeID_fields:
  assumes "json_parse raw = Some (JObj kvs)" "DecodeEnvelope raw = Inr e" "unambiguous kvs" "valid_utf8 fresh"
  shows "\<exists>out. rewriteEnvelopeID raw fresh = Inr out \<and>
    DecodeEnvelope out = Inr (e\<lparr>EnvelopeID := fresh, Payload := map_option json_html (Payload e)\<rparr>)"
  using assms(2)
proof (cases rule: DecodeEnvelope_cases)
  case (object kvs')
  with assms(1) have "kvs' = kvs" by simp
  with object show ?thesis
    using rewriteEnvelopeID_object decode_rewritten stamped_envelope_others [OF assms(1, 3, 4)] by simp
qed (use assms(1) in simp)

end
