(* ===== verification/AteApi.thy ===== *)
theory AteApi
  imports GoStrings
begin

text \<open>
  The broker's client of the substrate control plane, \<^verbatim>\<open>cmd/egress-broker/ateapi.go\<close>: actor
  identities, resuming with retries on a conflict, suspending, and finding the actor behind a
  worker pod's address page by page.

  The control plane, the retry helper \<^verbatim>\<open>wait.ExponentialBackoffWithContext\<close> and
  \<^verbatim>\<open>singleflight\<close> are not part of the repository. The remote calls are parameters that read and
  update a state \<open>'s\<close> of the outside world; what the client relies on in the retry helper is the
  locale \<open>retry_helper\<close>.
\<close>

section \<open>Actor identities\<close>

record ActorRef =
  Atespace :: bytes
  Name :: bytes

definition ActorRef_String :: "ActorRef \<Rightarrow> bytes" where
  "ActorRef_String r = Atespace r @ ''/'' @ Name r"

definition empty_ref :: ActorRef where
  "empty_ref = \<lparr>Atespace = [], Name = []\<rparr>"

section \<open>The control client\<close>

text \<open>The actor record of the control API, by the getters the client uses.\<close>

datatype actor_status = STATUS_RUNNING | STATUS_OTHER nat

record actor_info =
  info_atespace :: bytes
  info_actor_id :: bytes
  info_pod_ip :: bytes
  info_status :: actor_status

record actor_page =
  page_actors :: "actor_info list"
  page_next :: bytes

record ResumeActorRequest =
  rr_ref :: ActorRef
  rr_boot :: bool

record ('e, 's) control_api =
  ResumeActor :: "ResumeActorRequest \<Rightarrow> 's \<Rightarrow> 'e option \<times> 's"
  SuspendActor :: "ActorRef \<Rightarrow> 's \<Rightarrow> 'e option \<times> 's"
  ListActors :: "nat \<Rightarrow> bytes \<Rightarrow> 's \<Rightarrow> ('e + actor_page) \<times> 's"
  is_aborted :: "'e \<Rightarrow> bool"

record ('e, 's) controlClient =
  api :: "('e, 's) control_api"
  bootOnResume :: bool

definition newControlClient :: "('e, 's) control_api \<Rightarrow> bool \<Rightarrow> ('e, 's) controlClient" where
  "newControlClient a boot = \<lparr>api = a, bootOnResume = boot\<rparr>"

text \<open>
  \<^verbatim>\<open>wait.Backoff\<close> with the fields the client sets; durations in nanoseconds, the factor and the
  jitter in tenths.
\<close>

record backoff_config =
  Steps :: nat
  Duration :: int
  Factor10 :: nat
  Jitter10 :: nat

definition resume_backoff :: backoff_config where
  "resume_backoff = \<lparr>Steps = 7, Duration = 200 * 1000000, Factor10 = 15, Jitter10 = 2\<rparr>"

text \<open>
  One attempt: done, try again, or give up with an error, which the helper hands to its caller.
\<close>

type_synonym ('e, 's) condition = "'s \<Rightarrow> (bool \<times> 'e option) \<times> 's"

type_synonym ('e, 's) retry = "backoff_config \<Rightarrow> ('e, 's) condition \<Rightarrow> 's \<Rightarrow> 'e option \<times> 's"

definition resume_attempt :: "('e, 's) controlClient \<Rightarrow> ActorRef \<Rightarrow> ('e, 's) condition" where
  "resume_attempt c ref s =
     (let r = ResumeActor (api c) \<lparr>rr_ref = ref, rr_boot = bootOnResume c\<rparr> s
      in (case fst r of
            None \<Rightarrow> ((True, None), snd r)
          | Some e \<Rightarrow> if is_aborted (api c) e then ((False, None), snd r) else ((False, Some e), snd r)))"

text \<open>
  \<open>DoChan key fn\<close> is the singleflight group (it may run \<open>fn\<close> or share the outcome of a call
  under way for the same key); \<open>ctx_err\<close> is the caller's context error when the caller's context
  ends before the shared call does.
\<close>

definition Resume :: "('e, 's) retry \<Rightarrow> (bytes \<Rightarrow> ('s \<Rightarrow> 'e option \<times> 's) \<Rightarrow> 's \<Rightarrow> 'e option \<times> 's) \<Rightarrow>
    ('e, 's) controlClient \<Rightarrow> 'e option \<Rightarrow> ActorRef \<Rightarrow> 's \<Rightarrow> 'e option \<times> 's" where
  "Resume retry DoChan c ctx_err ref s =
     (let r = DoChan (ActorRef_String ref) (\<lambda>s. retry resume_backoff (resume_attempt c ref) s) s
      in (case ctx_err of Some e \<Rightarrow> (Some e, snd r) | None \<Rightarrow> r))"

definition Suspend :: "('e, 's) controlClient \<Rightarrow> ActorRef \<Rightarrow> 's \<Rightarrow> 'e option \<times> 's" where
  "Suspend c ref s = SuspendActor (api c) ref s"

datatype 'e locate_error = Listing 'e | NoRunningActor bytes

definition runs_at :: "bytes \<Rightarrow> actor_info \<Rightarrow> bool" where
  "runs_at ip a \<longleftrightarrow> info_pod_ip a = ip \<and> info_status a = STATUS_RUNNING"

definition info_ref :: "actor_info \<Rightarrow> ActorRef" where
  "info_ref a = \<lparr>Atespace = info_atespace a, Name = info_actor_id a\<rparr>"

text \<open>The page loop has no bound of its own: it ends when the server says there is no next page.\<close>

partial_function (option) locate_from ::
  "('e, 's) controlClient \<Rightarrow> bytes \<Rightarrow> bytes \<Rightarrow> 's \<Rightarrow> (('e locate_error + ActorRef) \<times> 's) option" where
  "locate_from c ip pageToken s =
     (let r = ListActors (api c) 1000 pageToken s
      in (case fst r of
            Inl e \<Rightarrow> Some (Inl (Listing e), snd r)
          | Inr page \<Rightarrow>
              (case find (runs_at ip) (page_actors page) of
                 Some a \<Rightarrow> Some (Inr (info_ref a), snd r)
               | None \<Rightarrow>
                   (if page_next page = [] then Some (Inl (NoRunningActor ip), snd r)
                    else locate_from c ip (page_next page) (snd r)))))"

definition LocateByPodIP ::
  "('e, 's) controlClient \<Rightarrow> bytes \<Rightarrow> 's \<Rightarrow> (('e locate_error + ActorRef) \<times> 's) option" where
  "LocateByPodIP c ip s = locate_from c ip [] s"

section \<open>Retrying\<close>

text \<open>
  What a run of attempts did: the first \<open>n\<close> attempts asked for another one, and \<open>s'\<close> is the state
  after them.
\<close>

fun retried :: "('e, 's) condition \<Rightarrow> nat \<Rightarrow> 's \<Rightarrow> 's option" where
  "retried cond 0 s = Some s"
| "retried cond (Suc n) s =
     (case cond s of (r, s') \<Rightarrow> if r = (False, None) then retried cond n s' else None)"

text \<open>
  The documented contract of the retry helper: it makes at most \<^verbatim>\<open>Steps\<close> attempts, another one
  only after an attempt asked for it, returns success only from an attempt that was done and an
  attempt's error as it is; any other error it returns is its own (time out or cancellation).
\<close>

locale retry_helper =
  fixes retry :: "('e, 's) retry" and own_error :: "'e \<Rightarrow> bool"
  assumes attempts: "retry b cond s = (res, s') \<Longrightarrow>
     (\<exists>n t. n < Steps b \<and> retried cond n s = Some t \<and>
        (cond t = ((True, None), s') \<and> res = None \<or>
         (\<exists>d e. cond t = ((d, Some e), s') \<and> res = Some e))) \<or>
     (\<exists>n e. n \<le> Steps b \<and> retried cond n s = Some s' \<and> res = Some e \<and> own_error e)"
begin

lemma success:
  assumes "retry b cond s = (None, s')"
  shows "\<exists>n t. n < Steps b \<and> retried cond n s = Some t \<and> cond t = ((True, None), s')"
  using attempts [OF assms] by auto

lemma failure:
  assumes "retry b cond s = (Some e, s')" "\<not> own_error e"
  shows "\<exists>n t d. n < Steps b \<and> retried cond n s = Some t \<and> cond t = ((d, Some e), s')"
  using attempts [OF assms(1)] assms(2) by auto

end

text \<open>
  The simplest helper with that contract, a bounded loop, shows that the contract can be met.
\<close>

fun poll :: "'e \<Rightarrow> nat \<Rightarrow> ('e, 's) condition \<Rightarrow> 's \<Rightarrow> 'e option \<times> 's" where
  "poll timeout 0 cond s = (Some timeout, s)"
| "poll timeout (Suc n) cond s =
     (case cond s of
        ((_, Some e), s') \<Rightarrow> (Some e, s')
      | ((True, None), s') \<Rightarrow> (None, s')
      | ((False, None), s') \<Rightarrow> poll timeout n cond s')"

lemma poll_attempts:
  assumes "poll timeout k cond s = (res, s')"
  shows "(\<exists>n t. n < k \<and> retried cond n s = Some t \<and>
        (cond t = ((True, None), s') \<and> res = None \<or>
         (\<exists>d e. cond t = ((d, Some e), s') \<and> res = Some e))) \<or>
     (\<exists>n e. n \<le> k \<and> retried cond n s = Some s' \<and> res = Some e \<and> e = timeout)"
  using assms
proof (induction k arbitrary: s)
  case 0
  then show ?case by auto
next
  case (Suc k)
  obtain d e t where c: "cond s = ((d, e), t)" by (metis surj_pair)
  show ?case
  proof (cases e)
    case (Some x)
    with c Suc.prems show ?thesis by (intro disjI1 exI [of _ 0]) (auto split: bool.splits)
  next
    case None
    show ?thesis
    proof (cases d)
      case True
      with c None Suc.prems show ?thesis by (intro disjI1 exI [of _ 0]) auto
    next
      case False
      with c None Suc.prems have "poll timeout k cond t = (res, s')" by simp
      from Suc.IH [OF this] show ?thesis
      proof (elim disjE exE conjE)
        fix n u assume n: "n < k" "retried cond n t = Some u"
          "cond u = ((True, None), s')" "res = None"
        then show ?thesis using c None False by (intro disjI1 exI [of _ "Suc n"] exI [of _ u]) auto
      next
        fix n u d' e' assume n: "n < k" "retried cond n t = Some u"
          "cond u = ((d', Some e'), s')" "res = Some e'"
        then show ?thesis using c None False by (intro disjI1 exI [of _ "Suc n"] exI [of _ u]) auto
      next
        fix n e' assume n: "n \<le> k" "retried cond n t = Some s'" "res = Some e'" "e' = timeout"
        then show ?thesis using c None False by (intro disjI2 exI [of _ "Suc n"] exI [of _ e']) auto
      qed
    qed
  qed
qed

definition poll_retry :: "'e \<Rightarrow> ('e, 's) retry" where
  "poll_retry timeout b cond s = poll timeout (Steps b) cond s"

interpretation polling: retry_helper "poll_retry timeout" "\<lambda>e. e = timeout" for timeout
  by unfold_locales (unfold poll_retry_def, rule poll_attempts)

section \<open>Resuming\<close>

text \<open>An attempt asks for another one exactly when the control plane answered Aborted.\<close>

definition resume_call :: "('e, 's) controlClient \<Rightarrow> ActorRef \<Rightarrow> 's \<Rightarrow> 'e option \<times> 's" where
  "resume_call c ref s = ResumeActor (api c) \<lparr>rr_ref = ref, rr_boot = bootOnResume c\<rparr> s"

lemma resume_attempt_result:
  "resume_attempt c ref s = ((case fst (resume_call c ref s) of None \<Rightarrow> (True, None)
     | Some e \<Rightarrow> (False, if is_aborted (api c) e then None else Some e)), snd (resume_call c ref s))"
  by (simp add: resume_attempt_def resume_call_def Let_def split: option.split)

lemma resume_attempt_cases:
  "resume_attempt c ref s = ((True, None), t) \<longleftrightarrow> resume_call c ref s = (None, t)"
  "resume_attempt c ref s = ((False, None), t) \<longleftrightarrow> (\<exists>e. resume_call c ref s = (Some e, t) \<and> is_aborted (api c) e)"
  "resume_attempt c ref s = ((d, Some e), t) \<longleftrightarrow> \<not> d \<and> resume_call c ref s = (Some e, t) \<and> \<not> is_aborted (api c) e"
  by (cases "resume_call c ref s", cases "fst (resume_call c ref s)"; auto simp: resume_attempt_result)+

text \<open>\<open>n\<close> calls in a row that the control plane aborted.\<close>

fun aborted_calls :: "('e, 's) controlClient \<Rightarrow> ActorRef \<Rightarrow> nat \<Rightarrow> 's \<Rightarrow> 's \<Rightarrow> bool" where
  "aborted_calls c ref 0 s t \<longleftrightarrow> s = t"
| "aborted_calls c ref (Suc n) s t \<longleftrightarrow>
     (case resume_call c ref s of
        (Some e, u) \<Rightarrow> is_aborted (api c) e \<and> aborted_calls c ref n u t
      | (None, u) \<Rightarrow> False)"

lemma retried_aborted: "retried (resume_attempt c ref) n s = Some t \<longleftrightarrow> aborted_calls c ref n s t"
proof (induction n arbitrary: s)
  case (Suc n)
  obtain r u where "resume_call c ref s = (r, u)" by (cases "resume_call c ref s")
  with Suc show ?case by (cases r) (simp_all add: resume_attempt_result)
qed simp

text \<open>
  What an answer of \<open>Resume\<close> means when no other call for the actor is under way: a success comes from a
  call that was accepted after fewer than seven that were aborted, and an error that is not the retry
  helper's own from a call that failed otherwise.
\<close>

definition resumed_by :: "('e, 's) controlClient \<Rightarrow> ActorRef \<Rightarrow> 's \<Rightarrow> 'e option \<times> 's \<Rightarrow> bool" where
  "resumed_by c ref s r \<longleftrightarrow> (\<exists>n < 7. \<exists>t. aborted_calls c ref n s t \<and> resume_call c ref t = r)"

lemma resumed_byI:
  assumes "n < 7" "retried (resume_attempt c ref) n s = Some t" "resume_call c ref t = r"
  shows "resumed_by c ref s r"
  using assms unfolding resumed_by_def retried_aborted by blast

lemma resume_success:
  assumes "retry_helper retry own" "DoChan (ActorRef_String r) = (\<lambda>fn. fn)" "Resume retry DoChan c ctx r s = (None, s')"
  shows "resumed_by c r s (None, s')"
proof -
  have run: "retry resume_backoff (resume_attempt c r) s = (None, s')"
    using assms(2,3) by (simp add: Resume_def Let_def split: option.splits)
  from retry_helper.success [OF assms(1) run] obtain n t where
    n: "n < Steps resume_backoff" "retried (resume_attempt c r) n s = Some t" "resume_attempt c r t = ((True, None), s')" by blast
  then have "n < 7" "resume_call c r t = (None, s')" by (simp_all add: resume_backoff_def resume_attempt_cases)
  with n(2) show ?thesis by (intro resumed_byI)
qed

lemma resume_failure:
  assumes "retry_helper retry own" "DoChan (ActorRef_String r) = (\<lambda>fn. fn)" "Resume retry DoChan c None r s = (Some e, s')" "\<not> own e"
  shows "\<not> is_aborted (api c) e \<and> resumed_by c r s (Some e, s')"
proof -
  have run: "retry resume_backoff (resume_attempt c r) s = (Some e, s')"
    using assms(2,3) by (simp add: Resume_def Let_def)
  from retry_helper.failure [OF assms(1) run assms(4)] obtain n t d where
    n: "n < Steps resume_backoff" "retried (resume_attempt c r) n s = Some t" "resume_attempt c r t = ((d, Some e), s')" by blast
  then have "n < 7" "\<not> is_aborted (api c) e" "resume_call c r t = (Some e, s')" by (simp_all add: resume_backoff_def resume_attempt_cases)
  with n(2) show ?thesis by (intro conjI resumed_byI)
qed

section \<open>Locating\<close>

text \<open>The pages a listing visits, each one asked for with the token of the one before.\<close>

inductive visits :: "('e, 's) controlClient \<Rightarrow> bytes \<Rightarrow> 's \<Rightarrow> actor_page list \<Rightarrow> bytes \<Rightarrow> 's \<Rightarrow> bool" for c where
  visits_Nil: "visits c tok s [] tok s"
| visits_Cons: "\<lbrakk>ListActors (api c) 1000 tok s = (Inr page, u); page_next page \<noteq> [];
     visits c (page_next page) u pages tok' t\<rbrakk> \<Longrightarrow> visits c tok s (page # pages) tok' t"

inductive_cases visits_ConsE: "visits c tok s (page # pages) tok' t"

text \<open>
  What an answer of the search means: no page before the last one has a match, and the last page
  decides.
\<close>

definition page_answer :: "('e, 's) controlClient \<Rightarrow> bytes \<Rightarrow> bytes \<Rightarrow> 's \<Rightarrow> ('e locate_error + ActorRef) \<times> 's \<Rightarrow> bool" where
  "page_answer c ip tok s r \<longleftrightarrow> (case ListActors (api c) 1000 tok s of
       (Inl e, u) \<Rightarrow> r = (Inl (Listing e), u)
     | (Inr page, u) \<Rightarrow>
         (case find (runs_at ip) (page_actors page) of
            Some a \<Rightarrow> r = (Inr (info_ref a), u)
          | None \<Rightarrow> page_next page = [] \<and> r = (Inl (NoRunningActor ip), u)))"

definition located :: "('e, 's) controlClient \<Rightarrow> bytes \<Rightarrow> bytes \<Rightarrow> 's \<Rightarrow> ('e locate_error + ActorRef) \<times> 's \<Rightarrow> bool" where
  "located c ip tok s r \<longleftrightarrow> (\<exists>pages tok' t. visits c tok s pages tok' t \<and>
    (\<forall>p \<in> set pages. \<forall>a \<in> set (page_actors p). \<not> runs_at ip a) \<and> page_answer c ip tok' t r)"

lemma located_here: "page_answer c ip tok s r \<Longrightarrow> located c ip tok s r"
  unfolding located_def by (intro exI [of _ "[]"] exI [of _ tok] exI [of _ s]) (simp add: visits_Nil)

lemma located_later:
  assumes "ListActors (api c) 1000 tok s = (Inr page, u)" "find (runs_at ip) (page_actors page) = None"
    "page_next page \<noteq> []" "located c ip (page_next page) u r"
  shows "located c ip tok s r"
proof -
  have none: "\<forall>a \<in> set (page_actors page). \<not> runs_at ip a" using assms(2) by (simp add: find_None_iff)
  from assms(4) obtain pages tok' t where v: "visits c (page_next page) u pages tok' t"
    and "\<forall>p \<in> set pages. \<forall>a \<in> set (page_actors p). \<not> runs_at ip a" and last: "page_answer c ip tok' t r"
    unfolding located_def by blast
  with none have "\<forall>p \<in> set (page # pages). \<forall>a \<in> set (page_actors p). \<not> runs_at ip a" by simp
  with last visits_Cons [OF assms(1,3) v] show ?thesis unfolding located_def by blast
qed

lemma locate_from_located:
  assumes "locate_from c ip tok s = Some r"
  shows "located c ip tok s r"
proof (rule locate_from.raw_induct [OF _ assms])
  fix rec :: "('e, 's) controlClient \<Rightarrow> bytes \<Rightarrow> bytes \<Rightarrow> 's \<Rightarrow> (('e locate_error + ActorRef) \<times> 's) option"
    and c :: "('e, 's) controlClient" and ip tok s y
  assume IH: "\<And>c ip tok s y. rec c ip tok s = Some y \<Longrightarrow> located c ip tok s y"
    and body: "(let r = ListActors (api c) 1000 tok s
      in (case fst r of
            Inl e \<Rightarrow> Some (Inl (Listing e), snd r)
          | Inr page \<Rightarrow>
              (case find (runs_at ip) (page_actors page) of
                 Some a \<Rightarrow> Some (Inr (info_ref a), snd r)
               | None \<Rightarrow>
                   (if page_next page = [] then Some (Inl (NoRunningActor ip), snd r)
                    else rec c ip (page_next page) (snd r))))) = Some y"
  obtain r u where r: "ListActors (api c) 1000 tok s = (r, u)" by (cases "ListActors (api c) 1000 tok s")
  show "located c ip tok s y"
  proof (cases r)
    case (Inl e)
    with r body show ?thesis by (intro located_here) (simp add: page_answer_def)
  next
    case (Inr page)
    note page = r [unfolded Inr]
    show ?thesis
    proof (cases "find (runs_at ip) (page_actors page) = None \<and> page_next page \<noteq> []")
      case True
      with page body have "rec c ip (page_next page) u = Some y" by simp
      with IH located_later [OF page] True show ?thesis by blast
    next
      case False
      with page body show ?thesis
        by (intro located_here) (auto simp: page_answer_def Let_def split: option.splits if_splits)
    qed
  qed
qed

text \<open>The search ends when the listing does: at a page with no successor, or at an error.\<close>

lemma locate_from_step:
  "ListActors (api c) 1000 tok s = (Inr page, u) \<Longrightarrow> find (runs_at ip) (page_actors page) = None \<Longrightarrow>
     page_next page \<noteq> [] \<Longrightarrow> locate_from c ip tok s = locate_from c ip (page_next page) u"
  by (subst locate_from.simps) simp

lemma locate_from_ends:
  assumes "visits c tok s pages tok' t"
    and "\<And>page u. ListActors (api c) 1000 tok' t = (Inr page, u) \<Longrightarrow> page_next page = []"
  shows "\<exists>r. locate_from c ip tok s = Some r"
  using assms
proof (induction rule: visits.induct)
  case (visits_Nil tok s)
  obtain r u where "ListActors (api c) 1000 tok s = (r, u)" by (cases "ListActors (api c) 1000 tok s")
  with visits_Nil show ?case by (subst locate_from.simps) (cases r; auto simp: Let_def split: option.splits)
next
  case (visits_Cons tok s page u pages tok' t)
  show ?case
  proof (cases "find (runs_at ip) (page_actors page)")
    case None
    with locate_from_step [OF visits_Cons(1) None visits_Cons(2)] visits_Cons show ?thesis by simp
  next
    case (Some a)
    with visits_Cons(1) show ?thesis by (subst locate_from.simps) simp
  qed
qed

end
