(* ===== verification/Session.thy ===== *)
theory Session
  imports Frames AteApi "HOL-Library.AList"
begin

text \<open>
  The session of one actor, \<^verbatim>\<open>cmd/egress-broker/registry.go\<close>: the buffer of events that wait for
  the actor's acknowledgement, the stamping of fresh envelope ids, attaching and detaching the
  actor's connection, the settle and idle timers, and suspending and resuming from the broker.

  A session is the Go struct together with the part of the run time its methods act on: the
  timers that are armed, the goroutines that are waiting to run, the reads of the random source
  and the log of the calls that leave the process. What such a call returns is the parameter
  \<open>answer\<close>, indexed by the number of calls before it. Each region the code protects by
  \<^verbatim>\<open>s.mu\<close> is one definition (\<open>..._locked\<close>), and each method is composed of them as the code does;
  logging is left out.
\<close>

section \<open>State\<close>

text \<open>An actor-facing connection is known by its identity, as Go compares the pointers.\<close>

type_synonym sink_id = nat

record pendingEvent =
  event_key :: u64
  event_raw :: bytes

datatype timer_fn = IdleCallback | DeliverCallback sink_id

text \<open>What a goroutine still has to do, one element per region that runs without interruption.\<close>

datatype task =
    OnEvent bytes
  | WriteToSink sink_id "bytes list"
  | WriteNext sink_id "bytes list"
  | WriteSend sink_id bytes "bytes list"
  | NoteActivity
  | OnIdle
  | SuspendCall
  | SuspendFailed
  | ResumeActor_call
  | ResumeFailed
  | AttachSink sink_id
  | AttachHeld sink_id duration nat
  | AttachTimer sink_id
  | DeliverBuffered sink_id
  | ServeSocket sink_id
  | DetachSink sink_id
  | AckEvent bytes
  | BeginForward
  | ForwardCall
  | EndForward
  | Start bytes
  | CloseSession
  | RunSlack duration
  | ReadToken duration
  | DialSlack bytes duration
  | SleepSlack duration
  | ReadLoop
  | ReadFrame
  | AckSlack bytes
  | CloseConn
  | StopCheck

datatype action =
    OWrite sink_id bytes
  | OSuspend ActorRef
  | OResume ActorRef
  | OForward
  | ODial bytes
  | ORead
  | OSlackAck bytes
  | OSleep duration
  | OConnClose

datatype reply = Fail | Ok | OkFrame bytes

record config =
  deliverDelay :: duration
  idleGrace :: duration
  rand_src :: rand_source
  answer :: "nat \<Rightarrow> reply"

record session =
  ref :: ActorRef
  appToken :: bytes
  started :: bool
  closed :: bool
  stop :: "bool option"
  sink :: "sink_id option"
  resuming :: bool
  buffer :: "pendingEvent list"
  nextKey :: u64
  freshIDs :: "(bytes \<times> u64) list option"
  settled :: bool
  deliverTmr :: "nat option"
  idleTmr :: "nat option"
  inFlight :: int
  suspending :: bool
  sinkWrite :: bool
  timers :: "(nat \<times> timer_fn) list"
  nextTimer :: nat
  nextSink :: sink_id
  draws :: nat
  out :: "action list"
  gos :: "task list list"

text \<open>
  The session \<^verbatim>\<open>GetOrCreate\<close> makes. \<open>stop\<close> is the channel: nil, open or closed; \<open>freshIDs\<close> is the
  map: nil or its entries; \<open>sinkWrite\<close> says that the write lock is held.
\<close>

definition new_session :: "ActorRef \<Rightarrow> session" where
  "new_session r = \<lparr>ref = r, appToken = [], started = False, closed = False, stop = None, sink = None,
     resuming = False, buffer = [], nextKey = 0, freshIDs = Some [], settled = False, deliverTmr = None,
     idleTmr = None, inFlight = 0, suspending = False, sinkWrite = False, timers = [], nextTimer = 0,
     nextSink = 0, draws = 0, out = [], gos = []\<rparr>"

section \<open>The run time\<close>

definition AfterFunc :: "timer_fn \<Rightarrow> session \<Rightarrow> nat \<times> session" where
  "AfterFunc fn s = (nextTimer s, s\<lparr>timers := timers s @ [(nextTimer s, fn)], nextTimer := nextTimer s + 1\<rparr>)"

definition Stop :: "nat \<Rightarrow> session \<Rightarrow> session" where
  "Stop t s = s\<lparr>timers := filter (\<lambda>(i, fn). i \<noteq> t) (timers s)\<rparr>"

definition go :: "task list \<Rightarrow> session \<Rightarrow> session" where
  "go g s = s\<lparr>gos := gos s @ [g]\<rparr>"

definition io :: "config \<Rightarrow> action \<Rightarrow> session \<Rightarrow> reply \<times> session" where
  "io c a s = (answer c (length (out s)), s\<lparr>out := out s @ [a]\<rparr>)"

section \<open>Idle suspend\<close>

definition stop_idle :: "session \<Rightarrow> session" where
  "stop_idle s = (case idleTmr s of None \<Rightarrow> s | Some t \<Rightarrow> (Stop t s)\<lparr>idleTmr := None\<rparr>)"

definition stop_deliver :: "session \<Rightarrow> session" where
  "stop_deliver s = (case deliverTmr s of None \<Rightarrow> s | Some t \<Rightarrow> (Stop t s)\<lparr>deliverTmr := None\<rparr>)"

definition armIdleLocked :: "config \<Rightarrow> session \<Rightarrow> session" where
  "armIdleLocked c s =
     (let s1 = stop_idle s
      in if sink s1 = None \<or> suspending s1 \<or> inFlight s1 > 0 \<or> idleGrace c \<le>s 0 then s1
         else (let a = AfterFunc IdleCallback s1 in (snd a)\<lparr>idleTmr := Some (fst a)\<rparr>))"

definition noteActivity :: "config \<Rightarrow> session \<Rightarrow> session" where
  "noteActivity c s = armIdleLocked c s"

definition onIdle_locked :: "session \<Rightarrow> bool \<times> session" where
  "onIdle_locked s =
     (if sink s = None \<or> suspending s \<or> inFlight s > 0 then (False, s)
      else (True, s\<lparr>suspending := True\<rparr>))"

definition suspend_failed_locked :: "config \<Rightarrow> session \<Rightarrow> session" where
  "suspend_failed_locked c s = armIdleLocked c (s\<lparr>suspending := False\<rparr>)"

definition onIdle :: "config \<Rightarrow> session \<Rightarrow> session" where
  "onIdle c s =
     (let g = onIdle_locked s
      in if \<not> fst g then snd g
         else (let r = io c (OSuspend (ref s)) (snd g)
               in if fst r = Fail then suspend_failed_locked c (snd r) else snd r))"

definition beginForward :: "session \<Rightarrow> session" where
  "beginForward s = stop_idle (s\<lparr>inFlight := inFlight s + 1\<rparr>)"

definition endForward :: "config \<Rightarrow> session \<Rightarrow> session" where
  "endForward c s = armIdleLocked c (if inFlight s > 0 then s\<lparr>inFlight := inFlight s - 1\<rparr> else s)"

section \<open>Stamping and writing\<close>

definition stampLocked :: "config \<Rightarrow> pendingEvent \<Rightarrow> session \<Rightarrow> go_panic + bytes \<times> session" where
  "stampLocked c e s =
     (let m = (case freshIDs s of None \<Rightarrow> [] | Some m \<Rightarrow> m);
          fresh = randID (rand_src c) (draws s);
          s1 = s\<lparr>draws := draws s + 1, freshIDs := Some (AList.update fresh (event_key e) m)\<rparr>
      in (case rewriteEnvelopeID (event_raw e) fresh of Inl p \<Rightarrow> Inl p | Inr f \<Rightarrow> Inr (f, s1)))"

fun build_frames :: "config \<Rightarrow> pendingEvent list \<Rightarrow> session \<Rightarrow> go_panic + bytes list \<times> session" where
  "build_frames c [] s = Inr ([], s)"
| "build_frames c (e # es) s =
     (case stampLocked c e s of
        Inl p \<Rightarrow> Inl p
      | Inr r \<Rightarrow> (case build_frames c es (snd r) of Inl p \<Rightarrow> Inl p | Inr r' \<Rightarrow> Inr (fst r # fst r', snd r')))"

definition buildEventFramesLocked :: "config \<Rightarrow> session \<Rightarrow> go_panic + bytes list \<times> session" where
  "buildEventFramesLocked c s = build_frames c (buffer s) s"

fun write_frames :: "config \<Rightarrow> sink_id \<Rightarrow> bytes list \<Rightarrow> session \<Rightarrow> session" where
  "write_frames c sk [] s = s"
| "write_frames c sk (f # fs) s =
     (if sink s \<noteq> Some sk then s
      else (let r = io c (OWrite sk f) s in if fst r = Fail then snd r else write_frames c sk fs (snd r)))"

definition writeToSink :: "config \<Rightarrow> sink_id \<Rightarrow> bytes list \<Rightarrow> session \<Rightarrow> session" where
  "writeToSink c sk frames s = (write_frames c sk frames (s\<lparr>sinkWrite := True\<rparr>))\<lparr>sinkWrite := False\<rparr>"

section \<open>Events and acknowledgements\<close>

text \<open>What \<^verbatim>\<open>onEvent\<close> does once it has released the lock: the cases of its switch.\<close>

datatype event_plan = DeliverNow sink_id "bytes list" | HoldBuffered | ResumeNow | AlreadyResuming

definition onEvent_locked :: "config \<Rightarrow> bytes \<Rightarrow> session \<Rightarrow> go_panic + event_plan \<times> session" where
  "onEvent_locked c raw s =
     (let pe = \<lparr>event_key = nextKey s, event_raw = raw\<rparr>;
          needResume = (sink s = None \<and> \<not> resuming s);
          s1 = s\<lparr>nextKey := nextKey s + 1, buffer := buffer s @ [pe],
                 resuming := (if needResume then True else resuming s)\<rparr>
      in (case sink s of
            Some sk \<Rightarrow>
              (if settled s then
                 (case stampLocked c pe s1 of Inl p \<Rightarrow> Inl p | Inr r \<Rightarrow> Inr (DeliverNow sk [fst r], snd r))
               else Inr (HoldBuffered, s1))
          | None \<Rightarrow> Inr (if needResume then ResumeNow else AlreadyResuming, s1)))"

definition onEvent :: "config \<Rightarrow> bytes \<Rightarrow> session \<Rightarrow> go_panic + session" where
  "onEvent c raw s = (case onEvent_locked c raw s of
     Inl p \<Rightarrow> Inl p
   | Inr r \<Rightarrow> Inr (case fst r of
       DeliverNow sk frames \<Rightarrow> noteActivity c (writeToSink c sk frames (snd r))
     | HoldBuffered \<Rightarrow> snd r
     | ResumeNow \<Rightarrow> go [ResumeActor_call] (snd r)
     | AlreadyResuming \<Rightarrow> snd r))"

text \<open>Removing the first event with a key, as the loop with its \<^verbatim>\<open>break\<close> does.\<close>

fun remove_key :: "u64 \<Rightarrow> pendingEvent list \<Rightarrow> pendingEvent list" where
  "remove_key k [] = []"
| "remove_key k (e # es) = (if event_key e = k then es else e # remove_key k es)"

definition fresh_map :: "session \<Rightarrow> bytes \<Rightarrow> u64 option" where
  "fresh_map s = map_of (case freshIDs s of None \<Rightarrow> [] | Some m \<Rightarrow> m)"

definition Ack_event :: "config \<Rightarrow> bytes \<Rightarrow> session \<Rightarrow> session" where
  "Ack_event c i s =
     (if i = [] then s
      else (case fresh_map s i of
         None \<Rightarrow> s
       | Some k \<Rightarrow> armIdleLocked c
           (s\<lparr>buffer := remove_key k (buffer s),
              freshIDs := map_option (filter (\<lambda>(fid, k'). k' \<noteq> k)) (freshIDs s)\<rparr>)))"

section \<open>Resuming, attaching and detaching\<close>

definition resume_failed_locked :: "session \<Rightarrow> session" where
  "resume_failed_locked s = s\<lparr>resuming := False\<rparr>"

definition resumeActor :: "config \<Rightarrow> session \<Rightarrow> session" where
  "resumeActor c s =
     (let r = io c (OResume (ref s)) s in if fst r = Fail then resume_failed_locked (snd r) else snd r)"

definition deliver_locked :: "config \<Rightarrow> sink_id \<Rightarrow> session \<Rightarrow> go_panic + bytes list option \<times> session" where
  "deliver_locked c sk s =
     (if sink s \<noteq> Some sk \<or> settled s then Inr (None, s)
      else (case buildEventFramesLocked c (stop_deliver (s\<lparr>settled := True\<rparr>)) of
              Inl p \<Rightarrow> Inl p
            | Inr r \<Rightarrow> Inr (Some (fst r), snd r)))"

definition deliverBufferedNow :: "config \<Rightarrow> sink_id \<Rightarrow> session \<Rightarrow> go_panic + session" where
  "deliverBufferedNow c sk s = (case deliver_locked c sk s of
     Inl p \<Rightarrow> Inl p
   | Inr r \<Rightarrow> Inr (case fst r of
       None \<Rightarrow> snd r
     | Some frames \<Rightarrow> noteActivity c (writeToSink c sk frames (snd r))))"

definition MarkReady :: "config \<Rightarrow> sink_id \<Rightarrow> session \<Rightarrow> go_panic + session" where
  "MarkReady c sk s = deliverBufferedNow c sk s"

definition attach_locked :: "sink_id \<Rightarrow> session \<Rightarrow> session" where
  "attach_locked sk s = stop_deliver (s\<lparr>sink := Some sk, resuming := False, settled := False\<rparr>)"

definition attach_timer_locked :: "sink_id \<Rightarrow> session \<Rightarrow> session" where
  "attach_timer_locked sk s =
     (let a = AfterFunc (DeliverCallback sk) s in (snd a)\<lparr>deliverTmr := Some (fst a)\<rparr>)"

definition Attach :: "config \<Rightarrow> sink_id \<Rightarrow> session \<Rightarrow> go_panic + session" where
  "Attach c sk s =
     (let s1 = attach_locked sk s;
          delay = deliverDelay c;
          buffered = length (buffer s1);
          s2 = writeToSink c sk [helloFrame] s1
      in if buffered = 0 then deliverBufferedNow c sk s2
         else if 0 <s delay then Inr (attach_timer_locked sk s2) else Inr s2)"

definition Detach :: "sink_id \<Rightarrow> session \<Rightarrow> session" where
  "Detach sk s =
     (if sink s = Some sk
      then stop_idle (stop_deliver (s\<lparr>sink := None, settled := False, suspending := False, inFlight := 0\<rparr>))
      else s)"

section \<open>Starting and stopping\<close>

definition second :: duration where
  "second = 1000000000"

definition EnsureStarted :: "bytes \<Rightarrow> session \<Rightarrow> session" where
  "EnsureStarted token s =
     (let s1 = s\<lparr>appToken := token\<rparr>
      in if started s1 \<or> closed s1 then s1
         else go [RunSlack second] (s1\<lparr>started := True, stop := Some False\<rparr>))"

definition Close :: "session \<Rightarrow> session" where
  "Close s =
     (if closed s then s
      else (s\<lparr>closed := True, stop := (case stop s of None \<Rightarrow> None | Some _ \<Rightarrow> Some True)\<rparr>))"

definition stopped :: "session \<Rightarrow> bool" where
  "stopped s \<longleftrightarrow> stop s = Some True"

definition nextBackoff :: "duration \<Rightarrow> duration" where
  "nextBackoff d = (let m = 30 * second; d' = d * 2 in if m <s d' then m else d')"

text \<open>
  \<^verbatim>\<open>sleepOrStop\<close>: the timer wins unless the channel is closed, and then either may; \<^verbatim>\<open>select\<close> does
  not prefer one.
\<close>

definition sleepOrStop :: "config \<Rightarrow> duration \<Rightarrow> session \<Rightarrow> bool \<times> session" where
  "sleepOrStop c d s = (let r = io c (OSleep d) s in (\<not> (stopped s \<and> fst r = Fail), snd r))"

section \<open>Facts: the timers\<close>

lemmas timer_defs = AfterFunc_def Stop_def stop_idle_def stop_deliver_def armIdleLocked_def attach_timer_locked_def

lemma stop_idle_fields [simp]:
  "ref (stop_idle s) = ref s" "appToken (stop_idle s) = appToken s" "started (stop_idle s) = started s"
  "closed (stop_idle s) = closed s" "stop (stop_idle s) = stop s" "sink (stop_idle s) = sink s"
  "resuming (stop_idle s) = resuming s" "buffer (stop_idle s) = buffer s" "nextKey (stop_idle s) = nextKey s"
  "freshIDs (stop_idle s) = freshIDs s" "settled (stop_idle s) = settled s" "deliverTmr (stop_idle s) = deliverTmr s"
  "inFlight (stop_idle s) = inFlight s" "suspending (stop_idle s) = suspending s" "sinkWrite (stop_idle s) = sinkWrite s"
  "nextSink (stop_idle s) = nextSink s" "nextTimer (stop_idle s) = nextTimer s" "draws (stop_idle s) = draws s"
  "out (stop_idle s) = out s" "gos (stop_idle s) = gos s" "idleTmr (stop_idle s) = None"
  by (simp_all add: timer_defs split: option.split)

lemma stop_deliver_fields [simp]:
  "ref (stop_deliver s) = ref s" "appToken (stop_deliver s) = appToken s" "started (stop_deliver s) = started s"
  "closed (stop_deliver s) = closed s" "stop (stop_deliver s) = stop s" "sink (stop_deliver s) = sink s"
  "resuming (stop_deliver s) = resuming s" "buffer (stop_deliver s) = buffer s" "nextKey (stop_deliver s) = nextKey s"
  "freshIDs (stop_deliver s) = freshIDs s" "settled (stop_deliver s) = settled s" "idleTmr (stop_deliver s) = idleTmr s"
  "inFlight (stop_deliver s) = inFlight s" "suspending (stop_deliver s) = suspending s" "sinkWrite (stop_deliver s) = sinkWrite s"
  "nextSink (stop_deliver s) = nextSink s" "nextTimer (stop_deliver s) = nextTimer s" "draws (stop_deliver s) = draws s"
  "out (stop_deliver s) = out s" "gos (stop_deliver s) = gos s" "deliverTmr (stop_deliver s) = None"
  by (simp_all add: timer_defs split: option.split)

lemma armIdleLocked_fields [simp]:
  "ref (armIdleLocked c s) = ref s" "appToken (armIdleLocked c s) = appToken s" "started (armIdleLocked c s) = started s"
  "closed (armIdleLocked c s) = closed s" "stop (armIdleLocked c s) = stop s" "sink (armIdleLocked c s) = sink s"
  "resuming (armIdleLocked c s) = resuming s" "buffer (armIdleLocked c s) = buffer s" "nextKey (armIdleLocked c s) = nextKey s"
  "freshIDs (armIdleLocked c s) = freshIDs s" "settled (armIdleLocked c s) = settled s" "deliverTmr (armIdleLocked c s) = deliverTmr s"
  "inFlight (armIdleLocked c s) = inFlight s" "suspending (armIdleLocked c s) = suspending s" "sinkWrite (armIdleLocked c s) = sinkWrite s"
  "nextSink (armIdleLocked c s) = nextSink s" "draws (armIdleLocked c s) = draws s" "out (armIdleLocked c s) = out s"
  "gos (armIdleLocked c s) = gos s"
  by (simp_all add: armIdleLocked_def AfterFunc_def Let_def)

lemma attach_timer_fields [simp]:
  "ref (attach_timer_locked sk s) = ref s" "appToken (attach_timer_locked sk s) = appToken s" "started (attach_timer_locked sk s) = started s"
  "closed (attach_timer_locked sk s) = closed s" "stop (attach_timer_locked sk s) = stop s" "sink (attach_timer_locked sk s) = sink s"
  "resuming (attach_timer_locked sk s) = resuming s" "buffer (attach_timer_locked sk s) = buffer s" "nextKey (attach_timer_locked sk s) = nextKey s"
  "freshIDs (attach_timer_locked sk s) = freshIDs s" "settled (attach_timer_locked sk s) = settled s" "idleTmr (attach_timer_locked sk s) = idleTmr s"
  "inFlight (attach_timer_locked sk s) = inFlight s" "suspending (attach_timer_locked sk s) = suspending s" "sinkWrite (attach_timer_locked sk s) = sinkWrite s"
  "nextSink (attach_timer_locked sk s) = nextSink s" "draws (attach_timer_locked sk s) = draws s" "out (attach_timer_locked sk s) = out s"
  "gos (attach_timer_locked sk s) = gos s"
  by (simp_all add: attach_timer_locked_def AfterFunc_def Let_def)

section \<open>Facts: stamping\<close>

text \<open>An event frame as the read loop accepts it.\<close>

definition is_event_raw :: "bytes \<Rightarrow> bool" where
  "is_event_raw r = (case DecodeEnvelope r of Inl _ \<Rightarrow> False | Inr e \<Rightarrow> IsEvent e)"

lemma is_event_rawE:
  assumes "is_event_raw r"
  obtains e where "DecodeEnvelope r = Inr e" "IsEvent e"
  using assms by (cases "DecodeEnvelope r") (auto simp: is_event_raw_def)

lemma nibbles: "unat (b :: 8 word) div 16 < 16" "unat b mod 16 < 16"
proof -
  have "unat b < 2 ^ LENGTH(8)" by (rule unsigned_less)
  then show "unat b div 16 < 16" by (simp add: less_mult_imp_div_less)
qed simp

lemma hex_ascii: "c \<in> set (hex_EncodeToString bs) \<Longrightarrow> byte c < 128"
proof -
  assume "c \<in> set (hex_EncodeToString bs)"
  then obtain n where n: "c = hex_digit n" "n < 16"
    using nibbles by (auto simp: hex_EncodeToString_def hex_byte_def)
  then show "byte c < 128" by (simp add: byte_hex_digit)
qed

lemma hex_byte_inject: "hex_byte a = hex_byte b \<longleftrightarrow> a = b"
proof
  assume "hex_byte a = hex_byte b"
  then have "hex_value (hex_digit (unat a div 16)) = hex_value (hex_digit (unat b div 16))"
    "hex_value (hex_digit (unat a mod 16)) = hex_value (hex_digit (unat b mod 16))" by (simp_all add: hex_byte_def)
  then have "unat a div 16 = unat b div 16" "unat a mod 16 = unat b mod 16" using nibbles by (simp_all only: hex_value_hex_digit)
  then have "unat a = unat b" by (metis div_mult_mod_eq)
  then show "a = b" by (simp add: word_unat_eq_iff)
qed simp

lemma hex_EncodeToString_inject: "hex_EncodeToString as = hex_EncodeToString bs \<longleftrightarrow> as = bs"
proof (induction as arbitrary: bs)
  case Nil
  show ?case by (cases bs) (simp_all add: hex_EncodeToString_def hex_byte_def)
next
  case (Cons a as)
  show ?case
  proof (cases bs)
    case Nil
    then show ?thesis by (simp add: hex_EncodeToString_def hex_byte_def)
  next
    case (Cons b bs')
    have "hex_byte a @ x = hex_byte b @ y \<longleftrightarrow> hex_byte a = hex_byte b \<and> x = y" for x y
      by (intro append_eq_append_conv) (simp add: hex_byte_def)
    then show ?thesis using Cons.IH [of bs'] Cons by (simp add: hex_EncodeToString_def hex_byte_inject)
  qed
qed

text \<open>Two ids are equal exactly when the random source delivered the same twelve bytes.\<close>

lemma randID_inject: "randID src i = randID src j \<longleftrightarrow> rand_Read src i 12 = rand_Read src j 12"
  by (simp only: randID_def hex_EncodeToString_inject)

lemma valid_utf8_randID: "valid_utf8 (randID src k)"
  unfolding randID_def by (rule valid_utf8_ascii) (simp add: list_all_iff hex_ascii)

lemma rewrite_event:
  assumes "is_event_raw r"
  obtains f e where "rewriteEnvelopeID r (randID src k) = Inr f" "DecodeEnvelope f = Inr e"
    "EnvelopeID e = randID src k"
  using assms rewriteEnvelopeID_event [OF _ event_not_null valid_utf8_randID] by (elim is_event_rawE) blast

definition fresh_entries :: "session \<Rightarrow> (bytes \<times> u64) list" where
  "fresh_entries s = (case freshIDs s of None \<Rightarrow> [] | Some m \<Rightarrow> m)"

lemma fresh_map_entries: "fresh_map s = map_of (fresh_entries s)"
  by (simp add: fresh_map_def fresh_entries_def)

text \<open>The entries after a run of stamps: the events numbered by the read that made their id.\<close>

fun stamp_entries :: "rand_source \<Rightarrow> nat \<Rightarrow> pendingEvent list \<Rightarrow> (bytes \<times> u64) list \<Rightarrow> (bytes \<times> u64) list" where
  "stamp_entries src k [] m = m"
| "stamp_entries src k (e # es) m = stamp_entries src (Suc k) es (AList.update (randID src k) (event_key e) m)"

definition stamp_state :: "config \<Rightarrow> pendingEvent list \<Rightarrow> session \<Rightarrow> session" where
  "stamp_state c es s = s\<lparr>draws := draws s + length es,
     freshIDs := (if es = [] then freshIDs s
       else Some (stamp_entries (rand_src c) (draws s) es (fresh_entries s)))\<rparr>"

lemma stamp_state_fields [simp]:
  "ref (stamp_state c es s) = ref s" "appToken (stamp_state c es s) = appToken s" "started (stamp_state c es s) = started s"
  "closed (stamp_state c es s) = closed s" "stop (stamp_state c es s) = stop s" "sink (stamp_state c es s) = sink s"
  "resuming (stamp_state c es s) = resuming s" "buffer (stamp_state c es s) = buffer s" "nextKey (stamp_state c es s) = nextKey s"
  "settled (stamp_state c es s) = settled s" "deliverTmr (stamp_state c es s) = deliverTmr s" "idleTmr (stamp_state c es s) = idleTmr s"
  "inFlight (stamp_state c es s) = inFlight s" "suspending (stamp_state c es s) = suspending s" "sinkWrite (stamp_state c es s) = sinkWrite s"
  "nextSink (stamp_state c es s) = nextSink s" "timers (stamp_state c es s) = timers s" "nextTimer (stamp_state c es s) = nextTimer s"
  "out (stamp_state c es s) = out s" "gos (stamp_state c es s) = gos s" "draws (stamp_state c es s) = draws s + length es"
  "fresh_entries (stamp_state c es s) = stamp_entries (rand_src c) (draws s) es (fresh_entries s)"
  by (simp_all add: stamp_state_def fresh_entries_def)

lemma stamp_state_Cons: "stamp_state c es (stamp_state c [e] s) = stamp_state c (e # es) s"
  by (simp add: stamp_state_def fresh_entries_def)

lemma stampLocked_result:
  "stampLocked c e s = (case rewriteEnvelopeID (event_raw e) (randID (rand_src c) (draws s)) of
     Inl p \<Rightarrow> Inl p | Inr f \<Rightarrow> Inr (f, stamp_state c [e] s))"
  by (simp add: stampLocked_def stamp_state_def fresh_entries_def Let_def split: sum.split)

text \<open>The frames that belong to a list of events: the \<open>i\<close>-th carries the id of read \<open>k + i\<close>.\<close>

fun frames_for :: "rand_source \<Rightarrow> nat \<Rightarrow> pendingEvent list \<Rightarrow> bytes list \<Rightarrow> bool" where
  "frames_for src k [] fs \<longleftrightarrow> fs = []"
| "frames_for src k (e # es) fs \<longleftrightarrow>
     (case fs of [] \<Rightarrow> False
      | f # fs' \<Rightarrow> rewriteEnvelopeID (event_raw e) (randID src k) = Inr f \<and> frames_for src (Suc k) es fs')"

lemma build_frames_ok:
  assumes "\<forall>e \<in> set es. is_event_raw (event_raw e)"
  shows "\<exists>fs. build_frames c es s = Inr (fs, stamp_state c es s) \<and> frames_for (rand_src c) (draws s) es fs"
  using assms
proof (induction es arbitrary: s)
  case Nil
  show ?case by (simp add: stamp_state_def)
next
  case (Cons e es)
  from Cons.prems obtain f where f: "rewriteEnvelopeID (event_raw e) (randID (rand_src c) (draws s)) = Inr f"
    using rewrite_event [of "event_raw e" "rand_src c" "draws s"] by auto
  from Cons.IH [of "stamp_state c [e] s"] Cons.prems obtain fs where
    "build_frames c es (stamp_state c [e] s) = Inr (fs, stamp_state c es (stamp_state c [e] s))"
    "frames_for (rand_src c) (draws (stamp_state c [e] s)) es fs" by auto
  with f show ?case by (simp add: stampLocked_result stamp_state_Cons)
qed

lemma build_frames_state: "build_frames c es s = Inr (fs, s') \<Longrightarrow> s' = stamp_state c es s"
proof (induction es arbitrary: s fs s')
  case Nil
  then show ?case by (simp add: stamp_state_def)
next
  case (Cons e es)
  then show ?case by (fastforce simp: stampLocked_result stamp_state_Cons split: sum.splits)
qed

lemma frames_for_length: "frames_for src k es fs \<Longrightarrow> length fs = length es"
  by (induction src k es fs rule: frames_for.induct) (auto split: list.splits)

lemma frames_for_nth:
  "frames_for src k es fs \<Longrightarrow> i < length es \<Longrightarrow> rewriteEnvelopeID (event_raw (es ! i)) (randID src (k + i)) = Inr (fs ! i)"
proof (induction src k es fs arbitrary: i rule: frames_for.induct)
  case (2 src k e es fs)
  then obtain f fs' where fs: "fs = f # fs'" "rewriteEnvelopeID (event_raw e) (randID src k) = Inr f" "frames_for src (Suc k) es fs'"
    by (auto split: list.splits)
  with 2 show ?case by (cases i) auto
qed simp

lemma stamp_entries_distinct: "distinct (map fst m) \<Longrightarrow> distinct (map fst (stamp_entries src k es m))"
  by (induction src k es m rule: stamp_entries.induct) (simp_all add: distinct_update)

lemma stamp_entries_other:
  "(\<And>j. k \<le> j \<Longrightarrow> j < k + length es \<Longrightarrow> randID src j \<noteq> i) \<Longrightarrow> map_of (stamp_entries src k es m) i = map_of m i"
proof (induction src k es m rule: stamp_entries.induct)
  case (2 src k e es m)
  have "randID src k \<noteq> i" using 2(2) [of k] by simp
  moreover have "map_of (stamp_entries src (Suc k) es (AList.update (randID src k) (event_key e) m)) i =
      map_of (AList.update (randID src k) (event_key e) m) i"
    by (rule 2(1)) (use 2(2) in auto)
  ultimately show ?case by (simp add: update_conv)
qed simp

lemma stamp_entries_nth:
  assumes "n < length es" "\<And>j. k + n < j \<Longrightarrow> j < k + length es \<Longrightarrow> randID src j \<noteq> randID src (k + n)"
  shows "map_of (stamp_entries src k es m) (randID src (k + n)) = Some (event_key (es ! n))"
  using assms
proof (induction src k es m arbitrary: n rule: stamp_entries.induct)
  case (2 src k e es m)
  show ?case
  proof (cases n)
    case 0
    have "map_of (stamp_entries src (Suc k) es (AList.update (randID src k) (event_key e) m)) (randID src k) =
        map_of (AList.update (randID src k) (event_key e) m) (randID src k)"
      by (rule stamp_entries_other) (use 2(3) 0 in auto)
    with 0 show ?thesis by (simp add: update_conv)
  next
    case (Suc n')
    have "map_of (stamp_entries src (Suc k) es (AList.update (randID src k) (event_key e) m)) (randID src (Suc k + n')) =
        Some (event_key (es ! n'))"
      by (rule 2(1)) (use 2(2,3) Suc in auto)
    with Suc show ?thesis by simp
  qed
qed simp

end
