(* ===== verification/Transitions.thy ===== *)
theory Transitions
  imports Main "HOL-Library.Multiset"
begin

text \<open>
  Labelled transition systems: the runs of a step relation, invariants that may speak of the
  labels so far, and the tasks of a list of goroutines as a multiset.
\<close>

section \<open>Runs\<close>

inductive trace :: "('s \<Rightarrow> 'l \<Rightarrow> 's \<Rightarrow> bool) \<Rightarrow> 's \<Rightarrow> 'l list \<Rightarrow> 's \<Rightarrow> bool" for step where
  trace_Nil: "trace step s [] s"
| trace_snoc: "\<lbrakk>trace step s ls s'; step s' l s''\<rbrakk> \<Longrightarrow> trace step s (ls @ [l]) s''"

lemma trace_single: "step s l s' \<Longrightarrow> trace step s [l] s'"
  using trace_snoc [OF trace_Nil] by fastforce

lemma trace_append: "trace step s' ls' s'' \<Longrightarrow> trace step s ls s' \<Longrightarrow> trace step s (ls @ ls') s''"
proof (induction rule: trace.induct)
  case (trace_snoc s' ls' t l t')
  then have "trace step s ((ls @ ls') @ [l]) t'" by (intro trace.trace_snoc) auto
  then show ?case by simp
qed simp

lemma trace_Cons: "step s l s' \<Longrightarrow> trace step s' ls s'' \<Longrightarrow> trace step s (l # ls) s''"
  using trace_append [OF _ trace_single] by fastforce

section \<open>Invariants\<close>

text \<open>
  An invariant of the runs from \<open>s0\<close>: it holds at the start and every step keeps it, where the
  step may use that its source state was reached.
\<close>

locale run_invariant =
  fixes step :: "'s \<Rightarrow> 'l \<Rightarrow> 's \<Rightarrow> bool" and s0 :: 's and inv :: "'l list \<Rightarrow> 's \<Rightarrow> bool"
  assumes start: "inv [] s0"
    and keep: "\<lbrakk>trace step s0 ls s; inv ls s; step s l s'\<rbrakk> \<Longrightarrow> inv (ls @ [l]) s'"
begin

lemma holds: "trace step s0 ls s \<Longrightarrow> inv ls s"
proof -
  have "trace step s ls t \<Longrightarrow> s = s0 \<Longrightarrow> trace step s0 ls t \<and> inv ls t" for s ls t
    by (induction rule: trace.induct) (auto intro: start keep trace_Nil trace_snoc)
  then show "trace step s0 ls s \<Longrightarrow> inv ls s" by blast
qed

end

text \<open>An invariant of the states alone.\<close>

locale state_invariant =
  fixes step :: "'s \<Rightarrow> 'l \<Rightarrow> 's \<Rightarrow> bool" and s0 :: 's and inv :: "'s \<Rightarrow> bool"
  assumes start_state: "inv s0"
    and keep_state: "\<lbrakk>inv s; step s l s'\<rbrakk> \<Longrightarrow> inv s'"

sublocale state_invariant \<subseteq> run_invariant step s0 "\<lambda>_. inv"
  by unfold_locales (auto intro: start_state keep_state)

section \<open>Simulations\<close>

text \<open>
  A step of the detailed system is matched by one step of the specification; \<open>lab\<close> says which labels
  match. Then every run is matched by a run.
\<close>

locale forward_simulation =
  fixes step :: "'s \<Rightarrow> 'l \<Rightarrow> 's \<Rightarrow> bool" and s0 :: 's
    and spec :: "'a \<Rightarrow> 'm \<Rightarrow> 'a \<Rightarrow> bool" and a0 :: 'a
    and rel :: "'s \<Rightarrow> 'a \<Rightarrow> bool" and lab :: "'l \<Rightarrow> 'm \<Rightarrow> bool"
  assumes rel_start: "rel s0 a0"
    and rel_step: "\<lbrakk>rel s a; step s l s'\<rbrakk> \<Longrightarrow> \<exists>m a'. spec a m a' \<and> lab l m \<and> rel s' a'"
begin

lemma matched: "trace step s0 ls s \<Longrightarrow> \<exists>ms a. trace spec a0 ms a \<and> list_all2 lab ls ms \<and> rel s a"
proof -
  have "trace step t ls s \<Longrightarrow> t = s0 \<Longrightarrow> \<exists>ms a. trace spec a0 ms a \<and> list_all2 lab ls ms \<and> rel s a" for t ls s
  proof (induction rule: trace.induct)
    case (trace_Nil s)
    then show ?case using rel_start trace.trace_Nil by fastforce
  next
    case (trace_snoc t ls s' l s'')
    then obtain ms a where a: "trace spec a0 ms a" "list_all2 lab ls ms" "rel s' a" by blast
    with rel_step [OF a(3) trace_snoc.hyps(2)] obtain m a' where "spec a m a'" "lab l m" "rel s'' a'" by blast
    with a show ?case
      by (intro exI [of _ "ms @ [m]"] exI [of _ a']) (auto intro: trace.trace_snoc simp: list_all2_appendI)
  qed
  then show "trace step s0 ls s \<Longrightarrow> \<exists>ms a. trace spec a0 ms a \<and> list_all2 lab ls ms \<and> rel s a" by blast
qed

end

section \<open>Goroutines\<close>

text \<open>Replacing the first task of one goroutine changes the tasks of all of them by that much.\<close>

lemma tasks_update:
  assumes "i < length gs" "gs ! i = t # ts"
  shows "mset (concat (gs[i := ts' @ ts])) = mset (concat gs) - {#t#} + mset ts'"
proof -
  have split: "gs = take i gs @ (t # ts) # drop (Suc i) gs" using assms by (metis id_take_nth_drop)
  have "gs[i := ts' @ ts] = take i gs @ (ts' @ ts) # drop (Suc i) gs" using assms(1) by (rule upd_conv_take_nth_drop)
  then have "mset (concat (gs[i := ts' @ ts])) = mset (concat (take i gs @ (ts' @ ts) # drop (Suc i) gs))" by simp
  moreover have "mset (concat gs) = mset (concat (take i gs @ (t # ts) # drop (Suc i) gs))" using split by simp
  ultimately show ?thesis by simp
qed

lemma task_member: "i < length gs \<Longrightarrow> gs ! i = t # ts \<Longrightarrow> t \<in># mset (concat gs)"
  using nth_mem [of i gs] by (auto intro: bexI [of _ "t # ts"])

end
