(* ===== verification/SessionSteps.thy ===== *)
theory SessionSteps
  imports Session Transitions
begin

text \<open>
  The session as a concurrent program. A goroutine is the list of regions it still has to run; a
  step runs the first region of one goroutine, fires an armed timer, or lets the outside make a
  call: an actor opens a connection and sends pings and acknowledgements on it (the read loop
  ends when a pong cannot be written), an API call is
  forwarded, \<^verbatim>\<open>apps.connections.open\<close> starts the Slack loop, the session is closed. Slack events
  come from the read loop's own reads. The regions are those of theory \<open>Session\<close>, and a goroutine
  that runs alone does what the method does there.
\<close>

section \<open>Regions\<close>

definition plan_tasks :: "event_plan \<Rightarrow> task list" where
  "plan_tasks p = (case p of DeliverNow sk frames \<Rightarrow> [WriteToSink sk frames, NoteActivity] | _ \<Rightarrow> [])"

definition plan_go :: "event_plan \<Rightarrow> session \<Rightarrow> session" where
  "plan_go p s = (case p of ResumeNow \<Rightarrow> go [ResumeActor_call] s | _ \<Rightarrow> s)"

text \<open>
  What the read loop does with a frame from \<^verbatim>\<open>gorillaSlackConn.Read\<close>, which decodes it: a frame
  that does not decode is a read error. The rest of the iteration, to be followed by the loop.
\<close>

definition read_tasks :: "reply \<Rightarrow> task list" where
  "read_tasks r = (case r of
     OkFrame raw \<Rightarrow>
       (case DecodeEnvelope raw of
          Inl _ \<Rightarrow> []
        | Inr e \<Rightarrow>
            (if IsConnectionManagement e then (if Type e = TypeDisconnect then [] else [ReadLoop])
             else if IsEvent e then [AckSlack (EnvelopeID e), OnEvent raw, ReadLoop]
             else [ReadLoop]))
   | _ \<Rightarrow> [])"

text \<open>
  One region: what the goroutine does next and the new state; \<^term>\<open>None\<close> when it has to wait (for
  the write lock, or for the actor).
\<close>

fun exec :: "config \<Rightarrow> task \<Rightarrow> session \<Rightarrow> (go_panic + task list \<times> session) option" where
  "exec c (OnEvent raw) s = Some (case onEvent_locked c raw s of
     Inl p \<Rightarrow> Inl p | Inr r \<Rightarrow> Inr (plan_tasks (fst r), plan_go (fst r) (snd r)))"
| "exec c (WriteToSink sk fs) s =
     (if sinkWrite s then None else Some (Inr ([WriteNext sk fs], s\<lparr>sinkWrite := True\<rparr>)))"
| "exec c (WriteNext sk fs) s = Some (Inr (case fs of
     [] \<Rightarrow> ([], s\<lparr>sinkWrite := False\<rparr>)
   | f # fs' \<Rightarrow> (if sink s \<noteq> Some sk then ([], s\<lparr>sinkWrite := False\<rparr>) else ([WriteSend sk f fs'], s))))"
| "exec c (WriteSend sk f fs) s = Some (Inr (let r = io c (OWrite sk f) s in
     if fst r = Fail then ([], (snd r)\<lparr>sinkWrite := False\<rparr>) else ([WriteNext sk fs], snd r)))"
| "exec c NoteActivity s = Some (Inr ([], noteActivity c s))"
| "exec c OnIdle s = Some (Inr (let g = onIdle_locked s in (if fst g then [SuspendCall] else [], snd g)))"
| "exec c SuspendCall s = Some (Inr (let r = io c (OSuspend (ref s)) s in
     (if fst r = Fail then [SuspendFailed] else [], snd r)))"
| "exec c SuspendFailed s = Some (Inr ([], suspend_failed_locked c s))"
| "exec c ResumeActor_call s = Some (Inr (let r = io c (OResume (ref s)) s in
     (if fst r = Fail then [ResumeFailed] else [], snd r)))"
| "exec c ResumeFailed s = Some (Inr ([], resume_failed_locked s))"
| "exec c (AttachSink sk) s = Some (Inr (let s1 = attach_locked sk s in
     ([WriteToSink sk [helloFrame], AttachHeld sk (deliverDelay c) (length (buffer s1))], s1)))"
| "exec c (AttachHeld sk delay buffered) s = Some (Inr
     (if buffered = 0 then [DeliverBuffered sk] else if 0 <s delay then [AttachTimer sk] else [], s))"
| "exec c (AttachTimer sk) s = Some (Inr ([], attach_timer_locked sk s))"
| "exec c (DeliverBuffered sk) s = Some (case deliver_locked c sk s of
     Inl p \<Rightarrow> Inl p
   | Inr r \<Rightarrow> Inr (case fst r of
       None \<Rightarrow> ([], snd r) | Some frames \<Rightarrow> ([WriteToSink sk frames, NoteActivity], snd r)))"
| "exec c (ServeSocket sk) s = None"
| "exec c (DetachSink sk) s = Some (Inr ([], Detach sk s))"
| "exec c (AckEvent i) s = Some (Inr ([], Ack_event c i s))"
| "exec c BeginForward s = Some (Inr ([], beginForward s))"
| "exec c ForwardCall s = Some (Inr ([], snd (io c OForward s)))"
| "exec c EndForward s = Some (Inr ([], endForward c s))"
| "exec c (Start token) s = Some (Inr ([], EnsureStarted token s))"
| "exec c CloseSession s = Some (Inr ([], Close s))"
| "exec c (RunSlack d) s = Some (Inr (if stopped s then [] else [ReadToken d], s))"
| "exec c (ReadToken d) s = Some (Inr ([DialSlack (appToken s) d], s))"
| "exec c (DialSlack token d) s = Some (Inr (let r = io c (ODial token) s in
     (if fst r = Fail then [SleepSlack d] else [ReadLoop, CloseConn], snd r)))"
| "exec c (SleepSlack d) s = Some (Inr (let r = sleepOrStop c d s in
     (if fst r then [RunSlack (nextBackoff d)] else [], snd r)))"
| "exec c ReadLoop s = Some (Inr (if stopped s then [] else [ReadFrame], s))"
| "exec c ReadFrame s = Some (Inr (let r = io c ORead s in (read_tasks (fst r), snd r)))"
| "exec c (AckSlack i) s = Some (Inr ([], snd (io c (OSlackAck i) s)))"
| "exec c CloseConn s = Some (Inr ([StopCheck], snd (io c OConnClose s)))"
| "exec c StopCheck s = Some (Inr (if stopped s then [] else [RunSlack second], s))"

section \<open>Steps\<close>

definition callback :: "timer_fn \<Rightarrow> task" where
  "callback fn = (case fn of IdleCallback \<Rightarrow> OnIdle | DeliverCallback sk \<Rightarrow> DeliverBuffered sk)"

datatype label = Ran task | Fired timer_fn | Called

inductive step :: "config \<Rightarrow> session \<Rightarrow> label \<Rightarrow> session \<Rightarrow> bool" for c where
  run: "\<lbrakk>i < length (gos s); gos s ! i = t # ts; exec c t s = Some (Inr (ts', s'))\<rbrakk> \<Longrightarrow>
    step c s (Ran t) (s'\<lparr>gos := (gos s')[i := ts' @ ts]\<rparr>)"
| fire: "(i, fn) \<in> set (timers s) \<Longrightarrow> step c s (Fired fn) (go [callback fn] (Stop i s))"
| connect: "step c s Called (go [AttachSink (nextSink s), ServeSocket (nextSink s), DetachSink (nextSink s)]
    (s\<lparr>nextSink := nextSink s + 1\<rparr>))"
| receive: "\<lbrakk>i < length (gos s); gos s ! i = ServeSocket sk # ts; t = AckEvent x \<or> t = DeliverBuffered sk\<rbrakk> \<Longrightarrow>
    step c s Called (s\<lparr>gos := (gos s)[i := t # ServeSocket sk # ts]\<rparr>)"
| ping_lost: "\<lbrakk>i < length (gos s); gos s ! i = ServeSocket sk # ts\<rbrakk> \<Longrightarrow>
    step c s Called (s\<lparr>gos := (gos s)[i := DeliverBuffered sk # ts]\<rparr>)"
| hang_up: "\<lbrakk>i < length (gos s); gos s ! i = ServeSocket sk # ts\<rbrakk> \<Longrightarrow>
    step c s Called (s\<lparr>gos := (gos s)[i := ts]\<rparr>)"
| forward: "step c s Called (go [BeginForward, ForwardCall, EndForward] s)"
| open_call: "step c s Called (go [Start token] s)"
| close_call: "step c s Called (go [CloseSession] s)"

text \<open>The runs of the session of actor \<open>r\<close>, with the labels of their steps.\<close>

definition session_run :: "config \<Rightarrow> ActorRef \<Rightarrow> label list \<Rightarrow> session \<Rightarrow> bool" where
  "session_run c r ls s = trace (step c) (new_session r) ls s"

definition tasks :: "session \<Rightarrow> task multiset" where
  "tasks s = mset (concat (gos s))"

section \<open>Facts: what a region and a step do to the goroutines\<close>

lemmas exec_defs = onEvent_locked_def plan_go_def plan_tasks_def deliver_locked_def buildEventFramesLocked_def
  io_def go_def onIdle_locked_def suspend_failed_locked_def resume_failed_locked_def noteActivity_def
  attach_locked_def Detach_def Ack_event_def beginForward_def endForward_def EnsureStarted_def Close_def
  sleepOrStop_def Let_def

lemma tasks_go [simp]: "tasks (go g s) = tasks s + mset g"
  by (simp add: tasks_def go_def)

lemma tasks_upd [simp]: "tasks (s\<lparr>gos := g\<rparr>) = mset (concat g)"
  by (simp add: tasks_def)

text \<open>A region leaves the goroutines as they are, and starts at most one more.\<close>

lemma exec_gos:
  assumes "exec c t s = Some (Inr (ts', s'))"
  shows "gos s' = gos s \<or>
    (\<exists>raw. t = OnEvent raw \<and> sink s = None \<and> \<not> resuming s \<and> gos s' = gos s @ [[ResumeActor_call]]) \<or>
    (\<exists>token. t = Start token \<and> \<not> started s \<and> \<not> closed s \<and> gos s' = gos s @ [[RunSlack second]])"
  using assms
  by (cases t)
    (auto simp: exec_defs stampLocked_result dest!: build_frames_state split: if_splits option.splits sum.splits list.splits event_plan.splits)

lemma exec_prefix: "exec c t s = Some (Inr (ts', s')) \<Longrightarrow> \<exists>new. gos s' = gos s @ new"
  using exec_gos by fastforce

lemma exec_nextSink: "exec c t s = Some (Inr (ts', s')) \<Longrightarrow> nextSink s' = nextSink s"
  by (cases t) (auto simp: exec_defs stampLocked_result dest!: build_frames_state
      split: if_splits option.splits sum.splits list.splits event_plan.splits)

lemma exec_ref: "exec c t s = Some (Inr (ts', s')) \<Longrightarrow> ref s' = ref s"
  by (cases t) (auto simp: exec_defs stampLocked_result dest!: build_frames_state
      split: if_splits option.splits sum.splits list.splits event_plan.splits)

text \<open>
  A step as it is seen by the tasks: a task that ran is replaced by the rest of its work; a call
  from outside only adds tasks or ends a connection's read loop.
\<close>

lemma step_cases [consumes 1, case_names ran fired called]:
  assumes "step c s l s'"
  obtains (ran) t ts' s1 g where "l = Ran t" "t \<in># tasks s" "exec c t s = Some (Inr (ts', s1))" "s' = s1\<lparr>gos := g\<rparr>"
      "tasks s' = tasks s1 - {#t#} + mset ts'" "t \<in># tasks s1"
  | (fired) i fn where "l = Fired fn" "(i, fn) \<in> set (timers s)" "s' = go [callback fn] (Stop i s)"
      "tasks s' = tasks s + {#callback fn#}"
  | (called) n g new sk where "l = Called" "s' = s\<lparr>nextSink := n, gos := g\<rparr>" "nextSink s \<le> n"
      "tasks s' = tasks s + mset new \<or> tasks s' = tasks s - {#ServeSocket sk#} + mset new"
      "set new \<subseteq> {BeginForward, ForwardCall, EndForward, CloseSession} \<union> range Start \<union> range AckEvent
        \<union> range AttachSink \<union> range ServeSocket \<union> range DetachSink \<union> range DeliverBuffered"
  using assms
proof cases
  case (run i t ts ts' s1)
  obtain new where new: "gos s1 = gos s @ new" using exec_prefix [OF run(5)] by blast
  then have i: "i < length (gos s1)" "gos s1 ! i = t # ts" using run by (simp_all add: nth_append)
  show ?thesis
  proof (rule that(1))
    show "t \<in># tasks s" unfolding tasks_def using run(3,4) by (rule task_member)
    show "t \<in># tasks s1" unfolding tasks_def using i by (rule task_member)
    show "tasks s' = tasks s1 - {#t#} + mset ts'" using tasks_update [OF i] run(2) by (simp add: tasks_def)
  qed (use run in auto)
next
  case (fire i fn)
  then show ?thesis by (intro that(2)) (auto simp: tasks_def Stop_def go_def)
next
  case connect
  let ?new = "[AttachSink (nextSink s), ServeSocket (nextSink s), DetachSink (nextSink s)]"
  show ?thesis
    by (rule that(3) [of "gos s @ [?new]" "nextSink s + 1" ?new]) (use connect in \<open>auto simp: go_def tasks_def\<close>)
next
  case (receive i sk ts t x)
  have "tasks s' = tasks s + mset [t]"
    using tasks_update [OF receive(3,4), of "[t, ServeSocket sk]"] task_member [OF receive(3,4)] receive(2) by (simp add: tasks_def)
  then show ?thesis
    by (intro that(3) [of "(gos s)[i := t # ServeSocket sk # ts]" "nextSink s" "[t]"]) (use receive in auto)
next
  case (ping_lost i sk ts)
  have "tasks s' = tasks s - {#ServeSocket sk#} + mset [DeliverBuffered sk]"
    using tasks_update [OF ping_lost(3,4), of "[DeliverBuffered sk]"] ping_lost(2) by (simp add: tasks_def)
  then show ?thesis
    by (intro that(3) [of "(gos s)[i := DeliverBuffered sk # ts]" "nextSink s" "[DeliverBuffered sk]" sk]) (use ping_lost in auto)
next
  case (hang_up i sk ts)
  have "tasks s' = tasks s - {#ServeSocket sk#}"
    using tasks_update [OF hang_up(3,4), of "[]"] hang_up(2) by (simp add: tasks_def)
  then show ?thesis
    by (intro that(3) [of "(gos s)[i := ts]" "nextSink s" "[]" sk]) (use hang_up in auto)
next
  case forward
  show ?thesis
    by (rule that(3) [of "gos s @ [[BeginForward, ForwardCall, EndForward]]" "nextSink s" "[BeginForward, ForwardCall, EndForward]"])
      (use forward in \<open>auto simp: go_def tasks_def\<close>)
next
  case (open_call token)
  show ?thesis
    by (rule that(3) [of "gos s @ [[Start token]]" "nextSink s" "[Start token]"]) (use open_call in \<open>auto simp: go_def tasks_def\<close>)
next
  case close_call
  show ?thesis
    by (rule that(3) [of "gos s @ [[CloseSession]]" "nextSink s" "[CloseSession]"]) (use close_call in \<open>auto simp: go_def tasks_def\<close>)
qed

end
