(* ===== verification/SessionInv.thy ===== *)
theory SessionInv
  imports SessionSteps
begin

text \<open>
  What holds in every state a session can reach, whatever the interleaving, the answers of the
  outside world and the timers do. Each invariant is an interpretation of the locales for runs.
\<close>

section \<open>Idle suspend\<close>

definition idle_inv :: "session \<Rightarrow> bool" where
  "idle_inv s \<longleftrightarrow> (sink s = None \<longrightarrow> \<not> settled s \<and> \<not> suspending s \<and> idleTmr s = None) \<and>
     0 \<le> inFlight s \<and> (0 < inFlight s \<longrightarrow> idleTmr s = None) \<and>
     (\<forall>(t, fn) \<in> set (timers s). t < nextTimer s \<and> (fn = IdleCallback \<longrightarrow> idleTmr s = Some t))"

lemma idle_inv_other [simp]:
  "idle_inv (s\<lparr>gos := g\<rparr>) = idle_inv s" "idle_inv (s\<lparr>nextSink := n\<rparr>) = idle_inv s"
  "idle_inv (s\<lparr>out := os\<rparr>) = idle_inv s" "idle_inv (s\<lparr>sinkWrite := b\<rparr>) = idle_inv s"
  "idle_inv (s\<lparr>resuming := b\<rparr>) = idle_inv s" "idle_inv (s\<lparr>buffer := bs\<rparr>) = idle_inv s"
  "idle_inv (s\<lparr>nextKey := k\<rparr>) = idle_inv s" "idle_inv (s\<lparr>freshIDs := m\<rparr>) = idle_inv s"
  "idle_inv (s\<lparr>draws := d\<rparr>) = idle_inv s" "idle_inv (s\<lparr>appToken := tok\<rparr>) = idle_inv s"
  "idle_inv (s\<lparr>started := b\<rparr>) = idle_inv s" "idle_inv (s\<lparr>closed := b\<rparr>) = idle_inv s"
  "idle_inv (s\<lparr>stop := ch\<rparr>) = idle_inv s"
  by (simp_all add: idle_inv_def)

lemma idle_inv_stamp [simp]: "idle_inv (stamp_state c es s) = idle_inv s"
  by (simp add: idle_inv_def)

lemma idle_inv_go [simp]: "idle_inv (go g s) = idle_inv s"
  by (simp add: go_def)

lemma idle_inv_Stop: "idle_inv s \<Longrightarrow> idle_inv (Stop t s)"
  by (auto simp: idle_inv_def Stop_def)

lemma idle_inv_stop_deliver: "idle_inv s \<Longrightarrow> idle_inv (stop_deliver s)"
  by (auto simp: idle_inv_def timer_defs split: option.split)

lemma idle_inv_stop_idle: "idle_inv s \<Longrightarrow> idle_inv (stop_idle s) \<and> (\<forall>(t, fn) \<in> set (timers (stop_idle s)). fn \<noteq> IdleCallback)"
  by (cases "idleTmr s") (auto simp: idle_inv_def timer_defs)

lemma idle_inv_arm: "idle_inv s \<Longrightarrow> idle_inv (armIdleLocked c s)"
  using idle_inv_stop_idle [of s] by (auto simp: idle_inv_def armIdleLocked_def AfterFunc_def Let_def)

lemma idle_inv_Detach: "idle_inv s \<Longrightarrow> idle_inv (Detach sk s)"
proof -
  assume s: "idle_inv s"
  let ?s = "stop_idle (stop_deliver s)"
  have "idle_inv ?s" "\<forall>(t, fn) \<in> set (timers ?s). fn \<noteq> IdleCallback"
    using idle_inv_stop_idle [OF idle_inv_stop_deliver [OF s]] by blast+
  moreover have "stop_idle (stop_deliver (s\<lparr>sink := None, settled := False, suspending := False, inFlight := 0\<rparr>)) =
      ?s\<lparr>sink := None, settled := False, suspending := False, inFlight := 0\<rparr>"
    by (simp add: timer_defs split: option.split)
  ultimately show ?thesis using s by (auto simp: Detach_def idle_inv_def)
qed

lemma idle_inv_attach: "idle_inv s \<Longrightarrow> idle_inv (attach_locked sk s)" "idle_inv s \<Longrightarrow> idle_inv (attach_timer_locked sk s)"
  unfolding attach_locked_def by (rule idle_inv_stop_deliver, simp add: idle_inv_def)
    (auto simp: idle_inv_def attach_timer_locked_def AfterFunc_def Let_def)

lemma idle_inv_forward: "idle_inv s \<Longrightarrow> idle_inv (beginForward s)" "idle_inv s \<Longrightarrow> idle_inv (endForward c s)"
proof -
  assume s: "idle_inv s"
  have "stop_idle (s\<lparr>inFlight := inFlight s + 1\<rparr>) = (stop_idle s)\<lparr>inFlight := inFlight s + 1\<rparr>"
    by (simp add: timer_defs split: option.split)
  then show "idle_inv (beginForward s)" using s idle_inv_stop_idle [OF s] by (auto simp: beginForward_def idle_inv_def)
  show "idle_inv (endForward c s)" unfolding endForward_def by (rule idle_inv_arm) (use s in \<open>auto simp: idle_inv_def\<close>)
qed

lemma idle_inv_suspend:
  "idle_inv s \<Longrightarrow> idle_inv (snd (onIdle_locked s))" "idle_inv s \<Longrightarrow> idle_inv (suspend_failed_locked c s)"
proof -
  assume s: "idle_inv s"
  then show "idle_inv (snd (onIdle_locked s))" by (auto simp: onIdle_locked_def idle_inv_def)
  show "idle_inv (suspend_failed_locked c s)" unfolding suspend_failed_locked_def
    by (rule idle_inv_arm) (use s in \<open>simp add: idle_inv_def\<close>)
qed

lemma deliver_locked_state:
  assumes "deliver_locked c sk s = Inr (fs, s')"
  shows "fs = None \<and> s' = s \<or> (\<exists>frames. fs = Some frames) \<and> sink s = Some sk \<and> \<not> settled s \<and>
    s' = stamp_state c (buffer s) (stop_deliver (s\<lparr>settled := True\<rparr>))"
  using assms by (auto simp: deliver_locked_def buildEventFramesLocked_def dest!: build_frames_state split: if_splits sum.splits)

lemma idle_inv_deliver: "deliver_locked c sk s = Inr (fs, s') \<Longrightarrow> idle_inv s \<Longrightarrow> idle_inv s'"
  using deliver_locked_state [of c sk s fs s'] idle_inv_stop_deliver [of "s\<lparr>settled := True\<rparr>"] by (auto simp: idle_inv_def)

lemma idle_inv_onEvent: "onEvent_locked c raw s = Inr (p, s') \<Longrightarrow> idle_inv s \<Longrightarrow> idle_inv s'"
  by (auto simp: onEvent_locked_def stampLocked_result Let_def split: if_splits option.splits sum.splits)

lemma exec_idle_inv: "exec c t s = Some (Inr (ts', s')) \<Longrightarrow> idle_inv s \<Longrightarrow> idle_inv s'"
  by (cases t)
    (auto simp: plan_go_def io_def noteActivity_def resume_failed_locked_def Ack_event_def
      EnsureStarted_def Close_def sleepOrStop_def Let_def
      split: if_splits option.splits sum.splits list.splits event_plan.splits
      intro: idle_inv_arm idle_inv_Detach idle_inv_attach idle_inv_forward idle_inv_suspend idle_inv_deliver idle_inv_onEvent)

lemma step_idle_inv: "step c s l s' \<Longrightarrow> idle_inv s \<Longrightarrow> idle_inv s'"
  by (cases rule: step_cases) (auto dest: exec_idle_inv intro: idle_inv_Stop)

lemma idle_inv_new: "idle_inv (new_session r)"
  by (simp add: idle_inv_def new_session_def)

interpretation idle: state_invariant "step c" "new_session r" idle_inv for c r
  by unfold_locales (rule idle_inv_new, rule step_idle_inv)

section \<open>Fresh ids belong to buffered events\<close>

definition ids_inv :: "session \<Rightarrow> bool" where
  "ids_inv s \<longleftrightarrow> distinct (map fst (fresh_entries s)) \<and>
     snd ` set (fresh_entries s) \<subseteq> event_key ` set (buffer s)"

lemma ids_inv_cong: "buffer s' = buffer s \<Longrightarrow> freshIDs s' = freshIDs s \<Longrightarrow> ids_inv s' = ids_inv s"
  by (simp add: ids_inv_def fresh_entries_def)

lemma update_values: "snd ` set (AList.update k v m) \<subseteq> insert v (snd ` set m)"
  by (induction m) auto

lemma stamp_entries_values: "snd ` set (stamp_entries src k es m) \<subseteq> snd ` set m \<union> event_key ` set es"
proof (induction src k es m rule: stamp_entries.induct)
  case (2 src k e es m)
  then show ?case using update_values [of "randID src k" "event_key e" m] by auto
qed simp

lemma ids_inv_stamp:
  "ids_inv s \<Longrightarrow> set es \<subseteq> set (buffer s) \<Longrightarrow> ids_inv (stamp_state c es s)"
proof -
  assume s: "ids_inv s" and es: "set es \<subseteq> set (buffer s)"
  have "snd ` set (fresh_entries s) \<union> event_key ` set es \<subseteq> event_key ` set (buffer s)"
    using s es by (auto simp: ids_inv_def)
  with stamp_entries_values have "snd ` set (stamp_entries (rand_src c) (draws s) es (fresh_entries s)) \<subseteq> event_key ` set (buffer s)"
    by (rule subset_trans)
  with s show ?thesis by (simp add: ids_inv_def stamp_entries_distinct)
qed

lemma remove_key_keys: "event_key ` set (remove_key k es) \<supseteq> event_key ` set es - {k}"
  by (induction es) auto

lemma fresh_entries_filter:
  "fresh_entries (s\<lparr>buffer := bs, freshIDs := map_option (filter P) (freshIDs s)\<rparr>) = filter P (fresh_entries s)"
  by (simp add: fresh_entries_def split: option.split)

lemma ids_inv_Ack: "ids_inv s \<Longrightarrow> ids_inv (Ack_event c i s)"
proof -
  assume s: "ids_inv s"
  let ?s = "\<lambda>k. s\<lparr>buffer := remove_key k (buffer s), freshIDs := map_option (filter (\<lambda>(fid, k'). k' \<noteq> k)) (freshIDs s)\<rparr>"
  have "ids_inv (?s k)" for k
  proof -
    have "snd ` set (filter (\<lambda>(fid, k'). k' \<noteq> k) (fresh_entries s)) \<subseteq> event_key ` set (buffer s) - {k}"
      using s by (force simp: ids_inv_def)
    then have "snd ` set (filter (\<lambda>(fid, k'). k' \<noteq> k) (fresh_entries s)) \<subseteq> event_key ` set (remove_key k (buffer s))"
      using remove_key_keys by (rule subset_trans)
    then show ?thesis using s unfolding ids_inv_def fresh_entries_filter by (simp add: distinct_map_filter)
  qed
  moreover have "ids_inv (armIdleLocked c s') = ids_inv s'" for s' by (rule ids_inv_cong) simp_all
  ultimately show ?thesis using s by (simp add: Ack_event_def split: option.split)
qed

text \<open>The state with the new event at the end of the buffer.\<close>

definition new_event :: "bytes \<Rightarrow> session \<Rightarrow> pendingEvent" where
  "new_event raw s = \<lparr>event_key = nextKey s, event_raw = raw\<rparr>"

definition buffered_state :: "bytes \<Rightarrow> session \<Rightarrow> session" where
  "buffered_state raw s = s\<lparr>nextKey := nextKey s + 1, buffer := buffer s @ [new_event raw s],
     resuming := resuming s \<or> sink s = None\<rparr>"

lemma buffered_state_fields [simp]:
  "ref (buffered_state raw s) = ref s" "started (buffered_state raw s) = started s"
  "closed (buffered_state raw s) = closed s" "stop (buffered_state raw s) = stop s" "sink (buffered_state raw s) = sink s"
  "resuming (buffered_state raw s) = (resuming s \<or> sink s = None)"
  "buffer (buffered_state raw s) = buffer s @ [new_event raw s]" "nextKey (buffered_state raw s) = nextKey s + 1"
  "freshIDs (buffered_state raw s) = freshIDs s" "settled (buffered_state raw s) = settled s"
  "sinkWrite (buffered_state raw s) = sinkWrite s" "draws (buffered_state raw s) = draws s"
  "out (buffered_state raw s) = out s" "gos (buffered_state raw s) = gos s" "nextSink (buffered_state raw s) = nextSink s"
  by (simp_all add: buffered_state_def)

lemma onEvent_locked_result:
  "onEvent_locked c raw s = (case sink s of
     None \<Rightarrow> Inr (if resuming s then AlreadyResuming else ResumeNow, buffered_state raw s)
   | Some sk \<Rightarrow>
       (if settled s then
          (case rewriteEnvelopeID raw (randID (rand_src c) (draws s)) of
             Inl p \<Rightarrow> Inl p
           | Inr f \<Rightarrow> Inr (DeliverNow sk [f], stamp_state c [new_event raw s] (buffered_state raw s)))
        else Inr (HoldBuffered, buffered_state raw s)))"
  by (auto simp: onEvent_locked_def stampLocked_result Let_def new_event_def buffered_state_def split: option.split sum.split)

lemma ids_inv_onEvent: "onEvent_locked c raw s = Inr (p, s') \<Longrightarrow> ids_inv s \<Longrightarrow> ids_inv s'"
proof -
  assume r: "onEvent_locked c raw s = Inr (p, s')" and s: "ids_inv s"
  have new: "ids_inv (buffered_state raw s)" using s by (auto simp: ids_inv_def fresh_entries_def)
  then have "ids_inv (stamp_state c [new_event raw s] (buffered_state raw s))" by (rule ids_inv_stamp) simp
  with new show ?thesis using r by (auto simp: onEvent_locked_result split: if_splits option.splits sum.splits)
qed

lemma ids_inv_deliver: "deliver_locked c sk s = Inr (fs, s') \<Longrightarrow> ids_inv s \<Longrightarrow> ids_inv s'"
proof -
  assume r: "deliver_locked c sk s = Inr (fs, s')" and s: "ids_inv s"
  have "ids_inv (stop_deliver (s\<lparr>settled := True\<rparr>))" using s by (subst ids_inv_cong) simp_all
  then have "ids_inv (stamp_state c (buffer s) (stop_deliver (s\<lparr>settled := True\<rparr>)))" by (rule ids_inv_stamp) simp
  with deliver_locked_state [OF r] s show ?thesis by auto
qed

text \<open>The regions other than \<open>OnEvent\<close>, \<open>DeliverBuffered\<close> and \<open>AckEvent\<close> do not touch the buffer or the ids.\<close>

lemma exec_buffer:
  "exec c t s = Some (Inr (ts', s')) \<Longrightarrow>
    (\<exists>raw p s1. t = OnEvent raw \<and> onEvent_locked c raw s = Inr (p, s1) \<and> s' = plan_go p s1) \<or>
    (\<exists>sk fs. t = DeliverBuffered sk \<and> deliver_locked c sk s = Inr (fs, s')) \<or>
    (\<exists>i. t = AckEvent i \<and> s' = Ack_event c i s) \<or>
    (buffer s' = buffer s \<and> freshIDs s' = freshIDs s \<and> nextKey s' = nextKey s)"
  by (cases t)
    (auto simp: io_def noteActivity_def resume_failed_locked_def attach_locked_def suspend_failed_locked_def
      onIdle_locked_def Detach_def beginForward_def endForward_def EnsureStarted_def Close_def sleepOrStop_def
      go_def Let_def split: if_splits option.splits sum.splits list.splits)

lemma ids_inv_plan_go: "ids_inv (plan_go p s) = ids_inv s"
  by (rule ids_inv_cong) (simp_all add: plan_go_def go_def split: event_plan.split)

lemma exec_ids_inv: "exec c t s = Some (Inr (ts', s')) \<Longrightarrow> ids_inv s \<Longrightarrow> ids_inv s'"
  by (frule exec_buffer)
    (auto simp: ids_inv_plan_go dest: ids_inv_onEvent ids_inv_deliver intro: ids_inv_Ack ids_inv_cong [THEN iffD2])

lemma step_ids_inv:
  assumes "step c s l s'" "ids_inv s"
  shows "ids_inv s'"
  using assms(1)
proof (cases rule: step_cases)
  case (ran t ts' s1 g)
  with assms(2) show ?thesis by (subst ids_inv_cong [of s' s1]) (auto dest: exec_ids_inv)
next
  case (fired i fn)
  with assms(2) show ?thesis by (subst ids_inv_cong [of s' s]) (auto simp: go_def Stop_def)
next
  case (called n g new sk)
  with assms(2) show ?thesis by (subst ids_inv_cong [of s' s]) auto
qed

lemma ids_inv_new: "ids_inv (new_session r)"
  by (simp add: ids_inv_def new_session_def fresh_entries_def)

interpretation ids: state_invariant "step c" "new_session r" ids_inv for c r
  by unfold_locales (rule ids_inv_new, rule step_ids_inv)

section \<open>Only event frames are buffered; the backoff stays bounded\<close>

definition backoffs :: "duration list" where
  "backoffs = [second, 2 * second, 4 * second, 8 * second, 16 * second, 30 * second]"

definition good_task :: "task \<Rightarrow> bool" where
  "good_task t = (case t of
     OnEvent raw \<Rightarrow> is_event_raw raw
   | RunSlack d \<Rightarrow> d \<in> set backoffs
   | ReadToken d \<Rightarrow> d \<in> set backoffs
   | DialSlack token d \<Rightarrow> d \<in> set backoffs
   | SleepSlack d \<Rightarrow> d \<in> set backoffs
   | _ \<Rightarrow> True)"

lemma nextBackoff_closed: "d \<in> set backoffs \<Longrightarrow> nextBackoff d \<in> set backoffs"
  by (auto simp: backoffs_def nextBackoff_def second_def Let_def)

lemma read_tasks_good: "t \<in> set (read_tasks r) \<Longrightarrow> good_task t"
  by (auto simp: read_tasks_def good_task_def is_event_raw_def split: reply.splits sum.splits if_splits)

lemma second_backoff: "second \<in> set backoffs"
  by (simp add: backoffs_def)

lemma exec_good: "exec c t s = Some (Inr (ts', s')) \<Longrightarrow> good_task t \<Longrightarrow> t' \<in> set ts' \<Longrightarrow> good_task t'"
proof (cases "t = ReadFrame")
  case True
  assume "exec c t s = Some (Inr (ts', s'))" "t' \<in> set ts'"
  with True show ?thesis using read_tasks_good by (auto simp: Let_def)
next
  case False
  assume "exec c t s = Some (Inr (ts', s'))" "good_task t" "t' \<in> set ts'"
  with False show ?thesis
    by (cases t) (auto simp: plan_tasks_def good_task_def Let_def nextBackoff_closed second_backoff
        split: if_splits option.splits sum.splits list.splits event_plan.splits)
qed

definition events_inv :: "session \<Rightarrow> bool" where
  "events_inv s \<longleftrightarrow> (\<forall>t \<in># tasks s. good_task t) \<and> (\<forall>e \<in> set (buffer s). is_event_raw (event_raw e))"

lemma remove_key_subset: "set (remove_key k es) \<subseteq> set es"
  by (induction es) auto

lemma exec_buffer_events:
  assumes "exec c t s = Some (Inr (ts', s'))" "good_task t" "\<forall>e \<in> set (buffer s). is_event_raw (event_raw e)" "e \<in> set (buffer s')"
  shows "is_event_raw (event_raw e)"
  using exec_buffer [OF assms(1)]
proof (elim disjE exE conjE)
  fix raw p s1 assume "t = OnEvent raw" "onEvent_locked c raw s = Inr (p, s1)" "s' = plan_go p s1"
  with assms(2-4) show ?thesis
    by (auto simp: onEvent_locked_result plan_go_def go_def new_event_def good_task_def split: event_plan.splits option.splits if_splits sum.splits)
next
  fix sk fs assume "t = DeliverBuffered sk" "deliver_locked c sk s = Inr (fs, s')"
  with deliver_locked_state [of c sk s fs s'] assms(3,4) show ?thesis by auto
next
  fix i assume "t = AckEvent i" "s' = Ack_event c i s"
  with assms(3,4) remove_key_subset show ?thesis by (auto simp: Ack_event_def split: if_splits option.splits)
qed (use assms(3,4) in simp)

lemma exec_tasks_good:
  assumes "exec c t s = Some (Inr (ts', s'))" "\<forall>t \<in># tasks s. good_task t" "t' \<in># tasks s'"
  shows "good_task t'"
  using exec_gos [OF assms(1)] assms(2,3)
  by (auto simp: tasks_def good_task_def second_backoff)

lemma step_events_inv:
  assumes "step c s l s'" "events_inv s"
  shows "events_inv s'"
  using assms(1)
proof (cases rule: step_cases)
  case (ran t ts' s1 g)
  then have t: "good_task t" using assms(2) by (simp add: events_inv_def)
  have "good_task t'" if "t' \<in># tasks s'" for t'
    using that ran(5) exec_good [OF ran(3) t] exec_tasks_good [OF ran(3)] assms(2)
    by (auto simp: events_inv_def dest: in_diffD)
  moreover have "is_event_raw (event_raw e)" if "e \<in> set (buffer s')" for e
    using exec_buffer_events [OF ran(3) t] assms(2) that ran(4) by (auto simp: events_inv_def)
  ultimately show ?thesis by (simp add: events_inv_def)
next
  case (fired i fn)
  then show ?thesis using assms(2) by (auto simp: events_inv_def go_def Stop_def callback_def good_task_def split: timer_fn.split)
next
  case (called n g new sk)
  then have "good_task t" if "t \<in> set new" for t using that by (auto simp: good_task_def)
  moreover have "good_task t" if "t \<in># tasks s - {#ServeSocket sk#}" for t
    using in_diffD [OF that] assms(2) by (simp add: events_inv_def)
  ultimately have "\<forall>t \<in># tasks s'. good_task t" using called(4) assms(2) by (auto simp: events_inv_def)
  with called(2) assms(2) show ?thesis by (simp add: events_inv_def)
qed

lemma events_inv_new: "events_inv (new_session r)"
  by (simp add: events_inv_def new_session_def tasks_def)

interpretation events: state_invariant "step c" "new_session r" events_inv for c r
  by unfold_locales (rule events_inv_new, rule step_events_inv)

text \<open>A buffered event can always be stamped, so no region panics.\<close>

lemma exec_good_no_panic:
  assumes "good_task t" "\<forall>e \<in> set (buffer s). is_event_raw (event_raw e)"
  shows "exec c t s \<noteq> Some (Inl p)"
proof (cases t)
  case (OnEvent raw)
  with assms(1) have "is_event_raw raw" by (simp add: good_task_def)
  then obtain f where "rewriteEnvelopeID raw (randID (rand_src c) (draws s)) = Inr f" using rewrite_event by blast
  with OnEvent show ?thesis by (simp add: onEvent_locked_result split: option.split)
next
  case (DeliverBuffered sk)
  let ?s = "stop_deliver (s\<lparr>settled := True\<rparr>)"
  have "\<exists>fs. build_frames c (buffer s) ?s = Inr (fs, stamp_state c (buffer s) ?s)"
    using build_frames_ok [of "buffer s" c ?s] assms(2) by auto
  then show ?thesis using DeliverBuffered by (auto simp: deliver_locked_def buildEventFramesLocked_def)
qed (auto simp: Let_def)

lemma exec_no_panic: "events_inv s \<Longrightarrow> t \<in># tasks s \<Longrightarrow> exec c t s \<noteq> Some (Inl p)"
  by (rule exec_good_no_panic) (simp_all add: events_inv_def)

section \<open>Counting tasks\<close>

definition cnt :: "(task \<Rightarrow> bool) \<Rightarrow> session \<Rightarrow> nat" where
  "cnt P s = size (filter_mset P (tasks s))"

definition one :: "bool \<Rightarrow> nat" where
  "one b = (if b then 1 else 0)"

lemma one_simps [simp]: "one True = 1" "one False = 0"
  by (simp_all add: one_def)

lemma cnt_ran:
  assumes "tasks s' = tasks s1 - {#t#} + mset ts'" "t \<in># tasks s1"
  shows "cnt P s' + one (P t) = cnt P s1 + length (filter P ts')"
proof -
  obtain M where M: "tasks s1 = add_mset t M" using assms(2) by (metis insert_DiffM)
  then have "tasks s' = M + mset ts'" using assms(1) by simp
  then show ?thesis using M by (simp add: cnt_def one_def flip: size_mset mset_filter)
qed

lemma cnt_exec:
  assumes "exec c t s = Some (Inr (ts', s1))" "\<not> P ResumeActor_call" "\<not> P (RunSlack second)"
  shows "cnt P s1 = cnt P s"
  using exec_gos [OF assms(1)] assms(2,3) by (auto simp: cnt_def tasks_def)

lemma cnt_called:
  assumes "tasks s' = tasks s + mset new \<or> tasks s' = tasks s - {#ServeSocket sk#} + mset new" "\<And>sk. \<not> P (ServeSocket sk)"
    "\<And>t. t \<in> set new \<Longrightarrow> \<not> P t"
  shows "cnt P s' = cnt P s"
proof -
  have "filter_mset P (mset new) = {#}" using assms(3) by (simp add: filter_False flip: mset_filter)
  with assms(1,2) show ?thesis by (auto simp: cnt_def)
qed

section \<open>One writer at a time\<close>

definition writing :: "task \<Rightarrow> bool" where
  "writing t = (case t of WriteNext sk fs \<Rightarrow> True | WriteSend sk f fs \<Rightarrow> True | _ \<Rightarrow> False)"

definition lock_inv :: "session \<Rightarrow> bool" where
  "lock_inv s \<longleftrightarrow> cnt writing s = one (sinkWrite s)"

lemma exec_writing:
  "exec c t s = Some (Inr (ts', s')) \<Longrightarrow> one (writing t) \<le> one (sinkWrite s) \<Longrightarrow>
    length (filter writing ts') + one (sinkWrite s) = one (sinkWrite s') + one (writing t)"
proof (cases "t = ReadFrame")
  case True
  have none: "filter writing (read_tasks r) = []" for r
    by (auto simp: read_tasks_def writing_def split: reply.split sum.split)
  assume "exec c t s = Some (Inr (ts', s'))"
  with True none show ?thesis by (auto simp: Let_def io_def writing_def)
next
  case False
  assume "exec c t s = Some (Inr (ts', s'))" "one (writing t) \<le> one (sinkWrite s)"
  with False show ?thesis
    by (cases t)
      (auto simp: exec_defs one_def writing_def stampLocked_result dest!: build_frames_state
        split: if_splits option.splits sum.splits list.splits event_plan.splits)
qed

lemma cnt_member: "t \<in># tasks s \<Longrightarrow> one (P t) \<le> cnt P s"
proof -
  assume "t \<in># tasks s"
  then obtain M where "tasks s = add_mset t M" by (metis insert_DiffM)
  then show "one (P t) \<le> cnt P s" by (simp add: cnt_def one_def)
qed

lemma step_lock_inv:
  assumes "step c s l s'" "lock_inv s"
  shows "lock_inv s'"
  using assms(1)
proof (cases rule: step_cases)
  case (ran t ts' s1 g)
  have "cnt writing s1 = cnt writing s" using cnt_exec [OF ran(3)] by (simp add: writing_def)
  moreover have "one (writing t) \<le> one (sinkWrite s)" using cnt_member [OF ran(2), of writing] assms(2) by (simp add: lock_inv_def)
  ultimately show ?thesis
    using cnt_ran [OF ran(5,6), of writing] exec_writing [OF ran(3)] assms(2) ran(4) by (simp add: lock_inv_def)
next
  case (fired i fn)
  then show ?thesis using assms(2)
    by (auto simp: lock_inv_def cnt_def Stop_def go_def writing_def callback_def split: timer_fn.split)
next
  case (called n g new sk)
  have "cnt writing s' = cnt writing s" by (rule cnt_called [OF called(4)]) (use called(5) in \<open>auto simp: writing_def\<close>)
  with called(2) assms(2) show ?thesis by (simp add: lock_inv_def)
qed

lemma lock_inv_new: "lock_inv (new_session r)"
  by (simp add: lock_inv_def cnt_def tasks_def new_session_def)

interpretation lock: state_invariant "step c" "new_session r" lock_inv for c r
  by unfold_locales (rule lock_inv_new, rule step_lock_inv)

section \<open>One Slack connection\<close>

text \<open>
  Each run of \<^verbatim>\<open>runSlack\<close> is at exactly one of these places, also while it reads from the
  connection, which it closes afterwards.
\<close>

definition loop_task :: "task \<Rightarrow> bool" where
  "loop_task t = (case t of RunSlack d \<Rightarrow> True | ReadToken d \<Rightarrow> True | DialSlack tok d \<Rightarrow> True
     | SleepSlack d \<Rightarrow> True | CloseConn \<Rightarrow> True | StopCheck \<Rightarrow> True | _ \<Rightarrow> False)"

definition reading_task :: "task \<Rightarrow> bool" where
  "reading_task t = (case t of ReadLoop \<Rightarrow> True | ReadFrame \<Rightarrow> True | _ \<Rightarrow> False)"

definition slack_inv :: "session \<Rightarrow> bool" where
  "slack_inv s \<longleftrightarrow> cnt loop_task s \<le> one (started s) \<and>
     (started s \<longrightarrow> stop s = Some (closed s))"

lemma read_tasks_loop: "filter loop_task (read_tasks r) = []"
  by (auto simp: read_tasks_def loop_task_def split: reply.split sum.split)

lemma exec_loop: "exec c t s = Some (Inr (ts', s')) \<Longrightarrow> length (filter loop_task ts') \<le> one (loop_task t)"
  by (cases t) (auto simp: loop_task_def plan_tasks_def read_tasks_loop Let_def
      split: if_splits option.splits sum.splits list.splits event_plan.splits)

lemma exec_started:
  "exec c t s = Some (Inr (ts', s')) \<Longrightarrow>
    (started s' = started s \<and> stop s' = stop s \<and> closed s' = closed s) \<or>
    (t = CloseSession \<and> s' = Close s) \<or> (\<exists>token. t = Start token \<and> s' = EnsureStarted token s)"
  by (cases t)
    (auto simp: onEvent_locked_result plan_go_def io_def go_def onIdle_locked_def suspend_failed_locked_def
      resume_failed_locked_def noteActivity_def attach_locked_def Detach_def Ack_event_def beginForward_def
      endForward_def sleepOrStop_def Let_def dest!: deliver_locked_state
      split: if_splits option.splits sum.splits list.splits)

lemma exec_slack_inv:
  assumes "exec c t s = Some (Inr (ts', s'))" "slack_inv s"
  shows "slack_inv s'"
proof (cases "\<exists>token. t = Start token \<and> \<not> started s \<and> \<not> closed s")
  case True
  then obtain token where t: "t = Start token" "\<not> started s" "\<not> closed s" by blast
  with assms(1) have "s' = go [RunSlack second] (s\<lparr>appToken := token, started := True, stop := Some False\<rparr>)"
    by (simp add: EnsureStarted_def Let_def)
  with assms(2) t show ?thesis by (simp add: slack_inv_def cnt_def tasks_def go_def) (simp add: loop_task_def)
next
  case False
  then have "cnt loop_task s' = cnt loop_task s"
    using exec_gos [OF assms(1)] by (auto simp: cnt_def tasks_def loop_task_def)
  with False exec_started [OF assms(1)] assms(2) show ?thesis
    by (auto simp: slack_inv_def Close_def EnsureStarted_def Let_def split: if_splits)
qed

lemma step_slack_inv:
  assumes "step c s l s'" "slack_inv s"
  shows "slack_inv s'"
  using assms(1)
proof (cases rule: step_cases)
  case (ran t ts' s1 g)
  have "cnt loop_task s' \<le> cnt loop_task s1"
    using cnt_ran [OF ran(5,6), of loop_task] exec_loop [OF ran(3)] by simp
  with exec_slack_inv [OF ran(3) assms(2)] ran(4) show ?thesis by (simp add: slack_inv_def)
next
  case (fired i fn)
  then show ?thesis using assms(2)
    by (auto simp: slack_inv_def cnt_def Stop_def go_def loop_task_def callback_def split: timer_fn.split)
next
  case (called n g new sk)
  have "cnt loop_task s' = cnt loop_task s" by (rule cnt_called [OF called(4)]) (use called(5) in \<open>auto simp: loop_task_def\<close>)
  with called(2) assms(2) show ?thesis by (simp add: slack_inv_def)
qed

lemma slack_inv_new: "slack_inv (new_session r)"
  by (simp add: slack_inv_def cnt_def tasks_def new_session_def)

interpretation slack: state_invariant "step c" "new_session r" slack_inv for c r
  by unfold_locales (rule slack_inv_new, rule step_slack_inv)

section \<open>One resume per disconnection\<close>

definition is_resume :: "action \<Rightarrow> bool" where
  "is_resume a = (case a of OResume r \<Rightarrow> True | _ \<Rightarrow> False)"

definition clears_resuming :: "label \<Rightarrow> bool" where
  "clears_resuming l = (case l of Ran t \<Rightarrow> (case t of AttachSink sk \<Rightarrow> True | ResumeFailed \<Rightarrow> True | _ \<Rightarrow> False) | _ \<Rightarrow> False)"

definition resumes :: "session \<Rightarrow> nat" where
  "resumes s = length (filter is_resume (out s))"

definition resume_task :: "task \<Rightarrow> bool" where
  "resume_task t \<longleftrightarrow> t = ResumeActor_call"

definition resume_inv :: "label list \<Rightarrow> session \<Rightarrow> bool" where
  "resume_inv ls s \<longleftrightarrow> cnt resume_task s + resumes s \<le> length (filter clears_resuming ls) + one (resuming s)"

lemma read_tasks_resume: "filter resume_task (read_tasks r) = []"
  by (auto simp: read_tasks_def resume_task_def split: reply.split sum.split)

lemma exec_resume_tasks: "exec c t s = Some (Inr (ts', s')) \<Longrightarrow> filter resume_task ts' = []"
  by (cases t) (auto simp: resume_task_def plan_tasks_def read_tasks_resume Let_def
      split: if_splits option.splits sum.splits list.splits event_plan.splits)

lemma exec_resuming:
  assumes "exec c t s = Some (Inr (ts', s'))"
  shows "cnt resume_task s' + resumes s' + one (resuming s) \<le>
    cnt resume_task s + resumes s + one (resume_task t) + one (clears_resuming (Ran t)) + one (resuming s')"
proof -
  have start: "cnt resume_task s' = cnt resume_task s" if "gos s' = gos s \<or> gos s' = gos s @ [[RunSlack second]]"
    using that by (auto simp: cnt_def tasks_def resume_task_def)
  show ?thesis
  proof (cases t)
    case (OnEvent raw)
    with assms show ?thesis
      by (auto simp: onEvent_locked_result plan_go_def resumes_def cnt_def go_def tasks_def resume_task_def one_def
          split: option.splits if_splits sum.splits)
  next
    case (DeliverBuffered sk)
    with assms show ?thesis
      by (auto simp: resumes_def cnt_def tasks_def dest!: deliver_locked_state split: sum.splits option.splits)
  next
    case (Start token)
    with assms exec_gos [OF assms] start show ?thesis by (auto simp: resumes_def EnsureStarted_def go_def Let_def split: if_splits)
  qed (use assms in \<open>auto simp: exec_defs resumes_def is_resume_def cnt_def tasks_def one_def resume_task_def clears_resuming_def
      split: if_splits option.splits list.splits\<close>)
qed

lemma step_resume_inv:
  assumes "step c s l s'" "resume_inv ls s"
  shows "resume_inv (ls @ [l]) s'"
  using assms(1)
proof (cases rule: step_cases)
  case (ran t ts' s1 g)
  have "cnt resume_task s' + one (resume_task t) = cnt resume_task s1"
    using cnt_ran [OF ran(5,6), of resume_task] exec_resume_tasks [OF ran(3)] by simp
  moreover have "length (filter clears_resuming (ls @ [l])) = length (filter clears_resuming ls) + one (clears_resuming (Ran t))"
    using ran(1) by (simp add: one_def)
  moreover have "resumes s' = resumes s1" "one (resuming s') = one (resuming s1)" using ran(4) by (simp_all add: resumes_def)
  ultimately show ?thesis using exec_resuming [OF ran(3)] assms(2) unfolding resume_inv_def by linarith
next
  case (fired i fn)
  then show ?thesis using assms(2)
    by (auto simp: resume_inv_def resumes_def cnt_def Stop_def go_def resume_task_def callback_def clears_resuming_def split: timer_fn.split)
next
  case (called n g new sk)
  have "cnt resume_task s' = cnt resume_task s" by (rule cnt_called [OF called(4)]) (use called(5) in \<open>auto simp: resume_task_def\<close>)
  with called(1,2) assms(2) show ?thesis by (simp add: resume_inv_def resumes_def clears_resuming_def)
qed

lemma resume_inv_new: "resume_inv [] (new_session r)"
  by (simp add: resume_inv_def cnt_def tasks_def resumes_def new_session_def)

interpretation resume: run_invariant "step c" "new_session r" resume_inv for c r
  by unfold_locales (rule resume_inv_new, rule step_resume_inv)

end
