(* ===== verification/SessionOrder.thy ===== *)
theory SessionOrder
  imports SessionInv "HOL-Library.Sublist"
begin

text \<open>
  The buffer against the history of a run: the events that wait for an acknowledgement are events
  that arrived, each under the number of its arrival, in the order of arrival; an event leaves the
  buffer only by an acknowledgement of an id that was stamped on it.
\<close>

section \<open>Arrivals\<close>

fun arrived :: "label list \<Rightarrow> bytes list" where
  "arrived [] = []"
| "arrived (l # ls) = (case l of Ran (OnEvent raw) \<Rightarrow> [raw] | _ \<Rightarrow> []) @ arrived ls"

lemma arrived_append [simp]: "arrived (ls @ ls') = arrived ls @ arrived ls'"
  by (induction ls) auto

definition numbered :: "bytes list \<Rightarrow> nat \<Rightarrow> pendingEvent" where
  "numbered raws i = \<lparr>event_key = of_nat i, event_raw = raws ! i\<rparr>"

definition order_inv :: "label list \<Rightarrow> session \<Rightarrow> bool" where
  "order_inv ls s \<longleftrightarrow> nextKey s = of_nat (length (arrived ls)) \<and>
     (\<exists>ns. sorted_wrt (<) ns \<and> (\<forall>i \<in> set ns. i < length (arrived ls)) \<and> buffer s = map (numbered (arrived ls)) ns)"

lemma remove_key_map: "\<exists>ns'. subseq ns' ns \<and> remove_key k (map f ns) = map f ns'"
proof (induction ns)
  case (Cons n ns)
  then obtain ns' where ns': "subseq ns' ns" "remove_key k (map f ns) = map f ns'" by blast
  show ?case
  proof (cases "event_key (f n) = k")
    case True
    then show ?thesis by (intro exI [of _ ns]) auto
  next
    case False
    with ns' show ?thesis by (intro exI [of _ "n # ns'"]) auto
  qed
qed simp

lemma sorted_wrt_subseq: "subseq xs ys \<Longrightarrow> sorted_wrt P ys \<Longrightarrow> sorted_wrt P xs"
  by (induction rule: list_emb.induct) (auto dest: list_emb_set)

lemma order_inv_remove:
  "order_inv ls s \<Longrightarrow> buffer s' = remove_key k (buffer s) \<Longrightarrow> nextKey s' = nextKey s \<Longrightarrow> order_inv ls s'"
proof -
  assume inv: "order_inv ls s" and b: "buffer s' = remove_key k (buffer s)" and n: "nextKey s' = nextKey s"
  from inv obtain ns where ns: "sorted_wrt (<) ns" "\<forall>i \<in> set ns. i < length (arrived ls)" "buffer s = map (numbered (arrived ls)) ns"
    by (auto simp: order_inv_def)
  from remove_key_map obtain ns' where ns': "subseq ns' ns" "buffer s' = map (numbered (arrived ls)) ns'" using b ns(3) by metis
  have "set ns' \<subseteq> set ns" using ns'(1) by (auto elim: subseq_order.order_trans dest: list_emb_set)
  with ns ns' sorted_wrt_subseq [OF ns'(1) ns(1)] inv n show ?thesis by (auto simp: order_inv_def)
qed

lemma order_inv_same: "order_inv ls s \<Longrightarrow> buffer s' = buffer s \<Longrightarrow> nextKey s' = nextKey s \<Longrightarrow> order_inv ls s'"
  by (simp add: order_inv_def)

lemma order_inv_quiet: "arrived [l] = [] \<Longrightarrow> order_inv (ls @ [l]) s = order_inv ls s"
  by (simp add: order_inv_def)

lemma numbered_append: "i < length raws \<Longrightarrow> numbered (raws @ raws') i = numbered raws i"
  by (simp add: numbered_def nth_append)

lemma order_inv_arrival:
  assumes "order_inv ls s" "buffer s' = buffer s @ [new_event raw s]" "nextKey s' = nextKey s + 1"
  shows "order_inv (ls @ [Ran (OnEvent raw)]) s'"
proof -
  let ?n = "length (arrived ls)"
  from assms(1) obtain ns where ns: "sorted_wrt (<) ns" "\<forall>i \<in> set ns. i < ?n" "buffer s = map (numbered (arrived ls)) ns"
    and key: "nextKey s = of_nat ?n" by (auto simp: order_inv_def)
  have "new_event raw s = numbered (arrived ls @ [raw]) ?n" by (simp add: new_event_def numbered_def key)
  moreover have "map (numbered (arrived ls)) ns = map (numbered (arrived ls @ [raw])) ns"
    using ns(2) by (simp add: numbered_append)
  ultimately have "buffer s' = map (numbered (arrived ls @ [raw])) (ns @ [?n])" using assms(2) ns(3) by simp
  then show ?thesis unfolding order_inv_def
    using ns(1,2) assms(3) key
    by (intro conjI exI [of _ "ns @ [?n]"]) (auto simp: sorted_wrt_append algebra_simps)
qed

lemma onEvent_locked_buffer:
  "onEvent_locked c raw s = Inr (p, s') \<Longrightarrow> buffer s' = buffer s @ [new_event raw s] \<and> nextKey s' = nextKey s + 1"
  by (auto simp: onEvent_locked_result split: option.splits if_splits sum.splits)

lemma Ack_buffer:
  "buffer (Ack_event c i s) = (if i = [] then buffer s else case fresh_map s i of None \<Rightarrow> buffer s | Some k \<Rightarrow> remove_key k (buffer s))"
  "nextKey (Ack_event c i s) = nextKey s"
  by (auto simp: Ack_event_def split: option.split)

lemma plan_go_buffer: "buffer (plan_go p s) = buffer s" "nextKey (plan_go p s) = nextKey s"
  by (auto simp: plan_go_def go_def split: event_plan.split)

lemma exec_order_inv:
  assumes "exec c t s = Some (Inr (ts', s'))" "order_inv ls s"
  shows "order_inv (ls @ [Ran t]) s'"
  using exec_buffer [OF assms(1)]
proof (elim disjE exE conjE)
  fix raw p s1 assume "t = OnEvent raw" "onEvent_locked c raw s = Inr (p, s1)" "s' = plan_go p s1"
  with onEvent_locked_buffer [of c raw s p s1] show ?thesis
    by (simp add: order_inv_arrival [OF assms(2)] plan_go_buffer)
next
  fix sk fs assume "t = DeliverBuffered sk" "deliver_locked c sk s = Inr (fs, s')"
  with deliver_locked_state [of c sk s fs s'] order_inv_same [OF assms(2), of s'] show ?thesis
    by (auto simp: order_inv_quiet)
next
  fix i assume "t = AckEvent i" "s' = Ack_event c i s"
  moreover have "order_inv ls (Ack_event c i s)"
  proof (cases "i = [] \<or> fresh_map s i = None")
    case True
    then show ?thesis by (intro order_inv_same [OF assms(2)]) (auto simp: Ack_buffer)
  next
    case False
    then show ?thesis by (intro order_inv_remove [OF assms(2), of _ "the (fresh_map s i)"]) (auto simp: Ack_buffer)
  qed
  ultimately show ?thesis by (simp add: order_inv_quiet)
next
  assume b: "buffer s' = buffer s" "freshIDs s' = freshIDs s" "nextKey s' = nextKey s"
  show ?thesis
  proof (cases "\<exists>raw. t = OnEvent raw")
    case True
    with assms b(1) show ?thesis
      by (auto simp: plan_go_buffer dest!: onEvent_locked_buffer split: sum.splits)
  next
    case False
    then have "arrived [Ran t] = []" by (auto split: task.split)
    with order_inv_same [OF assms(2) b(1,3)] show ?thesis by (simp add: order_inv_quiet)
  qed
qed

lemma step_order_inv:
  assumes "step c s l s'" "order_inv ls s"
  shows "order_inv (ls @ [l]) s'"
  using assms(1)
proof (cases rule: step_cases)
  case (ran t ts' s1 g)
  with exec_order_inv [OF ran(3) assms(2)] show ?thesis by (auto intro: order_inv_same)
next
  case (fired i fn)
  with assms(2) show ?thesis by (auto simp: order_inv_quiet go_def Stop_def intro: order_inv_same)
next
  case (called n g new sk)
  with assms(2) show ?thesis by (auto simp: order_inv_quiet intro: order_inv_same)
qed

lemma order_inv_new: "order_inv [] (new_session r)"
  by (simp add: order_inv_def new_session_def)

interpretation order: run_invariant "step c" "new_session r" order_inv for c r
  by unfold_locales (rule order_inv_new, rule step_order_inv)

section \<open>Distinct keys\<close>

text \<open>The keys are 64-bit counters: they are distinct as long as at most \<open>2 ^ 64\<close> events arrived.\<close>

lemma of_nat_u64_inject: "i < 2 ^ 64 \<Longrightarrow> j < 2 ^ 64 \<Longrightarrow> (of_nat i :: u64) = of_nat j \<longleftrightarrow> i = j"
  by (simp add: word_of_nat_eq_iff take_bit_nat_eq_self)

lemma order_inv_distinct:
  assumes "order_inv ls s" "length (arrived ls) \<le> 2 ^ 64"
  shows "distinct (map event_key (buffer s))"
proof -
  from assms(1) obtain ns where ns: "sorted_wrt (<) ns" "\<forall>i \<in> set ns. i < length (arrived ls)" "buffer s = map (numbered (arrived ls)) ns"
    by (auto simp: order_inv_def)
  have "map event_key (buffer s) = map (of_nat :: nat \<Rightarrow> u64) ns" using ns(3) by (simp add: numbered_def)
  moreover have "inj_on (of_nat :: nat \<Rightarrow> u64) (set ns)"
    using ns(2) assms(2) of_nat_u64_inject by (auto intro!: inj_onI) (meson less_le_trans)
  moreover have "distinct ns" using ns(1) by (simp add: strict_sorted_iff)
  ultimately show ?thesis by (simp add: distinct_map)
qed

lemma order_inv_subseq:
  assumes "order_inv ls s"
  shows "subseq (map event_raw (buffer s)) (arrived ls)"
proof -
  from assms obtain ns where ns: "sorted_wrt (<) ns" "\<forall>i \<in> set ns. i < length (arrived ls)" "buffer s = map (numbered (arrived ls)) ns"
    by (auto simp: order_inv_def)
  have "subseq ns [0..<length (arrived ls)]"
  proof -
    have "ns = filter (\<lambda>i. i \<in> set ns) [0..<length (arrived ls)]"
      by (rule strict_sorted_equal) (use ns(1,2) in \<open>auto simp: sorted_wrt_filter\<close>)
    then show ?thesis by (metis subseq_filter_left)
  qed
  then have "subseq (map ((!) (arrived ls)) ns) (map ((!) (arrived ls)) [0..<length (arrived ls)])" by (rule subseq_map)
  then show ?thesis using ns(3) by (simp add: numbered_def map_nth comp_def)
qed

section \<open>Acknowledging\<close>

lemma remove_key_split:
  assumes "k \<in> event_key ` set es" "distinct (map event_key es)"
  shows "\<exists>xs e ys. es = xs @ e # ys \<and> event_key e = k \<and> remove_key k es = xs @ ys \<and> k \<notin> event_key ` set (xs @ ys)"
  using assms
proof (induction es)
  case (Cons a es)
  show ?case
  proof (cases "event_key a = k")
    case True
    with Cons.prems show ?thesis by (intro exI [of _ "[]"] exI [of _ a] exI [of _ es]) auto
  next
    case False
    with Cons obtain xs e ys where "es = xs @ e # ys" "event_key e = k" "remove_key k es = xs @ ys" "k \<notin> event_key ` set (xs @ ys)"
      by auto
    with False show ?thesis by (intro exI [of _ "a # xs"] exI [of _ e] exI [of _ ys]) auto
  qed
qed simp

lemma map_of_filter_distinct:
  "distinct (map fst m) \<Longrightarrow> map_of (filter (\<lambda>(i, k'). k' \<noteq> k) m) i = (if map_of m i = Some k then None else map_of m i)"
proof (induction m)
  case (Cons a m)
  obtain j x where a: "a = (j, x)" by (cases a)
  with Cons.prems have "map_of m j = None" by (auto simp: map_of_eq_None_iff)
  with Cons a show ?case by auto
qed simp

lemma Ack_fresh:
  assumes "distinct (map fst (fresh_entries s))" "fresh_map s i = Some k" "i \<noteq> []"
  shows "fresh_map (Ack_event c i s) j = (if fresh_map s j = Some k then None else fresh_map s j)"
proof -
  let ?s = "s\<lparr>buffer := remove_key k (buffer s), freshIDs := map_option (filter (\<lambda>(fid, k'). k' \<noteq> k)) (freshIDs s)\<rparr>"
  have "fresh_map (Ack_event c i s) j = fresh_map ?s j" using assms(2,3) by (simp add: Ack_event_def fresh_map_def)
  also have "\<dots> = map_of (filter (\<lambda>(fid, k'). k' \<noteq> k) (fresh_entries s)) j"
    unfolding fresh_map_entries fresh_entries_filter ..
  also have "\<dots> = (if fresh_map s j = Some k then None else fresh_map s j)"
    unfolding map_of_filter_distinct [OF assms(1)] fresh_map_entries ..
  finally show ?thesis .
qed

lemma fresh_key_buffered: "ids_inv s \<Longrightarrow> fresh_map s i = Some k \<Longrightarrow> k \<in> event_key ` set (buffer s)"
  unfolding fresh_map_entries ids_inv_def by (force dest: map_of_SomeD)

end
