(* ===== verification/SessionRun.thy ===== *)
theory SessionRun
  imports SessionOrder
begin

text \<open>
  The methods of a session as sequential programs: each is what its goroutine does when it runs
  without interruption. Delivery writes one frame per buffered event, in order, each under an id
  that leads back to its event; a whole cycle of event, resume, reconnection, heartbeat and
  acknowledgement leaves nothing behind.
\<close>

section \<open>A goroutine running alone\<close>

inductive finishes :: "config \<Rightarrow> task list \<Rightarrow> session \<Rightarrow> go_panic + session \<Rightarrow> bool" for c where
  finishes_Nil: "finishes c [] s (Inr s)"
| finishes_step: "\<lbrakk>exec c t s = Some (Inr (ts', s')); finishes c (ts' @ ts) s' r\<rbrakk> \<Longrightarrow> finishes c (t # ts) s r"
| finishes_panic: "exec c t s = Some (Inl p) \<Longrightarrow> finishes c (t # ts) s (Inl p)"

inductive_cases finishes_ConsE: "finishes c (t # ts) s r"

lemma finishes_unique: "finishes c g s r \<Longrightarrow> finishes c g s r' \<Longrightarrow> r = r'"
proof (induction arbitrary: r' rule: finishes.induct)
  case (finishes_Nil s)
  then show ?case by (auto elim: finishes.cases)
next
  case (finishes_step t s ts' s' ts r)
  from finishes_step.prems show ?case
  proof (rule finishes_ConsE)
    fix us u assume "exec c t s = Some (Inr (us, u))" and rest: "finishes c (us @ ts) u r'"
    with finishes_step.hyps(1) have "us = ts'" "u = s'" by simp_all
    with rest finishes_step.IH show ?thesis by simp
  next
    fix p assume "exec c t s = Some (Inl p)"
    with finishes_step.hyps(1) show ?thesis by simp
  qed
next
  case (finishes_panic t s p ts)
  from finishes_panic.prems show ?case
    by (rule finishes_ConsE) (use finishes_panic.hyps in simp_all)
qed

lemma finishes_write_next:
  "finishes c ts ((write_frames c sk fs s)\<lparr>sinkWrite := False\<rparr>) r \<Longrightarrow> finishes c (WriteNext sk fs # ts) s r"
proof (induction c sk fs s rule: write_frames.induct)
  case (1 c sk s)
  then show ?case by (intro finishes_step [of _ _ _ "[]" "s\<lparr>sinkWrite := False\<rparr>"]) auto
next
  case (2 c sk f fs s)
  let ?r = "io c (OWrite sk f) s"
  show ?case
  proof (cases "sink s = Some sk")
    case False
    with 2(2) show ?thesis by (intro finishes_step [of _ _ _ "[]" "s\<lparr>sinkWrite := False\<rparr>"]) auto
  next
    case True
    have "finishes c (WriteSend sk f fs # ts) s r"
    proof (cases "fst ?r = Fail")
      case fail: True
      with 2(2) True show ?thesis
        by (intro finishes_step [of _ _ _ "[]" "(snd ?r)\<lparr>sinkWrite := False\<rparr>"]) (auto simp: Let_def)
    next
      case False
      with 2 True show ?thesis by (intro finishes_step [of _ _ _ "[WriteNext sk fs]" "snd ?r"]) (auto simp: Let_def)
    qed
    with True show ?thesis by (intro finishes_step [of _ _ _ "[WriteSend sk f fs]" s]) auto
  qed
qed

lemma finishes_write:
  "\<not> sinkWrite s \<Longrightarrow> finishes c ts (writeToSink c sk fs s) r \<Longrightarrow> finishes c (WriteToSink sk fs # ts) s r"
  unfolding writeToSink_def
  by (rule finishes_step [of _ _ _ "[WriteNext sk fs]" "s\<lparr>sinkWrite := True\<rparr>"]) (auto intro: finishes_write_next)

lemma finishes_activity: "finishes c ts (noteActivity c s) r \<Longrightarrow> finishes c (NoteActivity # ts) s r"
  by (rule finishes_step [of _ _ _ "[]"]) auto

lemma finishes_done: "exec c t s = Some (Inr ([], s')) \<Longrightarrow> finishes c [t] s (Inr s')"
  by (rule finishes_step) (auto intro: finishes_Nil)

lemma finishes_onEvent: "\<not> sinkWrite s \<Longrightarrow> finishes c [OnEvent raw] s (onEvent c raw s)"
proof -
  assume free: "\<not> sinkWrite s"
  show ?thesis
  proof (cases "onEvent_locked c raw s")
    case (Inl p)
    then show ?thesis by (simp add: onEvent_def finishes_panic)
  next
    case (Inr q)
    obtain p s1 where q: "q = (p, s1)" by (cases q)
    have free1: "\<not> sinkWrite s1" using free Inr q by (auto simp: onEvent_locked_result split: option.splits if_splits sum.splits)
    have ex: "exec c (OnEvent raw) s = Some (Inr (plan_tasks p, plan_go p s1))" using Inr q by simp
    show ?thesis
    proof (cases p)
      case (DeliverNow sk frames)
      with Inr q free1 show ?thesis
        by (intro finishes_step [OF ex])
          (auto simp: onEvent_def plan_tasks_def plan_go_def intro!: finishes_write finishes_activity finishes_Nil)
    qed (use Inr q in \<open>auto simp: onEvent_def plan_tasks_def plan_go_def intro!: finishes_step [OF ex] finishes_Nil\<close>)
  qed
qed

lemma deliver_lock: "deliver_locked c sk s = Inr (fs, s') \<Longrightarrow> sinkWrite s' = sinkWrite s"
  by (auto dest!: deliver_locked_state)

lemma finishes_deliver: "\<not> sinkWrite s \<Longrightarrow> finishes c [DeliverBuffered sk] s (deliverBufferedNow c sk s)"
proof -
  assume free: "\<not> sinkWrite s"
  show ?thesis
  proof (cases "deliver_locked c sk s")
    case (Inl p)
    then show ?thesis by (simp add: deliverBufferedNow_def finishes_panic)
  next
    case (Inr q)
    obtain fs s1 where q: "q = (fs, s1)" by (cases q)
    have free1: "\<not> sinkWrite s1" using free Inr q deliver_lock by blast
    show ?thesis
    proof (cases fs)
      case None
      with Inr q show ?thesis by (simp add: deliverBufferedNow_def finishes_done)
    next
      case (Some frames)
      then have ex: "exec c (DeliverBuffered sk) s = Some (Inr ([WriteToSink sk frames, NoteActivity], s1))" using Inr q by simp
      show ?thesis using Inr q Some free1
        by (intro finishes_step [OF ex]) (auto simp: deliverBufferedNow_def intro!: finishes_write finishes_activity finishes_Nil)
    qed
  qed
qed

lemma finishes_append_Inr: "finishes c g s (Inr s') \<Longrightarrow> finishes c g' s' r \<Longrightarrow> finishes c (g @ g') s r"
proof (induction g s "Inr s' :: go_panic + session" rule: finishes.induct)
  case (finishes_step t s ts' s1 ts)
  then show ?case by (auto intro: finishes.finishes_step)
qed simp

lemma finishes_attach: "\<not> sinkWrite s \<Longrightarrow> finishes c [AttachSink sk] s (Attach c sk s)"
proof -
  assume free: "\<not> sinkWrite s"
  let ?s1 = "attach_locked sk s"
  let ?s2 = "writeToSink c sk [helloFrame] ?s1"
  let ?held = "AttachHeld sk (deliverDelay c) (length (buffer ?s1))"
  have "finishes c [?held] ?s2 (Attach c sk s)"
  proof (cases "buffer ?s1 = []")
    case True
    then have "finishes c [DeliverBuffered sk] ?s2 (Attach c sk s)"
      using finishes_deliver [of ?s2 c sk] by (simp add: Attach_def Let_def writeToSink_def)
    with True show ?thesis by (intro finishes_step [of _ _ _ "[DeliverBuffered sk]" ?s2]) auto
  next
    case False
    show ?thesis
    proof (cases "0 <s deliverDelay c")
      case True
      with False have "finishes c [AttachTimer sk] ?s2 (Attach c sk s)"
        by (auto simp: Attach_def Let_def intro: finishes_done)
      with True False show ?thesis by (intro finishes_step [of _ _ _ "[AttachTimer sk]" ?s2]) auto
    next
      case delay: False
      with False show ?thesis by (auto simp: Attach_def Let_def intro: finishes_done)
    qed
  qed
  then have "finishes c [WriteToSink sk [helloFrame], ?held] ?s1 (Attach c sk s)"
    using free by (intro finishes_write) (auto simp: attach_locked_def)
  then show ?thesis by (intro finishes_step [of _ _ _ "[WriteToSink sk [helloFrame], ?held]" ?s1]) (auto simp: Let_def)
qed

lemma finishes_onIdle: "finishes c [OnIdle] s (Inr (onIdle c s))"
proof (cases "fst (onIdle_locked s)")
  case False
  then show ?thesis by (auto simp: onIdle_def Let_def intro: finishes_done)
next
  case True
  let ?s1 = "snd (onIdle_locked s)"
  have ref: "ref ?s1 = ref s" by (simp add: onIdle_locked_def)
  have "finishes c [SuspendCall] ?s1 (Inr (onIdle c s))"
  proof (cases "fst (io c (OSuspend (ref s)) ?s1) = Fail")
    case fail: True
    then show ?thesis using True ref
      by (intro finishes_step [of _ _ _ "[SuspendFailed]" "snd (io c (OSuspend (ref s)) ?s1)"])
        (auto simp: onIdle_def Let_def intro: finishes_done)
  next
    case False
    with True ref show ?thesis by (auto simp: onIdle_def Let_def intro: finishes_done)
  qed
  with True show ?thesis by (intro finishes_step [of _ _ _ "[SuspendCall]" ?s1]) (auto simp: Let_def)
qed

lemma finishes_resume: "finishes c [ResumeActor_call] s (Inr (resumeActor c s))"
proof (cases "fst (io c (OResume (ref s)) s) = Fail")
  case True
  then show ?thesis
    by (intro finishes_step [of _ _ _ "[ResumeFailed]" "snd (io c (OResume (ref s)) s)"])
      (auto simp: resumeActor_def Let_def intro: finishes_done)
next
  case False
  then show ?thesis by (auto simp: resumeActor_def Let_def intro: finishes_done)
qed

section \<open>Writing\<close>

lemma write_frames_prefix:
  assumes "sink s = Some sk"
  shows "\<exists>n \<le> length fs. write_frames c sk fs s = s\<lparr>out := out s @ map (OWrite sk) (take n fs)\<rparr> \<and>
    ((\<forall>i. answer c i \<noteq> Fail) \<longrightarrow> n = length fs)"
  using assms
proof (induction fs arbitrary: s)
  case Nil
  show ?case by simp
next
  case (Cons f fs)
  let ?s = "s\<lparr>out := out s @ [OWrite sk f]\<rparr>"
  show ?case
  proof (cases "answer c (length (out s)) = Fail")
    case True
    with Cons.prems show ?thesis by (intro exI [of _ 1]) (auto simp: io_def Let_def)
  next
    case False
    from Cons.IH [of ?s] Cons.prems obtain n where "n \<le> length fs"
      "write_frames c sk fs ?s = ?s\<lparr>out := out ?s @ map (OWrite sk) (take n fs)\<rparr>" "(\<forall>i. answer c i \<noteq> Fail) \<longrightarrow> n = length fs" by auto
    with False Cons.prems show ?thesis by (intro exI [of _ "Suc n"]) (auto simp: io_def Let_def)
  qed
qed

lemma writeToSink_prefix:
  assumes "sink s = Some sk"
  shows "\<exists>n \<le> length fs. writeToSink c sk fs s = s\<lparr>out := out s @ map (OWrite sk) (take n fs), sinkWrite := False\<rparr> \<and>
    ((\<forall>i. answer c i \<noteq> Fail) \<longrightarrow> n = length fs)"
proof -
  from write_frames_prefix [of "s\<lparr>sinkWrite := True\<rparr>" sk fs c] assms obtain n where "n \<le> length fs"
    "write_frames c sk fs (s\<lparr>sinkWrite := True\<rparr>) = s\<lparr>sinkWrite := True, out := out s @ map (OWrite sk) (take n fs)\<rparr>"
    "(\<forall>i. answer c i \<noteq> Fail) \<longrightarrow> n = length fs" by auto
  then show ?thesis unfolding writeToSink_def by (intro exI [of _ n]) simp
qed

lemma writeToSink_all:
  "sink s = Some sk \<Longrightarrow> (\<And>i. answer c i \<noteq> Fail) \<Longrightarrow>
    writeToSink c sk fs s = s\<lparr>out := out s @ map (OWrite sk) fs, sinkWrite := False\<rparr>"
  using writeToSink_prefix [of s sk fs c] by auto

lemma writeToSink_stale: "sink s \<noteq> Some sk \<Longrightarrow> writeToSink c sk fs s = s\<lparr>sinkWrite := False\<rparr>"
  by (cases fs) (auto simp: writeToSink_def)

section \<open>Delivering the buffer\<close>

lemma deliver_locked_fresh:
  assumes "sink s = Some sk" "\<not> settled s" "\<forall>e \<in> set (buffer s). is_event_raw (event_raw e)"
  obtains fs where "deliver_locked c sk s = Inr (Some fs, stamp_state c (buffer s) (stop_deliver (s\<lparr>settled := True\<rparr>)))"
    "frames_for (rand_src c) (draws s) (buffer s) fs"
  using build_frames_ok [OF assms(3), of c "stop_deliver (s\<lparr>settled := True\<rparr>)"] assms(1,2)
  by (auto simp: deliver_locked_def buildEventFramesLocked_def)

lemma deliver_again: "sink s \<noteq> Some sk \<or> settled s \<Longrightarrow> deliverBufferedNow c sk s = Inr s"
  by (simp add: deliverBufferedNow_def deliver_locked_def)

lemma deliverBufferedNow_fresh:
  assumes "sink s = Some sk" "\<not> settled s" "\<forall>e \<in> set (buffer s). is_event_raw (event_raw e)"
  obtains fs n s' where "deliverBufferedNow c sk s = Inr s'" "frames_for (rand_src c) (draws s) (buffer s) fs"
    "n \<le> length fs" "(\<forall>i. answer c i \<noteq> Fail) \<longrightarrow> n = length fs"
    "out s' = out s @ map (OWrite sk) (take n fs)" "sink s' = Some sk" "settled s'" "buffer s' = buffer s"
    "draws s' = draws s + length (buffer s)" "resuming s' = resuming s"
    "fresh_entries s' = stamp_entries (rand_src c) (draws s) (buffer s) (fresh_entries s)"
    "nextKey s' = nextKey s" "ref s' = ref s" "gos s' = gos s" "deliverTmr s' = None"
proof -
  obtain fs where fs: "deliver_locked c sk s = Inr (Some fs, stamp_state c (buffer s) (stop_deliver (s\<lparr>settled := True\<rparr>)))"
    "frames_for (rand_src c) (draws s) (buffer s) fs" by (rule deliver_locked_fresh [OF assms])
  let ?s1 = "stamp_state c (buffer s) (stop_deliver (s\<lparr>settled := True\<rparr>))"
  from writeToSink_prefix [of ?s1 sk fs c] assms(1) obtain n where n: "n \<le> length fs"
    "writeToSink c sk fs ?s1 = ?s1\<lparr>out := out s @ map (OWrite sk) (take n fs), sinkWrite := False\<rparr>"
    "(\<forall>i. answer c i \<noteq> Fail) \<longrightarrow> n = length fs" by auto
  have entries: "fresh_entries (stop_deliver (s\<lparr>settled := True\<rparr>)) = fresh_entries s" by (simp add: fresh_entries_def)
  have keep: "fresh_entries (armIdleLocked c (t\<lparr>out := w, sinkWrite := b\<rparr>)) = fresh_entries t" for t w b
    by (simp add: fresh_entries_def)
  show ?thesis
    by (rule that [of "armIdleLocked c (?s1\<lparr>out := out s @ map (OWrite sk) (take n fs), sinkWrite := False\<rparr>)" fs n])
      (use fs n assms entries in \<open>simp_all add: deliverBufferedNow_def noteActivity_def keep\<close>)
qed

text \<open>
  Each frame decodes to an event under its own fresh id, and, when the random ids are distinct,
  the id leads back to the event.
\<close>

lemma frames_for_decode:
  assumes "frames_for src k es fs" "i < length es" "is_event_raw (event_raw (es ! i))"
  shows "\<exists>e. DecodeEnvelope (fs ! i) = Inr e \<and> EnvelopeID e = randID src (k + i)"
  using rewrite_event [OF assms(3), of src "k + i"] frames_for_nth [OF assms(1,2)] by (metis sum.inject(2))

section \<open>A whole cycle\<close>

lemma Attach_buffered:
  assumes "buffer s \<noteq> []" "\<And>i. answer c i \<noteq> Fail"
  shows "\<exists>s'. Attach c sk s = Inr s' \<and> out s' = out s @ [OWrite sk helloFrame] \<and> sink s' = Some sk \<and>
    \<not> settled s' \<and> \<not> resuming s' \<and> buffer s' = buffer s \<and> freshIDs s' = freshIDs s \<and> draws s' = draws s \<and>
    ref s' = ref s \<and> (deliverTmr s' = None \<longleftrightarrow> deliverDelay c \<le>s 0)"
proof -
  let ?s1 = "attach_locked sk s"
  have "writeToSink c sk [helloFrame] ?s1 = ?s1\<lparr>out := out ?s1 @ [OWrite sk helloFrame], sinkWrite := False\<rparr>"
    using writeToSink_all [of ?s1 sk c "[helloFrame]"] assms(2) by (simp add: attach_locked_def)
  then show ?thesis using assms(1)
    by (cases "0 <s deliverDelay c")
      (simp_all add: Attach_def Let_def attach_locked_def word_sless_alt word_sle_eq, simp add: attach_timer_locked_def AfterFunc_def Let_def)
qed

lemma event_cycle:
  assumes "sink s = None" "\<not> resuming s" "buffer s = []" "is_event_raw raw" "\<And>i. answer c i \<noteq> Fail"
  shows "\<exists>s1 s3 s4 f e. onEvent c raw s = Inr s1 \<and> gos s1 = gos s @ [[ResumeActor_call]] \<and>
    Attach c sk (resumeActor c s1) = Inr s3 \<and> MarkReady c sk s3 = Inr s4 \<and>
    out s4 = out s @ [OResume (ref s), OWrite sk helloFrame, OWrite sk f] \<and>
    DecodeEnvelope f = Inr e \<and> EnvelopeID e = randID (rand_src c) (draws s) \<and>
    buffer s4 = [new_event raw s] \<and> buffer (Ack_event c (EnvelopeID e) s4) = [] \<and> settled s4"
proof -
  let ?s1 = "go [ResumeActor_call] (buffered_state raw s)"
  let ?s2 = "resumeActor c ?s1"
  let ?id = "randID (rand_src c) (draws s)"
  have s1: "onEvent c raw s = Inr ?s1" using assms(1,2) by (simp add: onEvent_def onEvent_locked_result)
  have s2: "?s2 = ?s1\<lparr>out := out s @ [OResume (ref s)]\<rparr>" using assms(5) by (simp add: resumeActor_def io_def go_def Let_def)
  have buf: "buffer ?s2 = [new_event raw s]" unfolding s2 using assms(3) by (simp add: go_def)
  from Attach_buffered [of ?s2 c sk] buf assms(5) obtain s3 where s3: "Attach c sk ?s2 = Inr s3"
    "out s3 = out s @ [OResume (ref s), OWrite sk helloFrame]" "sink s3 = Some sk" "\<not> settled s3"
    "buffer s3 = [new_event raw s]" "freshIDs s3 = freshIDs ?s2" "draws s3 = draws ?s2" by (auto simp: s2)
  have ev: "\<forall>e \<in> set (buffer s3). is_event_raw (event_raw e)" using s3(5) assms(4) by (simp add: new_event_def)
  have d3: "draws s3 = draws s" using s3(7) unfolding s2 by (simp add: go_def)
  obtain fs n s4 where s4: "deliverBufferedNow c sk s3 = Inr s4" "frames_for (rand_src c) (draws s3) (buffer s3) fs"
    "(\<forall>i. answer c i \<noteq> Fail) \<longrightarrow> n = length fs" "out s4 = out s3 @ map (OWrite sk) (take n fs)" "settled s4"
    "buffer s4 = buffer s3" "fresh_entries s4 = stamp_entries (rand_src c) (draws s3) (buffer s3) (fresh_entries s3)"
    by (rule deliverBufferedNow_fresh [OF s3(3,4) ev])
  then obtain f where f: "fs = [f]" using s3(5) by (auto split: list.splits)
  from frames_for_decode [OF s4(2), of 0] ev s3(5) f d3 obtain e where e: "DecodeEnvelope f = Inr e" "EnvelopeID e = ?id" by auto
  have nonempty: "?id \<noteq> []" using hex_EncodeToString_length [of "rand_Read (rand_src c) (draws s) 12"] by (auto simp: randID_def rand_Read_def)
  have "fresh_map s4 ?id = Some (nextKey s)"
    unfolding fresh_map_entries s4(7) using s3(5) d3 by (simp add: update_conv new_event_def)
  then have "buffer (Ack_event c ?id s4) = []" using nonempty s4(6) s3(5) by (simp add: Ack_buffer new_event_def)
  moreover have "n = 1" using s4(3) assms(5) f by simp
  then have "out s4 = out s @ [OResume (ref s), OWrite sk helloFrame, OWrite sk f]" using s4(4) s3(2) f by simp
  moreover have "gos ?s1 = gos s @ [[ResumeActor_call]]" by (simp add: go_def)
  ultimately show ?thesis using s1 s3(1,5) s4(1,5,6) e unfolding MarkReady_def by metis
qed

end
