(* ===== verification/Scheduler.thy ===== *)
theory Scheduler
  imports SessionRun
begin

text \<open>
  An executable scheduler for the concurrent session: a list of choices determines a run. It turns
  concrete executions into facts about runs, among them two executions in which the code does not
  do what its comments promise.
\<close>

section \<open>Choices\<close>

datatype choice = CRun nat | CFire nat | CConnect | CPing nat | CPingLost nat | CAck nat bytes | CHangUp nat | CForward | COpen bytes | CClose

fun take_choice :: "config \<Rightarrow> choice \<Rightarrow> session \<Rightarrow> (label \<times> session) option" where
  "take_choice c (CRun i) s = (if i < length (gos s) then
     (case gos s ! i of [] \<Rightarrow> None
      | t # ts \<Rightarrow> (case exec c t s of
           Some (Inr r) \<Rightarrow> Some (Ran t, (snd r)\<lparr>gos := (gos (snd r))[i := fst r @ ts]\<rparr>)
         | _ \<Rightarrow> None)) else None)"
| "take_choice c (CFire j) s = (if j < length (timers s) then
     Some (Fired (snd (timers s ! j)), go [callback (snd (timers s ! j))] (Stop (fst (timers s ! j)) s)) else None)"
| "take_choice c CConnect s = Some (Called,
     go [AttachSink (nextSink s), ServeSocket (nextSink s), DetachSink (nextSink s)] (s\<lparr>nextSink := nextSink s + 1\<rparr>))"
| "take_choice c (CPing i) s = (if i < length (gos s) then
     (case gos s ! i of ServeSocket sk # ts \<Rightarrow> Some (Called, s\<lparr>gos := (gos s)[i := DeliverBuffered sk # ServeSocket sk # ts]\<rparr>)
      | _ \<Rightarrow> None) else None)"
| "take_choice c (CAck i x) s = (if i < length (gos s) then
     (case gos s ! i of ServeSocket sk # ts \<Rightarrow> Some (Called, s\<lparr>gos := (gos s)[i := AckEvent x # ServeSocket sk # ts]\<rparr>)
      | _ \<Rightarrow> None) else None)"
| "take_choice c (CPingLost i) s = (if i < length (gos s) then
     (case gos s ! i of ServeSocket sk # ts \<Rightarrow> Some (Called, s\<lparr>gos := (gos s)[i := DeliverBuffered sk # ts]\<rparr>) | _ \<Rightarrow> None) else None)"
| "take_choice c (CHangUp i) s = (if i < length (gos s) then
     (case gos s ! i of ServeSocket sk # ts \<Rightarrow> Some (Called, s\<lparr>gos := (gos s)[i := ts]\<rparr>) | _ \<Rightarrow> None) else None)"
| "take_choice c CForward s = Some (Called, go [BeginForward, ForwardCall, EndForward] s)"
| "take_choice c (COpen token) s = Some (Called, go [Start token] s)"
| "take_choice c CClose s = Some (Called, go [CloseSession] s)"

fun schedule :: "config \<Rightarrow> choice list \<Rightarrow> session \<Rightarrow> (label list \<times> session) option" where
  "schedule c [] s = Some ([], s)"
| "schedule c (ch # chs) s =
     (case take_choice c ch s of None \<Rightarrow> None
      | Some r \<Rightarrow> (case schedule c chs (snd r) of None \<Rightarrow> None | Some r' \<Rightarrow> Some (fst r # fst r', snd r')))"

lemma take_choice_step: "take_choice c ch s = Some (l, s') \<Longrightarrow> step c s l s'"
proof (induction c ch s rule: take_choice.induct)
  case (1 c i s)
  then show ?case by (fastforce intro: step.run split: if_splits list.splits option.splits sum.splits)
next
  case (2 c j s)
  then have "(fst (timers s ! j), snd (timers s ! j)) \<in> set (timers s)" by (auto split: if_splits)
  from step.fire [OF this] 2 show ?case by (auto split: if_splits)
next
  case (3 c s)
  then show ?case using step.connect by auto
next
  case (4 c i s)
  then show ?case by (auto intro: step.receive split: if_splits list.splits task.splits)
next
  case (5 c i x s)
  then show ?case by (auto intro: step.receive split: if_splits list.splits task.splits)
next
  case (6 c i s)
  then show ?case by (auto intro: step.ping_lost split: if_splits list.splits task.splits)
next
  case (7 c i s)
  then show ?case by (auto intro: step.hang_up split: if_splits list.splits task.splits)
qed (auto intro: step.forward step.open_call step.close_call)

lemma schedule_trace: "schedule c chs s = Some (ls, s') \<Longrightarrow> trace (step c) s ls s'"
proof (induction chs arbitrary: s ls)
  case Nil
  then show ?case by (simp add: trace_Nil)
next
  case (Cons ch chs)
  then show ?case by (fastforce split: option.splits intro: trace_Cons take_choice_step)
qed

lemma schedule_run: "schedule c chs (new_session r) = Some (ls, s) \<Longrightarrow> session_run c r ls s"
  unfolding session_run_def by (rule schedule_trace)

section \<open>A concrete broker\<close>

definition demo_event :: bytes where
  \<open>demo_event = ''{"type":"events_api","envelope_id":"e1"}''\<close>

definition demo_config :: config where
  "demo_config = \<lparr>deliverDelay = 0, idleGrace = 1000, rand_src = (\<lambda>k i. of_nat (k + i)),
     answer = (\<lambda>n. if n = 1 then OkFrame demo_event else Ok)\<rparr>"

definition demo_ref :: ActorRef where
  "demo_ref = \<lparr>Atespace = ''space'', Name = ''bot''\<rparr>"

definition suspend_race :: "choice list" where
  "suspend_race = CConnect # replicate 10 (CRun 0) @ [CFire 0, CRun 1, CForward, CRun 2, CRun 1]"

definition stranding :: "choice list" where
  "stranding = [COpen ''xapp-1'', CRun 0] @ replicate 7 (CRun 1) @ [CRun 2, CConnect] @ replicate 6 (CRun 3) @ [CHangUp 3, CRun 3]"

lemma suspend_race_result:
  "\<exists>ls s. schedule demo_config suspend_race (new_session demo_ref) = Some (ls, s) \<and>
     inFlight s = 1 \<and> gos s ! 2 = [ForwardCall, EndForward] \<and> last (out s) = OSuspend demo_ref \<and> 2 < length (gos s)"
proof -
  have "(case schedule demo_config suspend_race (new_session demo_ref) of None \<Rightarrow> False
     | Some (ls, s) \<Rightarrow> inFlight s = 1 \<and> gos s ! 2 = [ForwardCall, EndForward] \<and> last (out s) = OSuspend demo_ref \<and> 2 < length (gos s))"
    by code_simp
  then show ?thesis by (auto split: option.splits)
qed

lemma stranding_result:
  "\<exists>ls s. schedule demo_config stranding (new_session demo_ref) = Some (ls, s) \<and>
     sink s = None \<and> \<not> resuming s \<and> map event_raw (buffer s) = [demo_event] \<and> timers s = [] \<and>
     concat (gos s) = [ReadLoop, CloseConn]"
proof -
  have "(case schedule demo_config stranding (new_session demo_ref) of None \<Rightarrow> False
     | Some (ls, s) \<Rightarrow> sink s = None \<and> \<not> resuming s \<and> map event_raw (buffer s) = [demo_event] \<and> timers s = [] \<and>
     concat (gos s) = [ReadLoop, CloseConn])"
    by code_simp
  then show ?thesis by (auto split: option.splits)
qed

end
