(* ===== verification/Mailbox.thy ===== *)
theory Mailbox
  imports SessionOrder
begin

text \<open>
  What a session promises about events, as an abstract machine: a mailbox that numbers the events
  as they arrive, keeps them in order and gives one up only when it is acknowledged. The concurrent
  session refines it: a forward simulation matches every step of every run.
\<close>

section \<open>The mailbox\<close>

record mailbox =
  next_number :: nat
  waiting :: "(nat \<times> bytes) list"

definition empty_mailbox :: mailbox where
  "empty_mailbox = \<lparr>next_number = 0, waiting = []\<rparr>"

datatype mail_event = Arrive bytes | Remove nat | Quiet

inductive mail_step :: "mailbox \<Rightarrow> mail_event \<Rightarrow> mailbox \<Rightarrow> bool" where
  arrive: "mail_step m (Arrive raw)
    \<lparr>next_number = next_number m + 1, waiting = waiting m @ [(next_number m, raw)]\<rparr>"
| remove: "waiting m = xs @ (i, raw) # ys \<Longrightarrow> mail_step m (Remove i) (m\<lparr>waiting := xs @ ys\<rparr>)"
| quiet: "mail_step m Quiet m"

inductive_simps mail_step_simps [simp]:
  "mail_step m (Arrive raw) m'" "mail_step m (Remove i) m'" "mail_step m Quiet m'"

text \<open>The arrivals of a run of the mailbox, and the numbers it gave up.\<close>

fun arrivals :: "mail_event list \<Rightarrow> bytes list" where
  "arrivals [] = []"
| "arrivals (e # es) = (case e of Arrive raw \<Rightarrow> [raw] | _ \<Rightarrow> []) @ arrivals es"

fun removals :: "mail_event list \<Rightarrow> nat list" where
  "removals [] = []"
| "removals (e # es) = (case e of Remove i \<Rightarrow> [i] | _ \<Rightarrow> []) @ removals es"

lemma arrivals_append [simp]: "arrivals (es @ es') = arrivals es @ arrivals es'"
  by (induction es) auto

lemma removals_append [simp]: "removals (es @ es') = removals es @ removals es'"
  by (induction es) auto

text \<open>
  Every event that arrived is either waiting, under its number and in its place, or was given up,
  and never both.
\<close>

definition kept :: "mail_event list \<Rightarrow> (nat \<times> bytes) list" where
  "kept es = filter (\<lambda>(i, raw). i \<notin> set (removals es)) (enumerate 0 (arrivals es))"

definition mail_inv :: "mail_event list \<Rightarrow> mailbox \<Rightarrow> bool" where
  "mail_inv es m \<longleftrightarrow> next_number m = length (arrivals es) \<and> waiting m = kept es \<and>
     (\<forall>i \<in> set (removals es). i < length (arrivals es)) \<and> distinct (removals es)"

lemma enumerate_less: "(i, x) \<in> set (enumerate n xs) \<Longrightarrow> i < n + length xs"
  by (auto simp: in_set_enumerate_eq)

lemma kept_distinct: "distinct (map fst (kept es))"
  unfolding kept_def by (rule distinct_map_filter) simp

lemma kept_arrive: "(\<forall>i \<in> set (removals es). i < length (arrivals es)) \<Longrightarrow>
    kept (es @ [Arrive raw]) = kept es @ [(length (arrivals es), raw)]"
  by (auto simp: kept_def enumerate_append_eq)

lemma filter_other_keys: "i \<notin> fst ` set zs \<Longrightarrow> filter (\<lambda>(j, r). j \<noteq> i) zs = zs"
  by (rule filter_True) force

lemma filter_remove_middle:
  assumes "distinct (map fst (xs @ (i, raw) # ys))"
  shows "filter (\<lambda>(j, r). j \<noteq> i) (xs @ (i, raw) # ys) = xs @ ys"
proof -
  have "i \<notin> fst ` set xs" "i \<notin> fst ` set ys" using assms by auto
  then show ?thesis by (simp add: filter_other_keys)
qed

lemma kept_remove:
  assumes "kept es = xs @ (i, raw) # ys"
  shows "kept (es @ [Remove i]) = xs @ ys" "i < length (arrivals es)" "i \<notin> set (removals es)"
proof -
  have "kept (es @ [Remove i]) = filter (\<lambda>(j, r). j \<noteq> i) (kept es)"
    by (simp add: kept_def filter_filter case_prod_unfold conj_commute)
  then show "kept (es @ [Remove i]) = xs @ ys"
    using filter_remove_middle [of xs i raw ys] kept_distinct [of es] assms by simp
  have "(i, raw) \<in> set (kept es)" using assms by simp
  then show "i < length (arrivals es)" "i \<notin> set (removals es)"
    by (auto simp: kept_def dest: enumerate_less)
qed

lemma mail_inv_step:
  assumes "mail_inv es m" "mail_step m e m'"
  shows "mail_inv (es @ [e]) m'"
  using assms(2)
proof cases
  case (arrive raw)
  with assms(1) show ?thesis by (auto simp: mail_inv_def kept_arrive)
next
  case (remove xs i raw ys)
  with assms(1) kept_remove [of es xs i raw ys] show ?thesis by (auto simp: mail_inv_def)
next
  case quiet
  with assms(1) show ?thesis by (simp add: mail_inv_def kept_def)
qed

interpretation mail: run_invariant mail_step empty_mailbox mail_inv
  by unfold_locales (simp add: mail_inv_def empty_mailbox_def kept_def, rule mail_inv_step)

section \<open>Refinement\<close>

definition pending :: "nat \<times> bytes \<Rightarrow> pendingEvent" where
  "pending p = \<lparr>event_key = of_nat (fst p), event_raw = snd p\<rparr>"

definition holds_mail :: "session \<Rightarrow> mailbox \<Rightarrow> bool" where
  "holds_mail s m \<longleftrightarrow> nextKey s = of_nat (next_number m) \<and> buffer s = map pending (waiting m)"

text \<open>Which steps of the session an event of the mailbox may stand for.\<close>

definition mail_label :: "label \<Rightarrow> mail_event \<Rightarrow> bool" where
  "mail_label l e = (case e of
     Arrive raw \<Rightarrow> l = Ran (OnEvent raw)
   | Remove i \<Rightarrow> (\<exists>x. l = Ran (AckEvent x))
   | Quiet \<Rightarrow> (\<forall>raw. l \<noteq> Ran (OnEvent raw)))"

lemma pending_key: "event_key (pending (i, raw)) = of_nat i"
  by (simp add: pending_def)

lemma remove_key_pending:
  "remove_key k (map pending ws) = map pending ws \<or>
   (\<exists>xs i raw ys. ws = xs @ (i, raw) # ys \<and> k = of_nat i \<and> remove_key k (map pending ws) = map pending (xs @ ys))"
proof (induction ws)
  case (Cons w ws)
  obtain i raw where w: "w = (i, raw)" by (cases w)
  show ?case
  proof (cases "of_nat i = k")
    case True
    with w show ?thesis by (intro disjI2 exI [of _ "[]"] exI [of _ i] exI [of _ raw] exI [of _ ws]) (auto simp: pending_key)
  next
    case False
    from Cons.IH show ?thesis
    proof (elim disjE exE conjE)
      assume "remove_key k (map pending ws) = map pending ws"
      with False w show ?thesis by (intro disjI1) (simp add: pending_key)
    next
      fix xs j r ys assume "ws = xs @ (j, r) # ys" "k = of_nat j" "remove_key k (map pending ws) = map pending (xs @ ys)"
      with False w show ?thesis
        by (intro disjI2 exI [of _ "w # xs"] exI [of _ j] exI [of _ r] exI [of _ ys]) (auto simp: pending_key)
    qed
  qed
qed simp

lemma holds_mail_quiet:
  "holds_mail s m \<Longrightarrow> buffer s' = buffer s \<Longrightarrow> nextKey s' = nextKey s \<Longrightarrow> holds_mail s' m"
  by (simp add: holds_mail_def)

lemma holds_mail_arrive:
  assumes "holds_mail s m" "buffer s' = buffer s @ [new_event raw s]" "nextKey s' = nextKey s + 1"
  shows "holds_mail s' \<lparr>next_number = next_number m + 1, waiting = waiting m @ [(next_number m, raw)]\<rparr>"
  using assms by (simp add: holds_mail_def new_event_def pending_def)

lemma holds_mail_ack:
  assumes "holds_mail s m"
  shows "\<exists>e m'. mail_step m e m' \<and> mail_label (Ran (AckEvent i)) e \<and> holds_mail (Ack_event c i s) m'"
proof (cases "buffer (Ack_event c i s) = buffer s")
  case True
  with assms show ?thesis
    by (intro exI [of _ Quiet] exI [of _ m]) (auto simp: mail_label_def Ack_buffer(2) intro: holds_mail_quiet)
next
  case False
  then obtain k where k: "buffer (Ack_event c i s) = remove_key k (buffer s)"
    by (auto simp: Ack_buffer(1) split: if_splits option.splits)
  have buf: "buffer s = map pending (waiting m)" using assms by (simp add: holds_mail_def)
  from remove_key_pending [of k "waiting m"] False k buf obtain xs j raw ys where
    w: "waiting m = xs @ (j, raw) # ys" "remove_key k (buffer s) = map pending (xs @ ys)" by auto
  show ?thesis
    by (intro exI [of _ "Remove j"] exI [of _ "m\<lparr>waiting := xs @ ys\<rparr>"])
      (use assms w k in \<open>auto simp: mail_label_def holds_mail_def Ack_buffer(2)\<close>)
qed

lemma holds_mail_exec:
  assumes "holds_mail s m" "exec c t s = Some (Inr (ts', s'))"
  shows "\<exists>e m'. mail_step m e m' \<and> mail_label (Ran t) e \<and> holds_mail s' m'"
proof (cases "\<exists>raw. t = OnEvent raw")
  case True
  then obtain raw where t: "t = OnEvent raw" by blast
  with assms(2) obtain p s1 where p: "onEvent_locked c raw s = Inr (p, s1)" "s' = plan_go p s1" by (auto split: sum.splits)
  from onEvent_locked_buffer [OF p(1)] p(2) have "buffer s' = buffer s @ [new_event raw s]" "nextKey s' = nextKey s + 1"
    by (simp_all add: plan_go_buffer)
  from holds_mail_arrive [OF assms(1) this] t show ?thesis
    by (intro exI [of _ "Arrive raw"] exI) (auto simp: mail_label_def)
next
  case no_event: False
  then have quiet: ?thesis if "buffer s' = buffer s" "nextKey s' = nextKey s"
    using holds_mail_quiet [OF assms(1) that] by (intro exI [of _ Quiet] exI [of _ m]) (auto simp: mail_label_def)
  from exec_buffer [OF assms(2)] no_event show ?thesis
  proof (elim disjE exE conjE)
    fix sk fs assume "deliver_locked c sk s = Inr (fs, s')"
    from deliver_locked_state [OF this] show ?thesis by (intro quiet) auto
  next
    fix i assume "t = AckEvent i" "s' = Ack_event c i s"
    with holds_mail_ack [OF assms(1)] show ?thesis by simp
  qed (auto intro: quiet)
qed

lemma holds_mail_step:
  assumes "holds_mail s m" "step c s l s'"
  shows "\<exists>e m'. mail_step m e m' \<and> mail_label l e \<and> holds_mail s' m'"
  using assms(2)
proof (cases rule: step_cases)
  case (ran t ts' s1 g)
  from holds_mail_exec [OF assms(1) ran(3)] ran(1,4) show ?thesis by (auto simp: holds_mail_def)
next
  case (fired i fn)
  with assms(1) show ?thesis
    by (intro exI [of _ Quiet] exI [of _ m]) (auto simp: mail_label_def holds_mail_def go_def Stop_def)
next
  case (called n g new sk)
  with assms(1) show ?thesis
    by (intro exI [of _ Quiet] exI [of _ m]) (auto simp: mail_label_def holds_mail_def)
qed

interpretation mailbox: forward_simulation "step c" "new_session r" mail_step empty_mailbox holds_mail mail_label for c r
proof
  show "holds_mail (new_session r) empty_mailbox" by (simp add: holds_mail_def new_session_def empty_mailbox_def)
  show "holds_mail s m \<Longrightarrow> step c s l s' \<Longrightarrow> \<exists>e m'. mail_step m e m' \<and> mail_label l e \<and> holds_mail s' m'" for s m l s'
    by (rule holds_mail_step)
qed

end
