(* ===== verification/SlackApi.thy ===== *)
theory SlackApi
  imports Frames
begin

text \<open>
  The Slack Web API types, \<^verbatim>\<open>internal/slackapi/api.go\<close>, with the JSON the broker writes and reads
  for \<^verbatim>\<open>apps.connections.open\<close>.
\<close>

section \<open>Hosts and paths\<close>

definition APIHost :: bytes where
  "APIHost = ''slack.com''"

definition PathConnectionsOpen :: bytes where
  "PathConnectionsOpen = ''/api/apps.connections.open''"

definition PathChatPostMessage :: bytes where
  "PathChatPostMessage = ''/api/chat.postMessage''"

section \<open>Requests and responses\<close>

record ConnectionsOpenResponse =
  OK :: bool
  URL :: bytes
  Error :: bytes

record ChatPostMessageRequest =
  CpmChannel :: bytes
  CpmText :: bytes
  CpmThreadTS :: bytes

record ChatPostMessageResponse =
  CprOK :: bool
  CprChannel :: bytes
  CprTS :: bytes
  CprError :: bytes

definition empty_open_response :: ConnectionsOpenResponse where
  "empty_open_response = \<lparr>OK = False, URL = [], Error = []\<rparr>"

definition encode_open_response :: "ConnectionsOpenResponse \<Rightarrow> json" where
  "encode_open_response o' = JObj
     ((''ok'', encode_bool (OK o'))
      # field_if (URL o' \<noteq> []) ''url'' (encode_string (URL o'))
      @ field_if (Error o' \<noteq> []) ''error'' (encode_string (Error o')))"

definition encode_chat_request :: "ChatPostMessageRequest \<Rightarrow> json" where
  "encode_chat_request q = JObj
     ([(''channel'', encode_string (CpmChannel q)), (''text'', encode_string (CpmText q))]
      @ field_if (CpmThreadTS q \<noteq> []) ''thread_ts'' (encode_string (CpmThreadTS q)))"

definition open_response_fields :: "bytes list" where
  "open_response_fields = [''ok'', ''url'', ''error'']"

definition set_open_response :: "bytes \<Rightarrow> json \<Rightarrow> ConnectionsOpenResponse \<Rightarrow> ConnectionsOpenResponse \<times> bool" where
  "set_open_response f v o' =
     (if f = ''ok'' then (o'\<lparr>OK := fst (decode_bool v (OK o'))\<rparr>, snd (decode_bool v (OK o')))
      else if f = ''url'' then (o'\<lparr>URL := fst (decode_string v (URL o'))\<rparr>, snd (decode_string v (URL o')))
      else if f = ''error'' then (o'\<lparr>Error := fst (decode_string v (Error o'))\<rparr>, snd (decode_string v (Error o')))
      else (o', False))"

definition decode_open_response :: "bytes \<Rightarrow> json_error + ConnectionsOpenResponse" where
  "decode_open_response b = Unmarshal open_response_fields set_open_response b empty_open_response"

section \<open>Facts: round trip\<close>

lemma match_open_response [simp]:
  "match_field open_response_fields (unquote ''ok'') = Some ''ok''"
  "match_field open_response_fields (unquote ''url'') = Some ''url''"
  "match_field open_response_fields (unquote ''error'') = Some ''error''"
  by code_simp+

lemma wf_open_names [simp]: "wf_str ''ok''" "wf_str ''url''" "wf_str ''error''"
  by code_simp+

lemma wf_open_response: "wf_json (encode_open_response o')" "json_depth (encode_open_response o') \<le> 10000"
  by (auto simp: encode_open_response_def field_if_def encode_string_def encode_bool_def wf_str_quote)

lemma decode_open_response_encode:
  assumes "valid_utf8 (URL o')" "valid_utf8 (Error o')"
  shows "decode_open_response (json_print (encode_open_response o')) = Inr o'"
proof -
  obtain kvs where kvs: "encode_open_response o' = JObj kvs" by (simp add: encode_open_response_def)
  have "json_parse (json_print (encode_open_response o')) = Some (encode_open_response o')"
    by (rule json_parse_print) (rule wf_open_response)+
  moreover have "decode_fields open_response_fields set_open_response kvs empty_open_response = (o', False)"
    using kvs assms
    by (cases "URL o' = []"; cases "Error o' = []")
      (auto simp: encode_open_response_def field_if_def set_open_response_def decode_encode_scalar empty_open_response_def)
  ultimately show ?thesis by (simp add: decode_open_response_def Unmarshal_def unmarshal_struct_def kvs)
qed

end
