(* ===== verification/Http.thy ===== *)
theory Http
  imports SlackApi "HOL-Library.AList"
begin

text \<open>
  The parts of Go's \<^verbatim>\<open>net/http\<close> and \<^verbatim>\<open>net/url\<close> that the server uses: requests and responses,
  headers, the text of a URL built from its parts, and the query parameters of a request.
\<close>

section \<open>Headers\<close>

text \<open>Keys are canonical; each has the list of its values.\<close>

type_synonym header = "(bytes \<times> bytes list) list"

definition Header_Get :: "header \<Rightarrow> bytes \<Rightarrow> bytes" where
  "Header_Get h k = (case map_of h k of Some (v # _) \<Rightarrow> v | _ \<Rightarrow> [])"

definition Header_Add :: "bytes \<Rightarrow> bytes \<Rightarrow> header \<Rightarrow> header" where
  "Header_Add k v h = AList.update k ((case map_of h k of None \<Rightarrow> [] | Some vs \<Rightarrow> vs) @ [v]) h"

definition Header_Set :: "bytes \<Rightarrow> bytes \<Rightarrow> header \<Rightarrow> header" where
  "Header_Set k v h = AList.update k [v] h"

definition Header_Del :: "bytes \<Rightarrow> header \<Rightarrow> header" where
  "Header_Del k h = AList.delete k h"

section \<open>Requests and responses\<close>

record request =
  Method :: bytes
  Path :: bytes
  RawQuery :: bytes
  Header :: header
  RemoteAddr :: bytes
  Body :: bytes

record response =
  Status :: nat
  RespHeader :: header
  RespBody :: bytes

section \<open>URLs\<close>

definition unreserved :: "char \<Rightarrow> bool" where
  "unreserved c \<longleftrightarrow> 97 \<le> byte c \<and> byte c \<le> 122 \<or> 65 \<le> byte c \<and> byte c \<le> 90 \<or> is_digit c \<or> c \<in> set ''-_.~''"

definition upper_hex :: "nat \<Rightarrow> char" where
  "upper_hex n = (if n < 10 then char_of (48 + n) else char_of (55 + n))"

definition percent :: "char \<Rightarrow> bytes" where
  "percent c = [CHR ''%'', upper_hex (byte c div 16), upper_hex (byte c mod 16)]"

definition escape_path :: "bytes \<Rightarrow> bytes" where
  "escape_path s = concat (map (\<lambda>c. if unreserved c \<or> c \<in> set ''$&+,/:;=@'' then [c] else percent c) s)"

text \<open>The characters a host may have as they are: those of a registered name and of a bracketed address.\<close>

definition host_char :: "char \<Rightarrow> bool" where
  "host_char c \<longleftrightarrow> unreserved c \<or> c \<in> set ''!$&()*+,;=:[]<>'' \<or> byte c = 34 \<or> byte c = 39"

definition escape_host :: "bytes \<Rightarrow> bytes" where
  "escape_host s = concat (map (\<lambda>c. if host_char c then [c] else percent c) s)"

text \<open>\<^verbatim>\<open>URL.String\<close> for a URL with the scheme wss, a host, a path and a raw query.\<close>

definition URL_String :: "bytes \<Rightarrow> bytes \<Rightarrow> bytes \<Rightarrow> bytes" where
  "URL_String host path query =
     ''wss:'' @ (if host = [] \<and> path = [] then [] else ''//'' @ escape_host host)
     @ (let p = (if path = ''*'' then path else escape_path path)
        in (if p \<noteq> [] \<and> hd p \<noteq> CHR ''/'' \<and> host \<noteq> [] then ''/'' else []) @ p)
     @ (if query = [] then [] else CHR ''?'' # query)"

section \<open>Query parameters\<close>

text \<open>\<^verbatim>\<open>url.QueryUnescape\<close>; a malformed escape is an error.\<close>

fun query_unescape :: "bytes \<Rightarrow> bytes option" where
  "query_unescape [] = Some []"
| "query_unescape (c # s) =
     (if c = CHR ''%'' then
        (case s of
           a # b # t \<Rightarrow> (if is_hex a \<and> is_hex b then map_option ((#) (char_of (16 * hex_value a + hex_value b))) (query_unescape t)
                         else None)
         | _ \<Rightarrow> None)
      else map_option ((#) (if c = CHR ''+'' then CHR '' '' else c)) (query_unescape s))"

fun split_on :: "char \<Rightarrow> bytes \<Rightarrow> bytes list" where
  "split_on c [] = [[]]"
| "split_on c (x # xs) = (if x = c then [] # split_on c xs
     else (case split_on c xs of [] \<Rightarrow> [[x]] | p # ps \<Rightarrow> (x # p) # ps))"

definition cut :: "char \<Rightarrow> bytes \<Rightarrow> bytes \<times> bytes" where
  "cut c s = (takeWhile (\<lambda>x. x \<noteq> c) s, drop 1 (dropWhile (\<lambda>x. x \<noteq> c) s))"

definition parse_param :: "bytes \<Rightarrow> (bytes \<times> bytes) option" where
  "parse_param p =
     (if p = [] \<or> CHR '';'' \<in> set p then None
      else (case (query_unescape (fst (cut (CHR ''='') p)), query_unescape (snd (cut (CHR ''='') p))) of
              (Some k, Some v) \<Rightarrow> Some (k, v) | _ \<Rightarrow> None))"

text \<open>\<^verbatim>\<open>URL.Query().Get(key)\<close>: the first value of the key, pieces that do not parse are dropped.\<close>

definition query_get :: "bytes \<Rightarrow> bytes \<Rightarrow> bytes" where
  "query_get key q = (case map_of (List.map_filter parse_param (split_on (CHR ''&'') q)) key of
     Some v \<Rightarrow> v | None \<Rightarrow> [])"

section \<open>Facts\<close>

lemma split_on_none: "c \<notin> set s \<Longrightarrow> split_on c s = [s]"
  by (induction s) auto

lemma query_unescape_plain: "CHR ''%'' \<notin> set s \<Longrightarrow> CHR ''+'' \<notin> set s \<Longrightarrow> query_unescape s = Some s"
  by (induction s) auto

lemma query_get_single:
  assumes "k \<noteq> []" "\<forall>x \<in> set (k @ v). x \<notin> set ''%+&;=''"
  shows "query_get k (k @ CHR ''='' # v) = v"
proof -
  have no: "CHR ''&'' \<notin> set (k @ CHR ''='' # v)" "CHR '';'' \<notin> set (k @ CHR ''='' # v)" "CHR ''='' \<notin> set k"
    using assms(2) by auto
  have "takeWhile (\<lambda>x. x \<noteq> CHR ''='') (k @ CHR ''='' # v) = k" "dropWhile (\<lambda>x. x \<noteq> CHR ''='') (k @ CHR ''='' # v) = CHR ''='' # v"
    using no(3) by (induction k) auto
  moreover have "query_unescape k = Some k" "query_unescape v = Some v"
    using assms(2) by (auto intro!: query_unescape_plain)
  ultimately have "parse_param (k @ CHR ''='' # v) = Some (k, v)" using no(2) by (simp add: parse_param_def cut_def)
  then show ?thesis using split_on_none [OF no(1)] by (simp add: query_get_def List.map_filter_def)
qed

lemma Header_Get_Add: "map_of h k \<noteq> Some [] \<Longrightarrow>
    Header_Get (Header_Add k' v h) k = (if k = k' \<and> map_of h k = None then v else Header_Get h k)"
  by (auto simp: Header_Get_def Header_Add_def update_conv split: option.splits list.splits)

lemma Header_Get_Del: "Header_Get (Header_Del k' h) k = (if k = k' then [] else Header_Get h k)"
  by (simp add: Header_Get_def Header_Del_def delete_conv)

end
