(* ===== verification/RealSlack.thy ===== *)
theory RealSlack
  imports Http
begin

text \<open>
  The broker's client of the real Slack, \<^verbatim>\<open>cmd/egress-broker/realslack.go\<close>: the base URL, opening a
  Socket Mode connection through \<^verbatim>\<open>apps.connections.open\<close>, and reading and acknowledging envelopes.
  The network is a parameter: \<open>slack_Do\<close> answers an HTTP request, \<open>ws_dial\<close> connects a WebSocket.
\<close>

section \<open>The dialer\<close>

text \<open>
  \<^verbatim>\<open>net.Dialer\<close> with its resolver, and the time-outs of the HTTP client and the WebSocket dialer, in
  nanoseconds. The resolver's dial function gets the network and the address of the system's resolver
  and ignores both: it always asks the upstream server, over UDP.
\<close>

record netDialer =
  nd_timeout :: int
  nd_preferGo :: bool
  nd_resolverTimeout :: int
  nd_resolverDial :: "bytes \<Rightarrow> bytes \<Rightarrow> bytes \<times> bytes"

record realSlackDialer =
  rs_netDialer :: netDialer
  rs_httpTimeout :: int
  rs_handshakeTimeout :: int
  rs_apiBaseURL :: bytes

definition seconds :: "int \<Rightarrow> int" where
  "seconds n = n * 1000000000"

definition newRealSlackDialer :: "bytes \<Rightarrow> bytes \<Rightarrow> realSlackDialer" where
  "newRealSlackDialer dns base =
     (let d = \<lparr>nd_timeout = seconds 10, nd_preferGo = True, nd_resolverTimeout = seconds 5,
               nd_resolverDial = (\<lambda>network addr. (''udp'', dns))\<rparr>;
          base' = (if base = [] then ''https://'' @ APIHost else base)
      in \<lparr>rs_netDialer = d, rs_httpTimeout = seconds 30, rs_handshakeTimeout = seconds 15,
          rs_apiBaseURL = TrimRight base' (CHR ''/'')\<rparr>)"

record slack_request =
  sr_method :: bytes
  sr_url :: bytes
  sr_header :: header

datatype 'e slack_error =
    BadRequest
  | Calling 'e
  | Decoding json_error
  | OpenFailed bytes
  | InvalidURL bytes
  | DialingWSS 'e

text \<open>
  \<^verbatim>\<open>json.NewDecoder(r).Decode\<close>: the first document of the text; what follows it is not read.
\<close>

definition json_first :: "bytes \<Rightarrow> json option" where
  "json_first b = (case parse_value (json_fuel b) b of
     None \<Rightarrow> None | Some r \<Rightarrow> if json_depth (fst r) \<le> 10000 then Some (fst r) else None)"

definition decode_first_response :: "bytes \<Rightarrow> json_error + ConnectionsOpenResponse" where
  "decode_first_response b = (case json_first b of
     None \<Rightarrow> Inl SyntaxError
   | Some j \<Rightarrow> (let r = unmarshal_struct open_response_fields set_open_response j empty_open_response
               in if snd r then Inl TypeError else Inr (fst r)))"

definition open_request :: "realSlackDialer \<Rightarrow> bytes \<Rightarrow> slack_request" where
  "open_request d token = \<lparr>sr_method = ''POST'', sr_url = rs_apiBaseURL d @ PathConnectionsOpen,
     sr_header = Header_Set ''Content-Type'' ''application/x-www-form-urlencoded''
       (Header_Set ''Authorization'' (''Bearer '' @ token) [])\<rparr>"

record 'e slack_net =
  request_ok :: "bytes \<Rightarrow> bool"
  slack_Do :: "slack_request \<Rightarrow> 'e + response"
  url_ok :: "bytes \<Rightarrow> bool"
  ws_dial :: "bytes \<Rightarrow> 'e option"

definition openConnection :: "'e slack_net \<Rightarrow> realSlackDialer \<Rightarrow> bytes \<Rightarrow> 'e slack_error + bytes" where
  "openConnection net d token =
     (let req = open_request d token
      in if \<not> request_ok net (sr_url req) then Inl BadRequest
         else (case slack_Do net req of
            Inl e \<Rightarrow> Inl (Calling e)
          | Inr resp \<Rightarrow>
              (case decode_first_response (RespBody resp) of
                 Inl e \<Rightarrow> Inl (Decoding e)
               | Inr o' \<Rightarrow>
                   (if \<not> OK o' then Inl (OpenFailed (Error o'))
                    else if \<not> url_ok net (URL o') then Inl (InvalidURL (URL o'))
                    else Inr (URL o')))))"

text \<open>\<open>Dial\<close> returns the address the connection was made to.\<close>

definition Dial :: "'e slack_net \<Rightarrow> realSlackDialer \<Rightarrow> bytes \<Rightarrow> 'e slack_error + bytes" where
  "Dial net d token = (case openConnection net d token of
     Inl e \<Rightarrow> Inl e
   | Inr u \<Rightarrow> (case ws_dial net u of Some e \<Rightarrow> Inl (DialingWSS e) | None \<Rightarrow> Inr u))"

section \<open>The connection\<close>

datatype 'e read_error = ReadFailed 'e | BadFrame json_error bytes

definition Conn_Read :: "'e + bytes \<Rightarrow> 'e read_error + Envelope \<times> bytes" where
  "Conn_Read msg = (case msg of
     Inl e \<Rightarrow> Inl (ReadFailed e)
   | Inr raw \<Rightarrow> (case DecodeEnvelope raw of Inl e \<Rightarrow> Inl (BadFrame e raw) | Inr env \<Rightarrow> Inr (env, raw)))"

text \<open>The message of an acknowledgement: \<^verbatim>\<open>WriteJSON\<close> sends the JSON encoding of its argument.\<close>

definition Conn_Ack :: "bytes \<Rightarrow> bytes" where
  "Conn_Ack i = json_print (encode_ack \<lparr>AckEnvelopeID = i, AckPayload = None\<rparr>)"

section \<open>Facts\<close>

lemma json_first_print:
  assumes "wf_json j" "json_depth j \<le> 10000" "num_end t"
  shows "json_first (json_print j @ t) = Some j"
  using parse_print [OF assms(1,3), of "json_fuel (json_print j @ t)"] assms(2) by (simp add: json_first_def json_fuel_def)

lemma decode_first_open:
  assumes "valid_utf8 (URL o')" "valid_utf8 (Error o')" "num_end t"
  shows "decode_first_response (json_print (encode_open_response o') @ t) = Inr o'"
proof -
  have "json_first (json_print (encode_open_response o') @ t) = Some (encode_open_response o')"
    by (rule json_first_print) (use wf_open_response assms in auto)
  moreover have "decode_open_response (json_print (encode_open_response o')) = Inr o'"
    by (rule decode_open_response_encode) (use assms in auto)
  moreover have "json_parse (json_print (encode_open_response o')) = Some (encode_open_response o')"
    by (rule json_parse_print) (rule wf_open_response)+
  ultimately show ?thesis
    by (simp add: decode_first_response_def decode_open_response_def Unmarshal_def Let_def case_prod_unfold)
qed

lemma TrimRight_no_slash: "TrimRight s c = [] \<or> last (TrimRight s c) \<noteq> c"
proof (cases "dropWhile (\<lambda>x. x = c) (rev s)")
  case (Cons x xs)
  then have "x \<noteq> c" using hd_dropWhile [of "\<lambda>x. x = c" "rev s"] by auto
  with Cons show ?thesis by (simp add: TrimRight_def)
qed (simp add: TrimRight_def)

text \<open>The acknowledgement reads back as an envelope with that id and nothing else.\<close>

lemma Conn_Ack_decode: "valid_utf8 i \<Longrightarrow> DecodeEnvelope (Conn_Ack i) = Inr (empty_envelope\<lparr>EnvelopeID := i\<rparr>)"
proof -
  assume i: "valid_utf8 i"
  let ?j = "JObj [(''envelope_id'', encode_string i)]"
  have "json_parse (Conn_Ack i) = Some ?j"
    unfolding Conn_Ack_def encode_ack_def
    using json_parse_print [of ?j] by (simp add: encode_string_def wf_str_quote)
  moreover have "\<not> envelope_errors [(''envelope_id'', encode_string i)]"
    by (simp add: envelope_errors_simps envelope_error_encode)
  ultimately show ?thesis
    using decode_encode_scalar(1) [OF i]
    by (simp add: DecodeEnvelope_object envelope_of_def empty_envelope_def)
qed

end
