(* ===== verification/SlackLoop.thy ===== *)
theory SlackLoop
  imports SessionRun RealSlack
begin

text \<open>
  The Slack read loop as a sequential program: what it does with each kind of frame, and that it ends
  once the session is closed, from wherever it is.
\<close>

section \<open>Frames\<close>

lemma read_tasks_frame:
  assumes "DecodeEnvelope raw = Inr e"
  shows "read_tasks (OkFrame raw) = (if Type e = TypeDisconnect then [] else
    if IsEvent e then [AckSlack (EnvelopeID e), OnEvent raw, ReadLoop] else [ReadLoop])"
  using assms by (auto simp: read_tasks_def IsConnectionManagement_def IsEvent_def envelope_types)

text \<open>The read loop sees the connection through \<open>Conn_Read\<close>.\<close>

lemma read_tasks_Conn_Read:
  "read_tasks (case msg of Inl e \<Rightarrow> Fail | Inr raw \<Rightarrow> OkFrame raw) = (case Conn_Read msg of
     Inl _ \<Rightarrow> []
   | Inr r \<Rightarrow> if IsConnectionManagement (fst r) then (if Type (fst r) = TypeDisconnect then [] else [ReadLoop])
       else if IsEvent (fst r) then [AckSlack (EnvelopeID (fst r)), OnEvent (snd r), ReadLoop] else [ReadLoop])"
  by (simp add: read_tasks_def Conn_Read_def split: sum.split)

section \<open>Ending\<close>

definition ends :: "config \<Rightarrow> task list \<Rightarrow> session \<Rightarrow> bool" where
  "ends c g s \<longleftrightarrow> (\<exists>r. finishes c g s r)"

lemma ends_Nil: "ends c [] s"
  unfolding ends_def using finishes_Nil by blast

lemma ends_step: "exec c t s = Some (Inr (ts', s')) \<Longrightarrow> ends c (ts' @ ts) s' \<Longrightarrow> ends c (t # ts) s"
  unfolding ends_def using finishes_step by blast

lemma ends_panic: "exec c t s = Some (Inl p) \<Longrightarrow> ends c (t # ts) s"
  unfolding ends_def using finishes_panic by blast

lemma ends_after: "finishes c g s (Inr s') \<Longrightarrow> ends c g' s' \<Longrightarrow> ends c (g @ g') s"
  unfolding ends_def using finishes_append_Inr by blast

lemma writeToSink_stop: "stop (writeToSink c sk fs s) = stop s" "\<not> sinkWrite (writeToSink c sk fs s)"
proof -
  have "stop (write_frames c sk fs s) = stop s" for s
    by (induction c sk fs s rule: write_frames.induct) (auto simp: io_def Let_def)
  then show "stop (writeToSink c sk fs s) = stop s" by (simp add: writeToSink_def)
qed (simp add: writeToSink_def)

lemma stopped_onEvent:
  assumes "onEvent c raw s = Inr s'"
  shows "stopped s' = stopped s" "\<not> sinkWrite s \<Longrightarrow> \<not> sinkWrite s'"
proof -
  show "stopped s' = stopped s"
    using assms by (auto simp: onEvent_def onEvent_locked_result stopped_def noteActivity_def writeToSink_stop go_def
        split: sum.splits option.splits if_splits)
  show "\<not> sinkWrite s \<Longrightarrow> \<not> sinkWrite s'"
    using assms by (auto simp: onEvent_def onEvent_locked_result noteActivity_def writeToSink_stop go_def
        split: sum.splits option.splits if_splits)
qed

lemma stopped_io: "stopped (snd (io c a s)) = stopped s" "sinkWrite (snd (io c a s)) = sinkWrite s"
  by (simp_all add: io_def stopped_def)

lemma ends_close: "stopped s \<Longrightarrow> ends c [CloseConn] s"
  by (rule ends_step [of _ _ _ "[StopCheck]" "snd (io c OConnClose s)"])
    (auto simp: stopped_io intro!: ends_step [of _ StopCheck _ "[]"] ends_Nil)

lemma ends_ReadLoop: "stopped s \<Longrightarrow> ends c [ReadLoop, CloseConn] s"
  by (rule ends_step [of _ _ _ "[]" s]) (auto intro: ends_close)

lemma ends_OnEvent:
  assumes "stopped s" "\<not> sinkWrite s"
  shows "ends c [OnEvent raw, ReadLoop, CloseConn] s"
proof (cases "onEvent c raw s")
  case (Inl p)
  then have "exec c (OnEvent raw) s = Some (Inl p)" by (auto simp: onEvent_def split: sum.splits)
  then show ?thesis by (rule ends_panic)
next
  case (Inr s')
  have "finishes c [OnEvent raw] s (Inr s')" using finishes_onEvent [OF assms(2), of c raw] Inr by simp
  moreover have "ends c [ReadLoop, CloseConn] s'" using stopped_onEvent [OF Inr] assms by (intro ends_ReadLoop) simp
  ultimately show ?thesis using ends_after [of c "[OnEvent raw]"] by fastforce
qed

lemma ends_ReadFrame:
  assumes "stopped s" "\<not> sinkWrite s"
  shows "ends c [ReadFrame, CloseConn] s"
proof -
  let ?s = "snd (io c ORead s)"
  have s: "stopped ?s" "\<not> sinkWrite ?s" using assms by (simp_all add: stopped_io)
  have ack: "ends c [AckSlack i, OnEvent raw, ReadLoop, CloseConn] ?s" for i raw
    by (rule ends_step [of _ _ _ "[]"]) (use s in \<open>auto simp: stopped_io intro!: ends_OnEvent\<close>)
  have "ends c (read_tasks rp @ [CloseConn]) ?s" for rp
    using s ack by (auto simp: read_tasks_def ends_close ends_ReadLoop split: reply.split sum.split)
  then show ?thesis by (intro ends_step [of _ _ _ "read_tasks (fst (io c ORead s))" ?s]) (auto simp: Let_def)
qed

lemma ends_RunSlack: "stopped s \<Longrightarrow> ends c [RunSlack d] s"
  by (rule ends_step [of _ _ _ "[]" s]) (auto intro: ends_Nil)

lemma ends_SleepSlack: "stopped s \<Longrightarrow> ends c [SleepSlack d] s"
  by (rule ends_step [of _ _ _ "if fst (sleepOrStop c d s) then [RunSlack (nextBackoff d)] else []" "snd (sleepOrStop c d s)"])
    (auto simp: Let_def sleepOrStop_def stopped_io intro!: ends_RunSlack ends_Nil)

lemma ends_DialSlack: "stopped s \<Longrightarrow> ends c [DialSlack token d] s"
  by (rule ends_step [of _ _ _ "if fst (io c (ODial token) s) = Fail then [SleepSlack d] else [ReadLoop, CloseConn]" "snd (io c (ODial token) s)"])
    (auto simp: Let_def stopped_io intro: ends_SleepSlack ends_ReadLoop)

lemma ends_ReadToken: "stopped s \<Longrightarrow> ends c [ReadToken d] s"
  by (rule ends_step [of _ _ _ "[DialSlack (appToken s) d]" s]) (auto intro: ends_DialSlack)

lemma ends_StopCheck: "stopped s \<Longrightarrow> ends c [StopCheck] s"
  by (rule ends_step [of _ _ _ "[]" s]) (auto intro: ends_Nil)

text \<open>The places where the loop can be between two of its calls.\<close>

definition loop_places :: "task list set" where
  "loop_places = {g. \<exists>d token. g = [RunSlack d] \<or> g = [ReadToken d] \<or> g = [DialSlack token d] \<or> g = [SleepSlack d] \<or>
     g = [ReadLoop, CloseConn] \<or> g = [ReadFrame, CloseConn] \<or> g = [CloseConn] \<or> g = [StopCheck]}"

lemma loop_ends: "g \<in> loop_places \<Longrightarrow> stopped s \<Longrightarrow> \<not> sinkWrite s \<Longrightarrow> ends c g s"
  by (auto simp: loop_places_def intro: ends_RunSlack ends_ReadToken ends_DialSlack ends_SleepSlack ends_ReadLoop
      ends_ReadFrame ends_close ends_StopCheck)

end
