(* ===== verification/SlackFeed.thy ===== *)
theory SlackFeed
  imports SessionOrder
begin

text \<open>
  From Slack to the session: the event frames the read loop got from Slack against the events that
  arrived in the session and the acknowledgements it sent back. The read loop is one goroutine and runs
  its regions in order, so between reading an event and handing it to \<^verbatim>\<open>onEvent\<close> there is never more than
  one event. As long as the session is not closed, the loop does not end.
\<close>

section \<open>What was read and what was acknowledged\<close>

definition event_frame :: "reply \<Rightarrow> bytes list" where
  "event_frame r = (case r of OkFrame raw \<Rightarrow> if is_event_raw raw then [raw] else [] | _ \<Rightarrow> [])"

text \<open>The event frames among the answers to the reads in a log.\<close>

definition events_read :: "config \<Rightarrow> action list \<Rightarrow> bytes list" where
  "events_read c os = concat (map (\<lambda>i. if os ! i = ORead then event_frame (answer c i) else []) [0..<length os])"

definition raw_id :: "bytes \<Rightarrow> bytes" where
  "raw_id raw = (case DecodeEnvelope raw of Inl _ \<Rightarrow> [] | Inr e \<Rightarrow> EnvelopeID e)"

definition ack_of :: "action \<Rightarrow> bytes list" where
  "ack_of a = (case a of OSlackAck i \<Rightarrow> [i] | _ \<Rightarrow> [])"

definition slack_acks :: "action list \<Rightarrow> bytes list" where
  "slack_acks os = concat (map ack_of os)"

lemma events_read_Nil [simp]: "events_read c [] = []"
  by (simp add: events_read_def)

lemma events_read_snoc:
  "events_read c (os @ [a]) = events_read c os @ (if a = ORead then event_frame (answer c (length os)) else [])"
proof -
  have "map (\<lambda>i. if (os @ [a]) ! i = ORead then event_frame (answer c i) else []) [0..<length os] =
      map (\<lambda>i. if os ! i = ORead then event_frame (answer c i) else []) [0..<length os]"
    by (simp add: nth_append)
  then have "concat (map (\<lambda>i. if (os @ [a]) ! i = ORead then event_frame (answer c i) else []) [0..<length os]) =
      events_read c os" by (simp only: events_read_def)
  then show ?thesis by (simp add: events_read_def [of c "os @ [a]"])
qed

lemma slack_acks_simps [simp]: "slack_acks [] = []" "slack_acks (os @ [a]) = slack_acks os @ ack_of a"
  by (simp_all add: slack_acks_def)

section \<open>The shape of the read loop\<close>

text \<open>
  The tasks of the Slack loop stand in a goroutine in the order in which the code runs them, after
  whatever an event's delivery still has to do.
\<close>

fun feeds :: "task list \<Rightarrow> bool" where
  "feeds [] \<longleftrightarrow> True"
| "feeds (t # ts) \<longleftrightarrow> (case t of
     AckSlack i \<Rightarrow> (\<exists>raw. ts = [OnEvent raw, ReadLoop, CloseConn] \<and> is_event_raw raw \<and> raw_id raw = i)
   | OnEvent raw \<Rightarrow> is_event_raw raw \<and> ts = [ReadLoop, CloseConn]
   | ReadLoop \<Rightarrow> ts = [CloseConn]
   | ReadFrame \<Rightarrow> ts = [CloseConn]
   | _ \<Rightarrow> if loop_task t then ts = [] else feeds ts)"

definition slack_task :: "task \<Rightarrow> bool" where
  "slack_task t \<longleftrightarrow> loop_task t \<or> reading_task t \<or> (case t of AckSlack i \<Rightarrow> True | OnEvent raw \<Rightarrow> True | _ \<Rightarrow> False)"

lemma feeds_free: "\<not> slack_task t \<Longrightarrow> feeds (t # ts) = feeds ts"
  by (cases t) (auto simp: slack_task_def loop_task_def reading_task_def)

lemma feeds_append: "\<forall>t \<in> set ts'. \<not> slack_task t \<Longrightarrow> feeds (ts' @ ts) = feeds ts"
  by (induction ts') (auto simp: feeds_free simp del: feeds.simps)

lemma feeds_tl: "feeds (t # ts) \<Longrightarrow> feeds ts"
  by (cases t) (auto simp: loop_task_def)

lemma read_tasks_feeds: "feeds (read_tasks r @ [CloseConn])"
  by (auto simp: read_tasks_def loop_task_def is_event_raw_def raw_id_def split: reply.split sum.split)

lemma exec_free:
  assumes "exec c t s = Some (Inr (ts', s'))" "\<not> slack_task t"
  shows "\<forall>t' \<in> set ts'. \<not> slack_task t'"
  using assms by (cases t) (auto simp: slack_task_def loop_task_def reading_task_def plan_tasks_def Let_def
      split: if_splits option.splits sum.splits list.splits event_plan.splits)

lemma exec_OnEvent_free:
  assumes "exec c (OnEvent raw) s = Some (Inr (ts', s'))"
  shows "\<forall>t' \<in> set ts'. \<not> slack_task t'"
  using assms by (auto simp: slack_task_def loop_task_def reading_task_def plan_tasks_def
      split: sum.splits event_plan.splits)

lemma exec_feeds:
  assumes "exec c t s = Some (Inr (ts', s'))" "feeds (t # ts)"
  shows "feeds (ts' @ ts)"
proof (cases "slack_task t")
  case False
  with exec_free [OF assms(1)] feeds_append feeds_free assms(2) show ?thesis by metis
next
  case True
  show ?thesis
  proof (cases t)
    case (OnEvent raw)
    with exec_OnEvent_free assms(1) feeds_append feeds_tl [OF assms(2)] show ?thesis by metis
  next
    case ReadFrame
    with assms read_tasks_feeds show ?thesis by (auto simp: Let_def)
  qed (use True assms in \<open>auto simp: slack_task_def loop_task_def reading_task_def Let_def intro: feeds_tl split: if_splits\<close>)
qed

text \<open>A goroutine that is about to read, or to hand over or acknowledge an event, is the Slack loop.\<close>

fun handing :: "task \<Rightarrow> bool" where
  "handing (OnEvent raw) = True"
| "handing ReadFrame = True"
| "handing _ = False"

fun acking :: "task \<Rightarrow> bool" where
  "acking (AckSlack i) = True"
| "acking ReadFrame = True"
| "acking _ = False"

lemma feeds_handing:
  "feeds g \<Longrightarrow> length (filter handing g) \<le> length (filter loop_task g) \<and> length (filter acking g) \<le> length (filter loop_task g)"
proof (induction g)
  case (Cons t g)
  define h a l where "h = length (filter handing g)" and "a = length (filter acking g)" and "l = length (filter loop_task g)"
  have len: "length (filter P (t # g)) = (if P t then Suc (length (filter P g)) else length (filter P g))" for P by simp
  have "h \<le> l" "a \<le> l" using Cons feeds_tl by (auto simp: h_def a_def l_def)
  moreover have "handing t \<longrightarrow> h = 0 \<and> l = 1" "acking t \<longrightarrow> a = 0 \<and> l = 1"
    using Cons.prems by (cases t; auto simp: h_def a_def l_def loop_task_def)+
  ultimately show ?case unfolding len h_def [symmetric] a_def [symmetric] l_def [symmetric] by auto
qed simp

lemma feeds_one:
  assumes "\<forall>g \<in> set (gos s). feeds g" "slack_inv s"
  shows "cnt handing s \<le> 1" "cnt acking s \<le> 1"
proof -
  have "length (filter handing (concat gs)) \<le> length (filter loop_task (concat gs)) \<and>
      length (filter acking (concat gs)) \<le> length (filter loop_task (concat gs))" if "\<forall>g \<in> set gs. feeds g" for gs
    using that by (induction gs) (auto dest!: feeds_handing)
  from this [OF assms(1)] have "cnt handing s \<le> cnt loop_task s" "cnt acking s \<le> cnt loop_task s"
    by (simp_all add: cnt_def tasks_def flip: mset_filter)
  moreover have "cnt loop_task s \<le> 1" using assms(2) by (auto simp: slack_inv_def one_def split: if_splits)
  ultimately show "cnt handing s \<le> 1" "cnt acking s \<le> 1" by simp_all
qed

section \<open>The call of a region\<close>

text \<open>The one call that a region makes to the outside, if it makes one.\<close>

fun call_of :: "task \<Rightarrow> session \<Rightarrow> action option" where
  "call_of (WriteSend sk f fs) s = Some (OWrite sk f)"
| "call_of SuspendCall s = Some (OSuspend (ref s))"
| "call_of ResumeActor_call s = Some (OResume (ref s))"
| "call_of ForwardCall s = Some OForward"
| "call_of (DialSlack token d) s = Some (ODial token)"
| "call_of (SleepSlack d) s = Some (OSleep d)"
| "call_of ReadFrame s = Some ORead"
| "call_of (AckSlack i) s = Some (OSlackAck i)"
| "call_of CloseConn s = Some OConnClose"
| "call_of _ s = None"

lemma plan_go_out [simp]: "out (plan_go p s) = out s"
  by (auto simp: plan_go_def go_def split: event_plan.split)

lemma exec_out:
  assumes "exec c t s = Some (Inr (ts', s'))"
  shows "out s' = out s @ (case call_of t s of None \<Rightarrow> [] | Some a \<Rightarrow> [a])"
proof (cases t)
  case (OnEvent raw)
  with assms show ?thesis
    by (auto simp: onEvent_locked_result split: sum.splits option.splits if_splits)
next
  case (DeliverBuffered sk)
  with assms show ?thesis by (auto dest!: deliver_locked_state split: sum.splits option.splits)
next
  case (Start token)
  with assms show ?thesis by (auto simp: EnsureStarted_def go_def Let_def)
qed (use assms in \<open>auto simp: io_def onIdle_locked_def suspend_failed_locked_def resume_failed_locked_def noteActivity_def
    attach_locked_def Detach_def Ack_event_def beginForward_def endForward_def Close_def sleepOrStop_def Let_def
    split: if_splits option.splits list.splits\<close>)

lemma step_out:
  assumes "step c s l s'"
  shows "out s' = out s @ (case l of Ran t \<Rightarrow> (case call_of t s of None \<Rightarrow> [] | Some a \<Rightarrow> [a]) | _ \<Rightarrow> [])"
  using assms
proof (cases rule: step_cases)
  case (ran t ts' s1 g)
  with exec_out [OF ran(3)] show ?thesis by simp
qed (simp_all add: go_def Stop_def)

section \<open>Events in hand\<close>

text \<open>Only a read brings up the tasks that acknowledge an event and hand it over.\<close>

lemma step_other_task:
  assumes "step c s l s'" "l \<noteq> Ran ReadFrame" "l \<noteq> Ran k" "k = OnEvent raw \<or> k = AckSlack i"
  shows "k \<in># tasks s' \<longleftrightarrow> k \<in># tasks s"
  using assms(1)
proof (cases rule: step_cases)
  case (ran t ts' s1 g)
  have t: "t \<noteq> ReadFrame" "t \<noteq> k" using ran(1) assms(2,3) by auto
  have new: "k \<notin> set ts'"
    using ran(3) t assms(4) by (cases t) (auto simp: plan_tasks_def Let_def split: if_splits option.splits sum.splits list.splits event_plan.splits)
  have "k \<in># tasks s1 \<longleftrightarrow> k \<in># tasks s" using exec_gos [OF ran(3)] assms(4) by (auto simp: tasks_def)
  moreover have "k \<in># tasks s' \<longleftrightarrow> k \<in># tasks s1" using ran(5) t(2) new by (simp add: in_diff_count)
  ultimately show ?thesis by simp
next
  case (fired j fn)
  then show ?thesis using assms(4) by (auto simp: callback_def split: timer_fn.splits)
next
  case (called n g new sk)
  have k: "k \<notin> set new" "k \<noteq> ServeSocket sk" using called(5) assms(4) by auto
  from called(4) show ?thesis
  proof
    assume "tasks s' = tasks s + mset new"
    with k(1) show ?thesis by simp
  next
    assume "tasks s' = tasks s - {#ServeSocket sk#} + mset new"
    with k show ?thesis by (simp add: in_diff_count)
  qed
qed

lemma step_feeds:
  assumes "step c s l s'" "\<forall>g \<in> set (gos s). feeds g"
  shows "\<forall>g \<in> set (gos s'). feeds g"
  using assms(1)
proof cases
  case (run i t ts ts' s1)
  have "feeds (ts' @ ts)" using exec_feeds [OF run(5)] assms(2) run(3,4) by (metis nth_mem)
  moreover have "\<forall>g \<in> set (gos s1). feeds g" using exec_gos [OF run(5)] assms(2) by (auto simp: loop_task_def)
  ultimately show ?thesis using run(2) set_update_subset_insert [of "gos s1" i "ts' @ ts"] by auto
next
  case (fire i fn)
  then show ?thesis using assms(2) by (auto simp: go_def Stop_def callback_def loop_task_def split: timer_fn.splits)
next
  case (receive i sk ts t x)
  have "feeds ts" using assms(2) receive(3,4) feeds_tl [of "ServeSocket sk" ts] by (metis nth_mem)
  with receive assms(2) set_update_subset_insert [of "gos s" i "t # ServeSocket sk # ts"] show ?thesis
    by (auto simp: loop_task_def)
next
  case (ping_lost i sk ts)
  have "feeds ts" using assms(2) ping_lost(3,4) feeds_tl [of "ServeSocket sk" ts] by (metis nth_mem)
  with ping_lost assms(2) set_update_subset_insert [of "gos s" i "DeliverBuffered sk # ts"] show ?thesis
    by (auto simp: loop_task_def)
next
  case (hang_up i sk ts)
  have "feeds ts" using assms(2) hang_up(3,4) feeds_tl [of "ServeSocket sk" ts] by (metis nth_mem)
  with hang_up assms(2) set_update_subset_insert [of "gos s" i ts] show ?thesis by auto
qed (use assms(2) in \<open>auto simp: go_def loop_task_def\<close>)

text \<open>Two tasks of one kind cannot both wait when there is at most one of the kind.\<close>

lemma cnt_le_one:
  assumes "cnt P s \<le> 1" "t \<in># tasks s" "P t" "u \<in># tasks s" "P u"
  shows "t = u"
proof (rule ccontr)
  assume "t \<noteq> u"
  with assms(2,4) have "{#t, u#} \<subseteq># tasks s" by (simp add: insert_subset_eq_iff in_diff_count)
  then have "filter_mset P {#t, u#} \<subseteq># filter_mset P (tasks s)" by (rule multiset_filter_mono)
  then have "size (filter_mset P {#t, u#}) \<le> cnt P s" unfolding cnt_def by (rule size_mset_mono)
  with assms show False by simp
qed

lemma cnt_after:
  assumes "tasks s' = tasks s1 - {#t#} + mset ts'" "t \<in># tasks s1" "exec c t s = Some (Inr (ts', s1))"
    "cnt P s \<le> 1" "P t" "filter P ts' = []" "\<not> P ResumeActor_call" "\<not> P (RunSlack second)" "P u"
  shows "u \<notin># tasks s'"
proof -
  have "cnt P s' + 1 = cnt P s" using cnt_ran [OF assms(1,2), of P] cnt_exec [OF assms(3,7,8)] assms(5,6) by simp
  then have "cnt P s' = 0" using assms(4) by simp
  with cnt_member [of u s' P] assms(9) show ?thesis by (auto simp: one_def)
qed

definition hand_inv :: "config \<Rightarrow> label list \<Rightarrow> session \<Rightarrow> bool" where
  "hand_inv c ls s \<longleftrightarrow> (\<forall>raw. OnEvent raw \<in># tasks s \<longrightarrow> events_read c (out s) = arrived ls @ [raw]) \<and>
     ((\<forall>raw. OnEvent raw \<notin># tasks s) \<longrightarrow> events_read c (out s) = arrived ls)"

definition ack_inv :: "config \<Rightarrow> session \<Rightarrow> bool" where
  "ack_inv c s \<longleftrightarrow> (\<forall>i. AckSlack i \<in># tasks s \<longrightarrow> map raw_id (events_read c (out s)) = slack_acks (out s) @ [i]) \<and>
     ((\<forall>i. AckSlack i \<notin># tasks s) \<longrightarrow> map raw_id (events_read c (out s)) = slack_acks (out s))"

definition feed_inv :: "config \<Rightarrow> label list \<Rightarrow> session \<Rightarrow> bool" where
  "feed_inv c ls s \<longleftrightarrow> (\<forall>g \<in> set (gos s). feeds g) \<and> hand_inv c ls s \<and> ack_inv c s"

lemma step_events_read: "step c s l s' \<Longrightarrow> l \<noteq> Ran ReadFrame \<Longrightarrow> events_read c (out s') = events_read c (out s)"
  by (frule step_out, cases l)
    (auto simp: events_read_snoc elim!: call_of.elims split: option.splits)

lemma step_slack_acks: "step c s l s' \<Longrightarrow> (\<And>i. l \<noteq> Ran (AckSlack i)) \<Longrightarrow> slack_acks (out s') = slack_acks (out s)"
  by (frule step_out, cases l) (auto simp: ack_of_def elim!: call_of.elims split: option.splits)

lemma step_arrived: "(\<And>raw. l \<noteq> Ran (OnEvent raw)) \<Longrightarrow> arrived (ls @ [l]) = arrived ls"
  by (auto split: label.splits task.splits)

lemma read_event:
  assumes "step c s (Ran ReadFrame) s'" "hand_inv c ls s" "ack_inv c s"
    "cnt handing s \<le> 1" "cnt acking s \<le> 1"
  shows "hand_inv c (ls @ [Ran ReadFrame]) s' \<and> ack_inv c s'"
  using assms(1)
proof (cases rule: step_cases)
  case (ran t ts' s1 g)
  let ?a = "answer c (length (out s))"
  from ran have s1: "t = ReadFrame" "s1 = s\<lparr>out := out s @ [ORead]\<rparr>" "ts' = read_tasks ?a"
    by (auto simp: io_def Let_def)
  have none: "OnEvent raw \<notin># tasks s" "AckSlack i \<notin># tasks s" for raw i
    using cnt_le_one [OF assms(4), of ReadFrame "OnEvent raw"] cnt_le_one [OF assms(5), of ReadFrame "AckSlack i"] ran(2) s1(1) by auto
  then have E: "events_read c (out s) = arrived ls" "map raw_id (events_read c (out s)) = slack_acks (out s)"
    using assms(2,3) by (auto simp: hand_inv_def ack_inv_def)
  have out: "out s' = out s @ [ORead]" using ran(4) s1(2) by simp
  have mem: "OnEvent raw \<in># tasks s' \<longleftrightarrow> OnEvent raw \<in> set ts'" "AckSlack i \<in># tasks s' \<longleftrightarrow> AckSlack i \<in> set ts'" for raw i
    using ran(5) none s1(1,2) by (auto simp: in_diff_count tasks_def)
  show ?thesis
  proof (cases "event_frame ?a")
    case Nil
    then have "OnEvent raw \<notin> set ts'" "AckSlack i \<notin> set ts'" for raw i
      unfolding s1(3) by (auto simp: event_frame_def read_tasks_def is_event_raw_def split: reply.splits sum.splits if_splits)
    with mem E Nil show ?thesis by (simp add: hand_inv_def ack_inv_def out events_read_snoc ack_of_def)
  next
    case (Cons raw rest)
    then have a: "?a = OkFrame raw" "is_event_raw raw" "rest = []"
      by (auto simp: event_frame_def split: reply.splits if_splits)
    then obtain e where e: "DecodeEnvelope raw = Inr e" "IsEvent e" by (elim is_event_rawE)
    have "ts' = [AckSlack (EnvelopeID e), OnEvent raw, ReadLoop]"
      unfolding s1(3) a(1) using e by (auto simp: read_tasks_def IsConnectionManagement_def IsEvent_def envelope_types)
    with mem E Cons a(3) e show ?thesis
      by (simp add: hand_inv_def ack_inv_def out events_read_snoc ack_of_def raw_id_def)
  qed
qed simp_all

lemma handed_over:
  assumes "step c s (Ran (OnEvent raw)) s'" "hand_inv c ls s" "cnt handing s \<le> 1"
  shows "hand_inv c (ls @ [Ran (OnEvent raw)]) s'"
  using assms(1)
proof (cases rule: step_cases)
  case (ran t ts' s1 g)
  from ran(1) have t: "t = OnEvent raw" by simp
  have "filter handing ts' = []"
    using ran(3) t by (auto simp: plan_tasks_def split: sum.splits event_plan.splits)
  from cnt_after [OF ran(5,6,3) assms(3) _ this] t have "OnEvent r \<notin># tasks s'" for r by simp
  moreover have "events_read c (out s') = arrived ls @ [raw]"
    using step_events_read [OF assms(1)] assms(2) ran(2) t by (auto simp: hand_inv_def)
  ultimately show ?thesis by (simp add: hand_inv_def)
qed simp_all

lemma acknowledged:
  assumes "step c s (Ran (AckSlack i)) s'" "ack_inv c s" "cnt acking s \<le> 1"
  shows "ack_inv c s'"
  using assms(1)
proof (cases rule: step_cases)
  case (ran t ts' s1 g)
  from ran(1) have t: "t = AckSlack i" by simp
  have "filter acking ts' = []" using ran(3) t by auto
  from cnt_after [OF ran(5,6,3) assms(3) _ this] t have "AckSlack r \<notin># tasks s'" for r by simp
  moreover have "map raw_id (events_read c (out s')) = slack_acks (out s) @ [i]"
    using step_events_read [OF assms(1)] assms(2) ran(2) t by (auto simp: ack_inv_def)
  moreover have "slack_acks (out s') = slack_acks (out s) @ [i]" using step_out [OF assms(1)] by (simp add: ack_of_def)
  ultimately show ?thesis by (simp add: ack_inv_def)
qed simp_all

lemma step_feed_inv:
  assumes "step c s l s'" "slack_inv s" "feed_inv c ls s"
  shows "feed_inv c (ls @ [l]) s'"
proof -
  from assms(3) have inv: "\<forall>g \<in> set (gos s). feeds g" "hand_inv c ls s" "ack_inv c s" by (simp_all add: feed_inv_def)
  note one = feeds_one [OF inv(1) assms(2)]
  have "hand_inv c (ls @ [l]) s' \<and> ack_inv c s'"
  proof (cases "l = Ran ReadFrame")
    case True
    with read_event inv one assms(1) show ?thesis by blast
  next
    case False
    have "hand_inv c (ls @ [l]) s'"
    proof (cases "\<exists>raw. l = Ran (OnEvent raw)")
      case True
      with handed_over inv one assms(1) show ?thesis by blast
    next
      case no: False
      with step_other_task [OF assms(1) False] have "OnEvent raw \<in># tasks s' \<longleftrightarrow> OnEvent raw \<in># tasks s" for raw by blast
      with no step_arrived [of l ls] step_events_read [OF assms(1) False] inv(2) show ?thesis by (simp add: hand_inv_def)
    qed
    moreover have "ack_inv c s'"
    proof (cases "\<exists>i. l = Ran (AckSlack i)")
      case True
      with acknowledged inv one assms(1) show ?thesis by blast
    next
      case no: False
      with step_other_task [OF assms(1) False] have "AckSlack i \<in># tasks s' \<longleftrightarrow> AckSlack i \<in># tasks s" for i by blast
      with no step_slack_acks [OF assms(1)] step_events_read [OF assms(1) False] inv(3) show ?thesis by (simp add: ack_inv_def)
    qed
    ultimately show ?thesis by simp
  qed
  with step_feeds [OF assms(1) inv(1)] show ?thesis by (simp add: feed_inv_def)
qed

lemma feed_inv_new: "feed_inv c [] (new_session r)"
  by (simp add: feed_inv_def hand_inv_def ack_inv_def new_session_def tasks_def)

interpretation feed: run_invariant "step c" "new_session r" "feed_inv c" for c r
  by unfold_locales (rule feed_inv_new, rule step_feed_inv [OF _ slack.holds])

text \<open>
  Every event frame that was read has arrived, in order, except for at most the last one, which the read
  loop still has in its hands; and it was acknowledged to Slack before it arrived.
\<close>

lemma feed_result:
  assumes "slack_inv s" "feed_inv c ls s"
  shows "\<exists>p q. events_read c (out s) = arrived ls @ p \<and> map raw_id (events_read c (out s)) = slack_acks (out s) @ q \<and>
    length q \<le> length p \<and> length p \<le> 1 \<and> set p = {raw. OnEvent raw \<in># tasks s}"
proof (cases "\<exists>raw. OnEvent raw \<in># tasks s")
  case True
  then obtain raw where raw: "OnEvent raw \<in># tasks s" by blast
  have "\<forall>g \<in> set (gos s). feeds g" using assms(2) by (simp add: feed_inv_def)
  then have "r = raw" if "OnEvent r \<in># tasks s" for r
    using cnt_le_one [OF feeds_one(1) [OF _ assms(1)] raw _ that] by simp
  then have "{r. OnEvent r \<in># tasks s} = {raw}" using raw by blast
  moreover obtain q where "map raw_id (events_read c (out s)) = slack_acks (out s) @ q" "length q \<le> 1"
    using assms(2) by (cases "\<exists>i. AckSlack i \<in># tasks s") (auto simp: feed_inv_def ack_inv_def)
  ultimately show ?thesis using assms(2) raw
    by (intro exI [of _ "[raw]"] exI [of _ q]) (auto simp: feed_inv_def hand_inv_def)
next
  case False
  have "feeds g \<Longrightarrow> AckSlack i \<in> set g \<Longrightarrow> \<exists>raw. OnEvent raw \<in> set g" for g i
  proof (induction g)
    case (Cons t g)
    then show ?case using feeds_tl [OF Cons.prems(1)] by (cases "t = AckSlack i") fastforce+
  qed simp
  with False assms(2) have "AckSlack i \<notin># tasks s" for i by (fastforce simp: feed_inv_def tasks_def)
  with False assms(2) show ?thesis by (intro exI [of _ "[]"]) (auto simp: feed_inv_def hand_inv_def ack_inv_def)
qed

section \<open>The Slack loop lives\<close>

definition alive_inv :: "session \<Rightarrow> bool" where
  "alive_inv s \<longleftrightarrow> slack_inv s \<and> (started s \<and> \<not> closed s \<longrightarrow> cnt loop_task s = 1)"

lemma exec_loop_kept:
  assumes "exec c t s = Some (Inr (ts', s'))" "\<not> stopped s"
  shows "length (filter loop_task ts') = one (loop_task t)"
  using assms by (cases t) (auto simp: loop_task_def plan_tasks_def read_tasks_loop sleepOrStop_def Let_def
      split: if_splits option.splits sum.splits list.splits event_plan.splits)

lemma exec_alive:
  assumes "exec c t s = Some (Inr (ts', s'))" "alive_inv s"
  shows "alive_inv s'"
proof (cases "\<exists>token. t = Start token \<and> \<not> started s \<and> \<not> closed s")
  case True
  then obtain token where t: "t = Start token" "\<not> started s" "\<not> closed s" by blast
  with assms(1) have s': "s' = go [RunSlack second] (s\<lparr>appToken := token, started := True, stop := Some False\<rparr>)"
    by (simp add: EnsureStarted_def Let_def)
  have "cnt loop_task s = 0" using assms(2) t(2) by (simp add: alive_inv_def slack_inv_def)
  then have "cnt loop_task s' = 1" unfolding s' by (simp add: cnt_def tasks_def go_def) (simp add: loop_task_def)
  with exec_slack_inv [OF assms(1)] assms(2) show ?thesis by (simp add: alive_inv_def)
next
  case False
  then have "cnt loop_task s' = cnt loop_task s"
    using exec_gos [OF assms(1)] by (auto simp: cnt_def tasks_def loop_task_def)
  with False exec_started [OF assms(1)] exec_slack_inv [OF assms(1)] assms(2) show ?thesis
    by (auto simp: alive_inv_def Close_def EnsureStarted_def Let_def split: if_splits)
qed

lemma step_alive:
  assumes "alive_inv s" "step c s l s'"
  shows "alive_inv s'"
proof -
  have "slack_inv s'" using step_slack_inv assms by (auto simp: alive_inv_def)
  moreover from assms(2) have "cnt loop_task s' = 1" if "started s'" "\<not> closed s'"
  proof (cases rule: step_cases)
    case (ran t ts' s1 g)
    have s1: "alive_inv s1" by (rule exec_alive [OF ran(3) assms(1)])
    have "\<not> closed s" using exec_started [OF ran(3)] that(2) ran(4) by (auto simp: Close_def EnsureStarted_def go_def Let_def split: if_splits)
    then have "\<not> stopped s \<or> \<not> started s" using assms(1) by (auto simp: alive_inv_def slack_inv_def stopped_def)
    moreover have "one (loop_task t) = 0" "filter loop_task ts' = []" if "\<not> started s"
    proof -
      show t: "one (loop_task t) = 0" using cnt_member [OF ran(2), of loop_task] assms(1) that
        by (auto simp: alive_inv_def slack_inv_def one_def split: if_splits)
      show "filter loop_task ts' = []" using exec_loop [OF ran(3)] t by simp
    qed
    ultimately have "length (filter loop_task ts') = one (loop_task t)" using exec_loop_kept [OF ran(3)] by fastforce
    then have "cnt loop_task s' = cnt loop_task s1" using cnt_ran [OF ran(5,6), of loop_task] by simp
    with s1 that ran(4) show ?thesis by (simp add: alive_inv_def)
  next
    case (fired i fn)
    then show ?thesis using assms(1) that
      by (auto simp: alive_inv_def cnt_def Stop_def go_def loop_task_def callback_def split: timer_fn.split)
  next
    case (called n g new sk)
    have "cnt loop_task s' = cnt loop_task s" by (rule cnt_called [OF called(4)]) (use called(5) in \<open>auto simp: loop_task_def\<close>)
    with called(2) assms(1) that show ?thesis by (simp add: alive_inv_def)
  qed
  ultimately show ?thesis by (simp add: alive_inv_def)
qed

interpretation alive: state_invariant "step c" "new_session r" alive_inv for c r
  by unfold_locales (use slack_inv_new in \<open>simp add: alive_inv_def\<close>, simp add: new_session_def, rule step_alive)

end
