(* ===== verification/WriteLock.thy ===== *)
theory WriteLock
  imports SessionRun
begin

text \<open>
  The write lock of the actor's connection: the goroutine that holds it is always able to go on, and
  its own steps release the lock after finitely many writes. So no goroutine of a session is blocked
  for good.
\<close>

section \<open>The holder is at the head of its goroutine\<close>

definition head_inv :: "session \<Rightarrow> bool" where
  "head_inv s \<longleftrightarrow> (\<forall>g \<in> set (gos s). \<forall>t \<in> set (tl g). \<not> writing t)"

lemma exec_tl_writing: "exec c t s = Some (Inr (ts', s')) \<Longrightarrow> u \<in> set (tl ts') \<Longrightarrow> \<not> writing u"
  by (cases t) (auto simp: plan_tasks_def read_tasks_def writing_def Let_def
      split: if_splits option.splits sum.splits list.splits event_plan.splits reply.splits)

lemma exec_new_gos:
  assumes "exec c t s = Some (Inr (ts', s'))"
  obtains new where "gos s' = gos s @ new" "set new \<subseteq> {[ResumeActor_call], [RunSlack second]}"
  using exec_gos [OF assms] by (elim disjE exE conjE) (auto intro: that [of "[]"] that [of "[[ResumeActor_call]]"] that [of "[[RunSlack second]]"])

lemma head_inv_update:
  assumes "head_inv s" "set gs \<subseteq> insert g (set (gos s))" "\<And>t. t \<in> set (tl g) \<Longrightarrow> \<not> writing t"
  shows "head_inv (s'\<lparr>gos := gs\<rparr>)"
  using assms by (auto simp: head_inv_def)

lemma step_head_inv:
  assumes "step c s l s'" "head_inv s"
  shows "head_inv s'"
  using assms(1)
proof cases
  case (run i t ts ts' s1)
  obtain new where new: "gos s1 = gos s @ new" "set new \<subseteq> {[ResumeActor_call], [RunSlack second]}"
    by (rule exec_new_gos [OF run(5)])
  have "t # ts \<in> set (gos s)" using run(3,4) nth_mem by metis
  then have "\<not> writing u" if "u \<in> set ts" for u using assms(2) that by (auto simp: head_inv_def)
  then have tl: "\<not> writing u" if "u \<in> set (tl (ts' @ ts))" for u
    using exec_tl_writing [OF run(5)] that by (cases ts') (auto dest: tl_member)
  have "set ((gos s1)[i := ts' @ ts]) \<subseteq> insert (ts' @ ts) (set (gos s1))" by (rule set_update_subset_insert)
  moreover have "head_inv s1" using assms(2) new by (auto simp: head_inv_def)
  ultimately show ?thesis using run(2) tl by (auto simp: head_inv_def)
next
  case (receive i sk ts t x)
  have "ServeSocket sk # ts \<in> set (gos s)" using receive(3,4) nth_mem by metis
  then have "\<not> writing u" if "u \<in> set ts" for u using assms(2) that by (auto simp: head_inv_def)
  then show ?thesis
    unfolding receive(2) using set_update_subset_insert [of "gos s" i "t # ServeSocket sk # ts"] assms(2)
    by (intro head_inv_update) (auto simp: writing_def)
next
  case (ping_lost i sk ts)
  have "ServeSocket sk # ts \<in> set (gos s)" using ping_lost(3,4) nth_mem by metis
  then have "\<not> writing u" if "u \<in> set ts" for u using assms(2) that by (auto simp: head_inv_def)
  then show ?thesis
    unfolding ping_lost(2) using set_update_subset_insert [of "gos s" i "DeliverBuffered sk # ts"] assms(2)
    by (intro head_inv_update) (auto simp: writing_def)
next
  case (hang_up i sk ts)
  have "ServeSocket sk # ts \<in> set (gos s)" using hang_up(3,4) nth_mem by metis
  then have "\<not> writing u" if "u \<in> set ts" for u using assms(2) that by (auto simp: head_inv_def)
  then show ?thesis
    unfolding hang_up(2) using set_update_subset_insert [of "gos s" i ts] assms(2)
    by (intro head_inv_update) (auto dest: tl_member)
qed (use assms(2) in \<open>auto simp: head_inv_def go_def Stop_def writing_def\<close>)

lemma head_inv_new: "head_inv (new_session r)"
  by (simp add: head_inv_def new_session_def)

interpretation head: state_invariant "step c" "new_session r" head_inv for c r
  by unfold_locales (rule head_inv_new, rule step_head_inv)

lemma lock_holder:
  assumes "head_inv s" "lock_inv s" "sinkWrite s"
  obtains j w us where "j < length (gos s)" "gos s ! j = w # us" "writing w"
proof -
  have "size (filter_mset writing (tasks s)) = Suc 0" using assms(2,3) by (simp add: lock_inv_def cnt_def)
  from size_eq_Suc_imp_elem [OF this] obtain w where w: "w \<in># tasks s" "writing w" by auto
  then obtain g where g: "g \<in> set (gos s)" "w \<in> set g" by (auto simp: tasks_def)
  have "g \<noteq> []" using g(2) by auto
  then obtain x us where x: "g = x # us" by (auto simp: neq_Nil_conv)
  have "\<forall>t \<in> set (tl g). \<not> writing t" using assms(1) g(1) by (simp add: head_inv_def)
  with x g(2) w(2) have us: "g = w # us" by auto
  with g obtain j where "j < length (gos s)" "gos s ! j = w # us" by (auto simp: in_set_conv_nth)
  with w(2) show ?thesis by (intro that)
qed

section \<open>The holder releases the lock\<close>

text \<open>Steps of the lock's holder alone, which leave all other goroutines as they are.\<close>

definition releases :: "config \<Rightarrow> nat \<Rightarrow> session \<Rightarrow> bool" where
  "releases c j s \<longleftrightarrow> (\<exists>ls s'. trace (step c) s ls s' \<and> (\<forall>l \<in> set ls. \<exists>w. l = Ran w \<and> writing w) \<and> \<not> sinkWrite s' \<and>
     length (gos s') = length (gos s) \<and> (\<forall>k. k \<noteq> j \<longrightarrow> gos s' ! k = gos s ! k))"

lemma releases_step:
  assumes "j < length (gos s)" "gos s ! j = w # us" "writing w" "exec c w s = Some (Inr (ts', s1))" "gos s1 = gos s"
    "releases c j (s1\<lparr>gos := (gos s)[j := ts' @ us]\<rparr>)"
  shows "releases c j s"
proof -
  have "step c s (Ran w) (s1\<lparr>gos := (gos s)[j := ts' @ us]\<rparr>)" using step.run [OF assms(1,2,4)] assms(5) by simp
  moreover from assms(6) obtain ls s' where s': "trace (step c) (s1\<lparr>gos := (gos s)[j := ts' @ us]\<rparr>) ls s'"
    "\<forall>l \<in> set ls. \<exists>w. l = Ran w \<and> writing w" "\<not> sinkWrite s'" "length (gos s') = length (gos s)"
    "\<forall>k. k \<noteq> j \<longrightarrow> gos s' ! k = gos s ! k" by (auto simp: releases_def)
  ultimately have "trace (step c) s (Ran w # ls) s'" by (intro trace_Cons)
  with s' assms(3) show ?thesis unfolding releases_def by (intro exI [of _ "Ran w # ls"] exI [of _ s']) auto
qed

lemma released: "\<not> sinkWrite s \<Longrightarrow> releases c j s"
  unfolding releases_def using trace_Nil by fastforce

lemma releases_next:
  "j < length (gos s) \<Longrightarrow> gos s ! j = WriteNext sk fs # us \<Longrightarrow> releases c j s"
proof (induction fs arbitrary: s)
  case Nil
  show ?case by (rule releases_step [OF Nil, of c "[]" "s\<lparr>sinkWrite := False\<rparr>"]) (auto simp: writing_def intro: released)
next
  case (Cons f fs)
  show ?case
  proof (cases "sink s = Some sk")
    case False
    then show ?thesis
      by (intro releases_step [OF Cons.prems, of c "[]" "s\<lparr>sinkWrite := False\<rparr>"]) (auto simp: writing_def intro: released)
  next
    case True
    let ?s = "s\<lparr>gos := (gos s)[j := WriteSend sk f fs # us]\<rparr>" and ?r = "answer c (length (out s))"
    have j: "j < length (gos ?s)" "gos ?s ! j = WriteSend sk f fs # us" using Cons.prems by simp_all
    have "releases c j ?s"
    proof (cases "?r = Fail")
      case fail: True
      then show ?thesis
        by (intro releases_step [OF j, of c "[]" "?s\<lparr>out := out s @ [OWrite sk f], sinkWrite := False\<rparr>"])
          (auto simp: writing_def io_def Let_def intro: released)
    next
      case ok: False
      then show ?thesis
        by (intro releases_step [OF j, of c "[WriteNext sk fs]" "?s\<lparr>out := out s @ [OWrite sk f]\<rparr>"])
          (use Cons.prems in \<open>auto simp: writing_def io_def Let_def intro: Cons.IH\<close>)
    qed
    with True show ?thesis
      by (intro releases_step [OF Cons.prems, of c "[WriteSend sk f fs]" s]) (auto simp: writing_def)
  qed
qed

lemma holder_releases:
  assumes "j < length (gos s)" "gos s ! j = w # us" "writing w"
  shows "releases c j s"
proof -
  consider sk fs where "w = WriteNext sk fs" | sk f fs where "w = WriteSend sk f fs"
    using assms(3) by (auto simp: writing_def split: task.splits)
  then show ?thesis
  proof cases
    case 1
    with assms show ?thesis by (auto intro: releases_next)
  next
    case (2 sk f fs)
    let ?s = "s\<lparr>out := out s @ [OWrite sk f]\<rparr>"
    show ?thesis
    proof (cases "answer c (length (out s)) = Fail")
      case True
      with 2 show ?thesis
        by (intro releases_step [OF assms, of c "[]" "?s\<lparr>sinkWrite := False\<rparr>"]) (auto simp: io_def Let_def intro: released)
    next
      case False
      with 2 assms(1) show ?thesis
        by (intro releases_step [OF assms, of c "[WriteNext sk fs]" ?s]) (auto simp: io_def Let_def intro: releases_next)
    qed
  qed
qed

text \<open>A region waits only for the lock, or for the actor.\<close>

lemma exec_waits: "exec c t s = None \<Longrightarrow> (\<exists>sk fs. t = WriteToSink sk fs \<and> sinkWrite s) \<or> (\<exists>sk. t = ServeSocket sk)"
  by (cases t) (auto split: if_splits)

lemma waiting_runs:
  assumes "head_inv s" "lock_inv s" "i < length (gos s)" "gos s ! i = WriteToSink sk fs # ts" "sinkWrite s"
  shows "\<exists>ls s' s''. trace (step c) s ls s' \<and> (\<forall>l \<in> set ls. \<exists>w. l = Ran w \<and> writing w) \<and>
    gos s' ! i = WriteToSink sk fs # ts \<and> step c s' (Ran (WriteToSink sk fs)) s''"
proof -
  obtain j w us where j: "j < length (gos s)" "gos s ! j = w # us" "writing w" by (rule lock_holder [OF assms(1,2,5)])
  with assms(4) have "j \<noteq> i" by (auto simp: writing_def)
  with holder_releases [OF j, of c] assms(3,4) obtain ls s' where s': "trace (step c) s ls s'"
    "\<forall>l \<in> set ls. \<exists>w. l = Ran w \<and> writing w" "\<not> sinkWrite s'" "i < length (gos s')" "gos s' ! i = WriteToSink sk fs # ts"
    unfolding releases_def by metis
  from s'(3) have "exec c (WriteToSink sk fs) s' = Some (Inr ([WriteNext sk fs], s'\<lparr>sinkWrite := True\<rparr>))" by simp
  from step.run [OF s'(4,5) this] s' show ?thesis by blast
qed

end
