(* ===== verification/SentFrames.thy ===== *)
theory SentFrames
  imports SessionRun
begin

text \<open>
  What the actor is sent, over a whole run: the ids of the event frames are never used twice, as long
  as the random source does not repeat itself, and on each connection the hello frame comes before any
  event.
\<close>

section \<open>Frames and ids\<close>

text \<open>The envelope id the receiver reads from a frame.\<close>

definition frame_id :: "bytes \<Rightarrow> bytes" where
  "frame_id f = (case DecodeEnvelope f of Inl _ \<Rightarrow> [] | Inr e \<Rightarrow> EnvelopeID e)"

definition to_sink :: "task \<Rightarrow> (sink_id \<times> bytes list) option" where
  [wire_simps]:
  "to_sink t = (case t of WriteToSink sk fs \<Rightarrow> Some (sk, fs) | WriteNext sk fs \<Rightarrow> Some (sk, fs)
     | WriteSend sk f fs \<Rightarrow> Some (sk, f # fs) | _ \<Rightarrow> None)"

definition frames_of :: "task \<Rightarrow> bytes list" where
  [wire_simps]:
  "frames_of t = (case to_sink t of None \<Rightarrow> [] | Some p \<Rightarrow> snd p)"

definition written :: "action list \<Rightarrow> bytes list" where
  "written os = concat (map (\<lambda>a. case a of OWrite sk f \<Rightarrow> [f] | _ \<Rightarrow> []) os)"

definition written_to :: "sink_id \<Rightarrow> action list \<Rightarrow> bytes list" where
  "written_to sk os = concat (map (\<lambda>a. case a of OWrite sk' f \<Rightarrow> (if sk' = sk then [f] else []) | _ \<Rightarrow> []) os)"

lemma written_append [simp]: "written (os @ os') = written os @ written os'"
  by (simp add: written_def)

lemma written_to_append [simp]: "written_to sk (os @ os') = written_to sk os @ written_to sk os'"
  by (simp add: written_to_def)

lemma randID_nonempty: "randID src k \<noteq> []"
  using hex_EncodeToString_length [of "rand_Read src k 12"] by (auto simp: randID_def rand_Read_def)

lemma frame_id_hello [simp]: "frame_id helloFrame = []"
  by code_simp

lemma frame_id_rewrite:
  assumes "is_event_raw raw" "rewriteEnvelopeID raw (randID src k) = Inr f"
  shows "frame_id f = randID src k"
proof -
  obtain f' e where "rewriteEnvelopeID raw (randID src k) = Inr f'" "DecodeEnvelope f' = Inr e" "EnvelopeID e = randID src k"
    by (rule rewrite_event [OF assms(1)])
  with assms(2) show ?thesis by (simp add: frame_id_def)
qed

lemma frame_id_frames_for:
  "frames_for src k es fs \<Longrightarrow> \<forall>e \<in> set es. is_event_raw (event_raw e) \<Longrightarrow> map frame_id fs = map (randID src) [k..<k + length es]"
proof (induction src k es fs rule: frames_for.induct)
  case (2 src k e es fs)
  then obtain f fs' where fs: "fs = f # fs'" "rewriteEnvelopeID (event_raw e) (randID src k) = Inr f" "frames_for src (Suc k) es fs'"
    by (auto split: list.splits)
  have "[k..<k + length (e # es)] = k # [Suc k..<Suc k + length es]" by (simp add: upt_conv_Cons del: upt_Suc)
  with 2 fs frame_id_rewrite [OF _ fs(2)] show ?case by (simp del: upt_Suc)
qed simp

section \<open>No id is sent twice\<close>

text \<open>The event ids among some frames, and the frames that were written or are about to be.\<close>

definition event_ids :: "bytes multiset \<Rightarrow> bytes multiset" where
  "event_ids F = filter_mset (\<lambda>i. i \<noteq> []) (image_mset frame_id F)"

definition on_the_way :: "task multiset \<Rightarrow> bytes multiset" where
  "on_the_way T = sum_mset (image_mset (\<lambda>t. mset (frames_of t)) T)"

definition drawn :: "config \<Rightarrow> nat \<Rightarrow> nat \<Rightarrow> bytes multiset" where
  "drawn c i j = mset (map (randID (rand_src c)) [i..<j])"

lemma event_ids_union [simp]: "event_ids (F + G) = event_ids F + event_ids G" "event_ids {#} = {#}"
  by (simp_all add: event_ids_def)

lemma on_the_way_union [simp]: "on_the_way (T + U) = on_the_way T + on_the_way U" "on_the_way {#} = {#}"
  by (simp_all add: on_the_way_def)

lemma on_the_way_add [simp]: "on_the_way (add_mset t T) = mset (frames_of t) + on_the_way T"
  by (simp add: on_the_way_def)

definition used_inv :: "config \<Rightarrow> session \<Rightarrow> bool" where
  "used_inv c s \<longleftrightarrow> event_ids (mset (written (out s)) + on_the_way (tasks s)) \<subseteq># drawn c 0 (draws s)"

text \<open>A region sends and queues what it had queued, a hello frame, or frames with newly drawn ids.\<close>

definition accounts :: "config \<Rightarrow> task \<Rightarrow> task list \<Rightarrow> session \<Rightarrow> session \<Rightarrow> bool" where
  "accounts c t ts' s s' \<longleftrightarrow> draws s \<le> draws s' \<and> (\<exists>os. out s' = out s @ os \<and>
     event_ids (mset (written os) + on_the_way (mset ts')) \<subseteq># event_ids (mset (frames_of t)) + drawn c (draws s) (draws s'))"

lemma accounts_nothing:
  "draws s' = draws s \<Longrightarrow> out s' = out s @ os \<Longrightarrow> written os = [] \<Longrightarrow> (\<And>u. u \<in> set ts' \<Longrightarrow> frames_of u = []) \<Longrightarrow> accounts c t ts' s s'"
proof -
  assume a: "draws s' = draws s" "out s' = out s @ os" "written os = []" and f: "\<And>u. u \<in> set ts' \<Longrightarrow> frames_of u = []"
  have "on_the_way (mset ts') = {#}" using f by (induction ts') simp_all
  with a show ?thesis by (auto simp: accounts_def)
qed

lemma accounts_OnEvent:
  assumes "exec c (OnEvent raw) s = Some (Inr (ts', s'))" "is_event_raw raw"
  shows "accounts c (OnEvent raw) ts' s s'"
proof (cases "\<exists>sk. sink s = Some sk \<and> settled s")
  case True
  then obtain sk where sk: "sink s = Some sk" "settled s" by blast
  obtain f e where f: "rewriteEnvelopeID raw (randID (rand_src c) (draws s)) = Inr f" by (rule rewrite_event [OF assms(2)])
  with assms(1) sk have "ts' = [WriteToSink sk [f], NoteActivity]" "out s' = out s" "draws s' = Suc (draws s)"
    by (auto simp: onEvent_locked_result plan_tasks_def plan_go_def)
  then show ?thesis
    by (simp add: accounts_def wire_simps event_ids_def drawn_def written_def frame_id_rewrite [OF assms(2) f] randID_nonempty)
next
  case False
  with assms(1) show ?thesis
    by (intro accounts_nothing [of _ _ "[]"])
      (auto simp: onEvent_locked_result plan_tasks_def plan_go_def go_def written_def wire_simps split: option.splits if_splits)
qed

lemma accounts_DeliverBuffered:
  assumes "exec c (DeliverBuffered sk) s = Some (Inr (ts', s'))" "\<forall>e \<in> set (buffer s). is_event_raw (event_raw e)"
  shows "accounts c (DeliverBuffered sk) ts' s s'"
proof (cases "sink s = Some sk \<and> \<not> settled s")
  case True
  then obtain fs where fs: "deliver_locked c sk s = Inr (Some fs, stamp_state c (buffer s) (stop_deliver (s\<lparr>settled := True\<rparr>)))"
    "frames_for (rand_src c) (draws s) (buffer s) fs" using deliver_locked_fresh assms(2) by metis
  have "filter_mset (\<lambda>i. i \<noteq> []) (mset (map frame_id fs)) = mset (map frame_id fs)"
    unfolding frame_id_frames_for [OF fs(2) assms(2)] by (simp add: filter_mset_eq_conv randID_nonempty)
  moreover have "mset (map frame_id fs) = drawn c (draws s) (draws s + length (buffer s))"
    unfolding drawn_def frame_id_frames_for [OF fs(2) assms(2)] ..
  ultimately show ?thesis using assms(1) fs(1)
    by (auto simp: accounts_def wire_simps event_ids_def written_def)
next
  case False
  with assms(1) show ?thesis
    by (intro accounts_nothing [of _ _ "[]"]) (auto simp: deliver_locked_def written_def)
qed

lemma exec_sends_nothing:
  assumes "exec c t s = Some (Inr (ts', s'))" "frames_of t = []" "\<And>raw. t \<noteq> OnEvent raw" "\<And>sk. t \<noteq> DeliverBuffered sk"
    "\<And>sk. t \<noteq> AttachSink sk" "t \<noteq> ReadFrame"
  shows "draws s' = draws s \<and> (\<exists>os. out s' = out s @ os \<and> written os = []) \<and> (\<forall>u \<in> set ts'. frames_of u = [])"
  using assms
  by (cases t) (auto simp: exec_defs written_def wire_simps split: if_splits option.splits)

lemma exec_accounts:
  assumes "exec c t s = Some (Inr (ts', s'))" "good_task t" "\<forall>e \<in> set (buffer s). is_event_raw (event_raw e)"
  shows "accounts c t ts' s s'"
proof -
  have read: "frames_of u = []" if "u \<in> set (read_tasks rp)" for u rp
    using that by (auto simp: read_tasks_def wire_simps split: reply.splits sum.splits if_splits)
  show ?thesis
  proof (cases t)
    case (OnEvent raw)
    with assms show ?thesis by (auto simp: good_task_def intro: accounts_OnEvent)
  next
    case (DeliverBuffered sk)
    with assms show ?thesis by (auto intro: accounts_DeliverBuffered)
  next
    case (WriteToSink sk fs)
    with assms(1) show ?thesis by (auto simp: accounts_def drawn_def written_def wire_simps split: if_splits)
  next
    case (WriteNext sk fs)
    with assms(1) show ?thesis by (auto simp: accounts_def drawn_def written_def wire_simps split: if_splits list.splits)
  next
    case (WriteSend sk f fs)
    with assms(1) show ?thesis
      by (auto simp: accounts_def drawn_def written_def wire_simps io_def Let_def event_ids_def split: if_splits)
  next
    case (AttachSink sk)
    with assms(1) show ?thesis
      by (auto simp: accounts_def drawn_def written_def wire_simps attach_locked_def Let_def event_ids_def)
  next
    case ReadFrame
    with assms(1) read show ?thesis
      by (intro accounts_nothing [of _ _ "[ORead]"]) (auto simp: io_def Let_def written_def)
  qed (use exec_sends_nothing [OF assms(1)] in \<open>auto simp: wire_simps intro: accounts_nothing\<close>)
qed

lemma drawn_split: "i \<le> j \<Longrightarrow> j \<le> k \<Longrightarrow> drawn c i k = drawn c i j + drawn c j k"
  using upt_add_eq_append [of i j "k - j"] by (simp add: drawn_def)

lemma exec_used_inv:
  assumes "used_inv c s" "accounts c t ts' s s'" "tasks s = add_mset t T" "on_the_way (tasks s'') = on_the_way T + on_the_way (mset ts')"
    "out s'' = out s'" "draws s'' = draws s'"
  shows "used_inv c s''"
proof -
  from assms(2) obtain os where os: "draws s \<le> draws s'" "out s' = out s @ os"
    "event_ids (mset (written os) + on_the_way (mset ts')) \<subseteq># event_ids (mset (frames_of t)) + drawn c (draws s) (draws s')"
    unfolding accounts_def by blast
  let ?rest = "event_ids (mset (written (out s))) + event_ids (on_the_way T)"
  have "event_ids (mset (written (out s'')) + on_the_way (tasks s'')) =
      ?rest + event_ids (mset (written os) + on_the_way (mset ts'))"
    using assms(4,5) os(2) by (simp add: ac_simps)
  also have "\<dots> \<subseteq># ?rest + (event_ids (mset (frames_of t)) + drawn c (draws s) (draws s'))"
    by (rule mset_subset_eq_mono_add [OF subset_mset.order_refl os(3)])
  also have "\<dots> = event_ids (mset (written (out s)) + on_the_way (tasks s)) + drawn c (draws s) (draws s')"
    using assms(3) by (simp add: ac_simps)
  also have "\<dots> \<subseteq># drawn c 0 (draws s) + drawn c (draws s) (draws s')"
    using assms(1) by (simp add: used_inv_def)
  also have "\<dots> = drawn c 0 (draws s')" by (rule drawn_split [symmetric]) (use os(1) in simp_all)
  finally show ?thesis using assms(6) by (simp add: used_inv_def)
qed

lemma new_tasks_silent:
  assumes "exec c t s = Some (Inr (ts', s'))"
  shows "on_the_way (tasks s') = on_the_way (tasks s)"
  using exec_gos [OF assms] by (auto simp: tasks_def wire_simps)

lemma on_the_way_remove:
  assumes "on_the_way U = on_the_way (add_mset t T)" "t \<in># U"
  shows "on_the_way (U - {#t#}) = on_the_way T"
proof -
  obtain V where "U = add_mset t V" using assms(2) by (metis insert_DiffM)
  with assms(1) show ?thesis by simp
qed

lemma on_the_way_silent: "frames_of t = [] \<Longrightarrow> on_the_way (T - {#t#}) = on_the_way T"
  by (cases "t \<in># T") (auto dest!: multi_member_split)

lemma step_used_inv:
  assumes "step c s l s'" "used_inv c s \<and> events_inv s"
  shows "used_inv c s' \<and> events_inv s'"
proof
  show "events_inv s'" using step_events_inv assms by blast
  from assms(1) show "used_inv c s'"
  proof (cases rule: step_cases)
    case (ran t ts' s1 g)
    then have acc: "accounts c t ts' s s1" using assms(2) by (intro exec_accounts) (auto simp: events_inv_def)
    obtain T where T: "tasks s = add_mset t T" using ran(2) by (metis insert_DiffM)
    have "on_the_way (tasks s1 - {#t#}) = on_the_way T"
      using new_tasks_silent [OF ran(3)] T ran(6) by (intro on_the_way_remove) simp_all
    then have "on_the_way (tasks s') = on_the_way T + on_the_way (mset ts')" unfolding ran(5) by simp
    from exec_used_inv [OF _ acc T this] assms(2) ran(4) show ?thesis by simp
  next
    case (fired i fn)
    have "frames_of (callback fn) = []" by (simp add: callback_def wire_simps split: timer_fn.split)
    with fired assms(2) show ?thesis by (simp add: used_inv_def go_def Stop_def)
  next
    case (called n g new sk)
    have "on_the_way (mset new) = {#}"
      using called(5) by (induction new) (auto simp: wire_simps)
    moreover have "on_the_way (tasks s - {#ServeSocket sk#}) = on_the_way (tasks s)"
      by (rule on_the_way_silent) (simp add: wire_simps)
    ultimately have "on_the_way (tasks s') = on_the_way (tasks s)" using called(4) by auto
    with called(2) assms(2) show ?thesis by (simp add: used_inv_def)
  qed
qed

interpretation used: state_invariant "step c" "new_session r" "\<lambda>s. used_inv c s \<and> events_inv s" for c r
  by unfold_locales
    (use events_inv_new step_used_inv in \<open>auto simp: used_inv_def new_session_def written_def tasks_def drawn_def\<close>)

lemma distinct_submset:
  assumes "mset xs \<subseteq># mset ys" "distinct ys"
  shows "distinct xs"
proof -
  have "count (mset xs) a \<le> 1" for a
  proof -
    have "count (mset ys) a \<le> 1" using assms(2) by (simp add: distinct_count_atmost_1)
    with mset_subset_eq_count [OF assms(1)] show ?thesis by (rule order_trans)
  qed
  moreover have "count (mset xs) a \<ge> 1" if "a \<in> set xs" for a using that by simp
  ultimately show ?thesis by (auto simp: distinct_count_atmost_1 count_mset_0_iff intro: order.antisym)
qed

lemma sent_ids_drawn: "used_inv c s \<Longrightarrow> mset (filter (\<lambda>i. i \<noteq> []) (map frame_id (written (out s)))) \<subseteq># drawn c 0 (draws s)"
  by (simp add: used_inv_def event_ids_def flip: mset_filter mset_map) (meson mset_subset_eq_add_left subset_mset.order_trans)

lemma sent_ids_distinct:
  assumes "used_inv c s" "inj_on (\<lambda>k. rand_Read (rand_src c) k 12) {..<draws s}"
  shows "distinct (filter (\<lambda>i. i \<noteq> []) (map frame_id (written (out s))))"
proof (rule distinct_submset [OF sent_ids_drawn [OF assms(1), unfolded drawn_def]])
  have "inj_on (randID (rand_src c)) (set [0..<draws s])"
    using assms(2) by (auto simp: inj_on_def randID_inject)
  then show "distinct (map (randID (rand_src c)) [0..<draws s])" by (simp add: distinct_map)
qed

lemma sent_id_drawn:
  assumes "used_inv c s" "f \<in> set (written (out s))" "frame_id f \<noteq> []"
  shows "\<exists>k < draws s. frame_id f = randID (rand_src c) k"
proof -
  have "frame_id f \<in># mset (filter (\<lambda>i. i \<noteq> []) (map frame_id (written (out s))))" using assms(2,3) by simp
  from mset_subset_eqD [OF sent_ids_drawn [OF assms(1)] this] show ?thesis by (auto simp: drawn_def)
qed

lemma written_to_written: "set (written_to sk os) \<subseteq> set (written os)"
  by (auto simp: written_to_def written_def split: action.splits if_splits)

end
