(* ===== verification/HelloFirst.thy ===== *)
theory HelloFirst
  imports SentFrames
begin

text \<open>
  The order of the frames on a connection. The goroutine of a connection attaches it, writes the hello
  frame, and only then reads from it or arms the fallback timer; events go to a connection only after
  one of these has settled it. So whatever else runs, hello comes first.
\<close>

section \<open>The goroutine of a connection\<close>

definition held :: "sink_id \<Rightarrow> task \<Rightarrow> bool" where
  [wire_simps]:
  "held sk t \<longleftrightarrow> (\<exists>d n. t = AttachHeld sk d n)"

text \<open>The task that still has to attach the connection or to send its hello frame.\<close>

definition opener :: "sink_id \<Rightarrow> task \<Rightarrow> bool" where
  [wire_simps]:
  "opener sk t \<longleftrightarrow> t = AttachSink sk \<or> (\<exists>fs. to_sink t = Some (sk, fs) \<and> helloFrame \<in> set fs)"

fun wf_conn :: "task list \<Rightarrow> bool" where
  "wf_conn [] \<longleftrightarrow> True"
| "wf_conn (t # ts) \<longleftrightarrow> (\<forall>sk. opener sk t \<or> held sk t \<longrightarrow> ServeSocket sk \<in> set ts) \<and>
     (\<forall>u \<in> set ts. \<forall>sk. \<not> opener sk u) \<and> ((\<exists>sk. t = ServeSocket sk) \<longrightarrow> (\<forall>u \<in> set ts. \<forall>sk. \<not> held sk u)) \<and> wf_conn ts"

definition plain :: "task \<Rightarrow> bool" where
  "plain t \<longleftrightarrow> (\<forall>sk. \<not> opener sk t \<and> \<not> held sk t \<and> t \<noteq> ServeSocket sk)"

lemma wf_conn_append:
  "wf_conn ts \<Longrightarrow> \<forall>u \<in> set ts. \<forall>sk. \<not> opener sk u \<Longrightarrow> \<forall>u \<in> set us. plain u \<Longrightarrow> wf_conn (us @ ts)"
  by (induction us) (auto simp: plain_def)

lemma wf_conn_opener: "wf_conn g \<Longrightarrow> t \<in> set g \<Longrightarrow> opener sk t \<Longrightarrow> ServeSocket sk \<in> set g \<and> t = hd g"
  by (cases g) auto

lemma event_not_hello: "frame_id f \<noteq> [] \<Longrightarrow> f \<noteq> helloFrame"
  by auto

text \<open>What the goroutine goes on with after a region.\<close>

lemma exec_continues:
  assumes "exec c t s = Some (Inr (ts', s'))" "good_task t" "\<forall>e \<in> set (buffer s). is_event_raw (event_raw e)"
  shows "(\<exists>sk d n. t = AttachSink sk \<and> ts' = [WriteToSink sk [helloFrame], AttachHeld sk d n]) \<or>
    (\<exists>sk fs. to_sink t = Some (sk, fs) \<and> (ts' = [] \<or> (\<exists>u fs'. ts' = [u] \<and> to_sink u = Some (sk, fs') \<and> set fs' \<subseteq> set fs))) \<or>
    (\<forall>u \<in> set ts'. plain u \<and> (\<forall>f \<in> set (frames_of u). frame_id f \<noteq> []))"
proof (cases t)
  case (OnEvent raw)
  have "frame_id f \<noteq> []" if "rewriteEnvelopeID raw (randID (rand_src c) (draws s)) = Inr f" for f
    using assms(2) OnEvent that by (simp add: good_task_def frame_id_rewrite randID_nonempty)
  then show ?thesis using assms(1) OnEvent event_not_hello
    by (auto simp: onEvent_locked_result plan_tasks_def plain_def wire_simps split: option.splits if_splits sum.splits)
next
  case (DeliverBuffered sk)
  show ?thesis
  proof (cases "sink s = Some sk \<and> \<not> settled s")
    case True
    then obtain fs where fs: "deliver_locked c sk s = Inr (Some fs, stamp_state c (buffer s) (stop_deliver (s\<lparr>settled := True\<rparr>)))"
      "frames_for (rand_src c) (draws s) (buffer s) fs" using deliver_locked_fresh assms(3) by metis
    have "frame_id f \<noteq> []" if "f \<in> set fs" for f
    proof -
      have "frame_id f \<in> set (map frame_id fs)" using that by simp
      then obtain k where "frame_id f = randID (rand_src c) k" unfolding frame_id_frames_for [OF fs(2) assms(3)] by (auto simp only: set_map)
      then show ?thesis by (simp add: randID_nonempty)
    qed
    moreover from this have "helloFrame \<notin> set fs" by force
    ultimately show ?thesis using assms(1) DeliverBuffered fs(1)
      by (auto simp: plain_def wire_simps)
  next
    case False
    with assms(1) DeliverBuffered show ?thesis by (auto simp: deliver_locked_def)
  qed
next
  case ReadFrame
  have "plain u \<and> frames_of u = []" if "u \<in> set (read_tasks rp)" for u rp
    using that by (auto simp: read_tasks_def plain_def wire_simps split: reply.splits sum.splits if_splits)
  with assms(1) ReadFrame show ?thesis by (auto simp: Let_def)
qed (use assms(1) in \<open>auto simp: plain_def wire_simps Let_def split: if_splits option.splits list.splits\<close>)

lemma write_no_conn: "to_sink u = Some p \<Longrightarrow> \<not> held sk u \<and> u \<noteq> ServeSocket sk"
  by (auto simp: wire_simps split: task.splits)

lemma wf_conn_exec:
  assumes "exec c t s = Some (Inr (ts', s'))" "good_task t" "\<forall>e \<in> set (buffer s). is_event_raw (event_raw e)" "wf_conn (t # ts)"
  shows "wf_conn (ts' @ ts)"
  using exec_continues [OF assms(1-3)]
proof (elim disjE exE conjE)
  fix sk d n assume "t = AttachSink sk" "ts' = [WriteToSink sk [helloFrame], AttachHeld sk d n]"
  moreover from this assms(4) have "ServeSocket sk \<in> set ts" by (auto simp: opener_def)
  ultimately show ?thesis using assms(4) by (auto simp: wire_simps)
next
  fix sk fs u fs' assume "to_sink t = Some (sk, fs)" "ts' = [u]" "to_sink u = Some (sk, fs')" "set fs' \<subseteq> set fs"
  moreover from this have "opener k t" if "opener k u" for k using that by (auto simp: wire_simps)
  ultimately show ?thesis using assms(4) write_no_conn [of u] by auto
qed (use assms(4) in \<open>auto intro: wf_conn_append\<close>)

section \<open>Connections have one goroutine\<close>

definition unique_conn :: "task list list \<Rightarrow> bool" where
  "unique_conn gs \<longleftrightarrow> (\<forall>i j sk. i < length gs \<and> j < length gs \<and> ServeSocket sk \<in> set (gs ! i) \<and> ServeSocket sk \<in> set (gs ! j) \<longrightarrow> i = j)"

lemma unique_conn_update:
  assumes "unique_conn gs" "i < length gs" "\<And>sk. ServeSocket sk \<in> set g \<Longrightarrow> ServeSocket sk \<in> set (gs ! i)"
  shows "unique_conn (gs[i := g])"
  using assms unfolding unique_conn_def by (auto simp: nth_list_update split: if_splits)

lemma unique_conn_append:
  assumes "unique_conn gs" "\<And>sk h. ServeSocket sk \<in> set g \<Longrightarrow> h \<in> set gs \<Longrightarrow> ServeSocket sk \<notin> set h"
  shows "unique_conn (gs @ [g])"
proof -
  have "i = j" if "i < length (gs @ [g])" "j < length (gs @ [g])" "ServeSocket sk \<in> set ((gs @ [g]) ! i)" "ServeSocket sk \<in> set ((gs @ [g]) ! j)"
    for i j sk
    using assms(1,2) that nth_mem [of i gs] nth_mem [of j gs]
    by (cases "i < length gs"; cases "j < length gs") (auto simp: nth_append unique_conn_def less_Suc_eq)
  then show ?thesis unfolding unique_conn_def by blast
qed

text \<open>A goroutine in order: connections are greeted first, they were handed out, and what is queued is hello or an event.\<close>

definition good_conn :: "nat \<Rightarrow> task list \<Rightarrow> bool" where
  "good_conn n g \<longleftrightarrow> wf_conn g \<and> (\<forall>sk. ServeSocket sk \<in> set g \<longrightarrow> sk < n) \<and>
     (\<forall>t \<in> set g. \<forall>f \<in> set (frames_of t). f = helloFrame \<or> frame_id f \<noteq> [])"

definition conn_inv :: "session \<Rightarrow> bool" where
  "conn_inv s \<longleftrightarrow> unique_conn (gos s) \<and> (\<forall>g \<in> set (gos s). good_conn (nextSink s) g)"

lemma conn_inv_nth: "conn_inv s \<Longrightarrow> i < length (gos s) \<Longrightarrow> good_conn (nextSink s) (gos s ! i)"
  by (simp add: conn_inv_def)

text \<open>While a connection's goroutine is past the greeting, no task opens the connection.\<close>

lemma no_opener:
  assumes "conn_inv s" "i < length (gos s)" "ServeSocket sk \<in> set (gos s ! i)" "t \<in> set (concat (gos s))" "opener sk t"
  shows "t = hd (gos s ! i)"
proof -
  from assms(4) obtain g where g: "g \<in> set (gos s)" "t \<in> set g" by auto
  then obtain j where j: "j < length (gos s)" "t \<in> set (gos s ! j)" by (metis in_set_conv_nth)
  have "wf_conn (gos s ! j)" using conn_inv_nth [OF assms(1) j(1)] by (simp add: good_conn_def)
  with j assms(5) have t: "ServeSocket sk \<in> set (gos s ! j)" "t = hd (gos s ! j)" using wf_conn_opener by blast+
  with assms(1-3) j(1) have "i = j" by (auto simp: conn_inv_def unique_conn_def)
  with t show ?thesis by simp
qed

lemma conn_inv_update:
  assumes "conn_inv s" "i < length (gos s)" "\<And>sk. ServeSocket sk \<in> set g \<Longrightarrow> ServeSocket sk \<in> set (gos s ! i)" "wf_conn g"
    "\<And>t f. t \<in> set g \<Longrightarrow> f \<in> set (frames_of t) \<Longrightarrow> f = helloFrame \<or> frame_id f \<noteq> []" "gos s' = (gos s)[i := g]" "nextSink s' = nextSink s"
  shows "conn_inv s'"
proof -
  have "good_conn (nextSink s) g"
    using conn_inv_nth [OF assms(1,2)] assms(3-5) by (auto simp: good_conn_def)
  then have "good_conn (nextSink s) h" if "h \<in> set ((gos s)[i := g])" for h
    using set_update_subset_insert [of "gos s" i g] that assms(1) by (auto simp: conn_inv_def)
  moreover have "unique_conn ((gos s)[i := g])" using assms(1) by (intro unique_conn_update assms(2,3)) (simp add: conn_inv_def)
  ultimately show ?thesis unfolding conn_inv_def assms(6,7) by blast
qed

lemma good_conn_mono: "good_conn n g \<Longrightarrow> n \<le> m \<Longrightarrow> good_conn m g"
  by (auto simp: good_conn_def)

lemma conn_inv_append:
  assumes "conn_inv s" "gos s' = gos s @ [g]" "nextSink s \<le> nextSink s'" "wf_conn g" "\<And>t. t \<in> set g \<Longrightarrow> frames_of t = []"
    "\<And>sk. ServeSocket sk \<in> set g \<Longrightarrow> nextSink s \<le> sk \<and> sk < nextSink s'"
  shows "conn_inv s'"
proof -
  have "ServeSocket sk \<notin> set h" if "ServeSocket sk \<in> set g" "h \<in> set (gos s)" for sk h
  proof
    assume "ServeSocket sk \<in> set h"
    moreover have "good_conn (nextSink s) h" using assms(1) that(2) by (simp add: conn_inv_def)
    ultimately show False using assms(6) [OF that(1)] unfolding good_conn_def by force
  qed
  then have "unique_conn (gos s @ [g])" using assms(1) by (intro unique_conn_append) (simp_all add: conn_inv_def)
  moreover have "good_conn (nextSink s') g" using assms(4-6) by (auto simp: good_conn_def)
  moreover have "good_conn (nextSink s') h" if "h \<in> set (gos s)" for h
    using assms(1,3) that by (auto simp: conn_inv_def intro: good_conn_mono)
  ultimately show ?thesis by (auto simp: conn_inv_def assms(2))
qed

lemma exec_no_serve: "exec c t s = Some (Inr (ts', s')) \<Longrightarrow> ServeSocket sk \<notin> set ts'"
  by (cases t) (auto simp: plan_tasks_def read_tasks_def Let_def
      split: if_splits option.splits sum.splits list.splits event_plan.splits reply.splits)

lemma exec_frames:
  assumes "exec c t s = Some (Inr (ts', s'))" "good_task t" "\<forall>e \<in> set (buffer s). is_event_raw (event_raw e)" "u \<in> set ts'" "f \<in> set (frames_of u)"
  shows "f = helloFrame \<or> frame_id f \<noteq> [] \<or> f \<in> set (frames_of t)"
  using exec_continues [OF assms(1-3)]
proof (elim disjE exE conjE)
  fix sk d n assume "ts' = [WriteToSink sk [helloFrame], AttachHeld sk d n]"
  with assms(4,5) show ?thesis by (auto simp: wire_simps)
next
  fix sk fs v fs' assume "to_sink t = Some (sk, fs)" "ts' = [v]" "to_sink v = Some (sk, fs')" "set fs' \<subseteq> set fs"
  with assms(4,5) show ?thesis by (auto simp: frames_of_def)
qed (use assms(4,5) in auto)

lemma conn_inv_run:
  assumes "conn_inv s" "events_inv s" "i < length (gos s)" "gos s ! i = t # ts" "exec c t s = Some (Inr (ts', s1))"
  shows "conn_inv (s1\<lparr>gos := (gos s1)[i := ts' @ ts]\<rparr>)"
proof -
  have g: "t # ts \<in> set (gos s)" using assms(3,4) nth_mem by metis
  then have t: "good_task t" "\<forall>e \<in> set (buffer s). is_event_raw (event_raw e)"
    using assms(2) by (auto simp: events_inv_def tasks_def)
  have wf: "wf_conn (t # ts)" "\<forall>u \<in> set (t # ts). \<forall>f \<in> set (frames_of u). f = helloFrame \<or> frame_id f \<noteq> []"
    using conn_inv_nth [OF assms(1,3)] unfolding assms(4) good_conn_def by blast+
  have frames: "f = helloFrame \<or> frame_id f \<noteq> []" if "u \<in> set (ts' @ ts)" "f \<in> set (frames_of u)" for u f
    using exec_frames [OF assms(5) t, of u f] that wf(2) unfolding set_append list.set by blast
  have upd: "conn_inv (s\<lparr>gos := (gos s)[i := ts' @ ts]\<rparr>)"
    by (rule conn_inv_update [OF assms(1,3)])
      (use wf_conn_exec [OF assms(5) t wf(1)] exec_no_serve [OF assms(5)] frames assms(4) in auto)
  note next_sink = exec_nextSink [OF assms(5)]
  from exec_gos [OF assms(5)] show ?thesis
  proof (elim disjE exE conjE)
    assume "gos s1 = gos s"
    with upd next_sink show ?thesis by (simp add: conn_inv_def)
  next
    assume "gos s1 = gos s @ [[ResumeActor_call]]"
    with next_sink assms(3) show ?thesis
      by (intro conn_inv_append [OF upd, of _ "[ResumeActor_call]"])
        (auto simp: list_update_append wire_simps)
  next
    assume "gos s1 = gos s @ [[RunSlack second]]"
    with next_sink assms(3) show ?thesis
      by (intro conn_inv_append [OF upd, of _ "[RunSlack second]"])
        (auto simp: list_update_append wire_simps)
  qed
qed

lemma step_conn_inv:
  assumes "step c s l s'" "conn_inv s" "events_inv s"
  shows "conn_inv s'"
  using assms(1)
proof cases
  case (run i t ts ts' s1)
  with conn_inv_run [OF assms(2,3) run(3-5)] show ?thesis by simp
next
  case (fire i fn)
  then show ?thesis
    by (cases fn; intro conn_inv_append [OF assms(2), of _ "[callback fn]"])
      (auto simp: go_def Stop_def callback_def wire_simps)
next
  case connect
  then show ?thesis
    by (intro conn_inv_append [OF assms(2), of _ "[AttachSink (nextSink s), ServeSocket (nextSink s), DetachSink (nextSink s)]"])
      (auto simp: go_def wire_simps)
next
  case (receive i sk ts t x)
  then have "wf_conn (ServeSocket sk # ts)" "\<forall>u \<in> set ts. \<forall>f \<in> set (frames_of u). f = helloFrame \<or> frame_id f \<noteq> []"
    using conn_inv_nth [OF assms(2) receive(3)] unfolding receive(4) good_conn_def by (blast, simp)
  with receive show ?thesis
    by (intro conn_inv_update [OF assms(2) receive(3), of "t # ServeSocket sk # ts"])
      (auto simp: wire_simps)
next
  case (ping_lost i sk ts)
  have ts: "wf_conn (ServeSocket sk # ts)" "\<forall>u \<in> set ts. \<forall>f \<in> set (frames_of u). f = helloFrame \<or> frame_id f \<noteq> []"
    using conn_inv_nth [OF assms(2) ping_lost(3)] unfolding ping_lost(4) good_conn_def by (blast, simp)
  have plain: "plain (DeliverBuffered sk)" "frames_of (DeliverBuffered sk) = []" by (simp_all add: plain_def wire_simps)
  have "\<forall>u \<in> set ts. \<forall>sk. \<not> opener sk u" "wf_conn ts" using ts(1) by simp_all
  with wf_conn_append [of ts "[DeliverBuffered sk]"] plain(1) have wf: "wf_conn (DeliverBuffered sk # ts)" by simp
  have "\<forall>u \<in> set (DeliverBuffered sk # ts). \<forall>f \<in> set (frames_of u). f = helloFrame \<or> frame_id f \<noteq> []"
    using ts(2) plain(2) by simp
  then show ?thesis
    by (intro conn_inv_update [OF assms(2) ping_lost(3) _ wf]) (simp_all only: ping_lost(2,4), simp_all)
next
  case (hang_up i sk ts)
  have ts: "wf_conn ts" "\<forall>u \<in> set ts. \<forall>f \<in> set (frames_of u). f = helloFrame \<or> frame_id f \<noteq> []"
    using conn_inv_nth [OF assms(2) hang_up(3)] unfolding hang_up(4) good_conn_def by simp_all
  show ?thesis
    by (rule conn_inv_update [OF assms(2) hang_up(3), of ts]) (use ts in \<open>simp_all add: hang_up(2,4)\<close>)
next
  case forward
  then show ?thesis
    by (intro conn_inv_append [OF assms(2), of _ "[BeginForward, ForwardCall, EndForward]"])
      (auto simp: go_def wire_simps)
next
  case (open_call token)
  then show ?thesis
    by (intro conn_inv_append [OF assms(2), of _ "[Start token]"]) (auto simp: go_def wire_simps)
next
  case close_call
  then show ?thesis
    by (intro conn_inv_append [OF assms(2), of _ "[CloseSession]"]) (auto simp: go_def wire_simps)
qed

section \<open>The phases of a connection\<close>

text \<open>Not yet greeted: not handed out yet, or with a task that still has to send hello.\<close>

definition young :: "sink_id \<Rightarrow> task set \<Rightarrow> session \<Rightarrow> bool" where
  "young sk T s \<longleftrightarrow> nextSink s \<le> sk \<or> (\<exists>t \<in> T. opener sk t)"

text \<open>A task that does not send an event to the connection or cause it to settle.\<close>

definition quiet :: "sink_id \<Rightarrow> task \<Rightarrow> bool" where
  [wire_simps]:
  "quiet sk t \<longleftrightarrow> t \<noteq> DeliverBuffered sk \<and> t \<noteq> AttachTimer sk \<and> (\<forall>fs. to_sink t = Some (sk, fs) \<longrightarrow> fs = [helloFrame])"

definition greeted :: "sink_id \<Rightarrow> session \<Rightarrow> bool" where
  "greeted sk s \<longleftrightarrow> (\<exists>fs. written_to sk (out s) = helloFrame # fs \<and> (\<forall>f \<in> set fs. frame_id f \<noteq> []))"

definition unheard :: "sink_id \<Rightarrow> task set \<Rightarrow> session \<Rightarrow> bool" where
  "unheard sk T s \<longleftrightarrow> written_to sk (out s) = [] \<and> sink s \<noteq> Some sk \<and> (\<forall>t \<in> T. \<forall>f fs. t \<noteq> WriteSend sk f fs)"

definition waiting :: "sink_id \<Rightarrow> task set \<Rightarrow> session \<Rightarrow> bool" where
  "waiting sk T s \<longleftrightarrow> written_to sk (out s) = [] \<and> (sink s = Some sk \<longrightarrow> \<not> settled s) \<and> (\<forall>t \<in> T. quiet sk t) \<and>
     (\<forall>i. (i, DeliverCallback sk) \<notin> set (timers s))"

definition phase_ok :: "sink_id \<Rightarrow> task set \<Rightarrow> session \<Rightarrow> bool" where
  "phase_ok sk T s \<longleftrightarrow> (if young sk T s then waiting sk T s else greeted sk s \<or> unheard sk T s)"

definition aside :: "sink_id \<Rightarrow> task \<Rightarrow> bool" where
  [wire_simps]:
  "aside sk t \<longleftrightarrow> \<not> opener sk t \<and> quiet sk t \<and> (\<forall>f fs. t \<noteq> WriteSend sk f fs)"

lemma phase_ok_aside:
  assumes "phase_ok sk T s" "young sk T' s' = young sk T s" "\<And>u. u \<in> T' \<Longrightarrow> u \<in> T \<or> aside sk u"
    "written_to sk (out s') = written_to sk (out s)" "sink s' = Some sk \<Longrightarrow> sink s = Some sk \<and> (settled s' \<longrightarrow> settled s)"
    "\<And>i. (i, DeliverCallback sk) \<in> set (timers s') \<Longrightarrow> (i, DeliverCallback sk) \<in> set (timers s)"
  shows "phase_ok sk T' s'"
proof (cases "young sk T s")
  case True
  with assms(1) have "waiting sk T s" by (simp add: phase_ok_def)
  with assms(3-6) have "waiting sk T' s'" by (auto simp: waiting_def aside_def)
  with True assms(2) show ?thesis by (simp add: phase_ok_def)
next
  case False
  with assms(1) have "greeted sk s \<or> unheard sk T s" by (simp add: phase_ok_def)
  with assms(3-5) have "greeted sk s' \<or> unheard sk T' s'" by (auto simp: greeted_def unheard_def aside_def)
  with False assms(2) show ?thesis by (simp add: phase_ok_def)
qed

lemma timers_stop_deliver: "(i, fn) \<in> set (timers (stop_deliver s)) \<Longrightarrow> (i, fn) \<in> set (timers s)"
  by (auto simp: stop_deliver_def Stop_def split: option.splits)

lemma timers_stop_idle: "(i, fn) \<in> set (timers (stop_idle s)) \<Longrightarrow> (i, fn) \<in> set (timers s)"
  by (auto simp: stop_idle_def Stop_def split: option.splits)

lemma timers_armIdle: "(i, DeliverCallback sk) \<in> set (timers (armIdleLocked c s)) \<Longrightarrow> (i, DeliverCallback sk) \<in> set (timers s)"
  by (auto simp: armIdleLocked_def AfterFunc_def Let_def dest: timers_stop_idle split: if_splits)

text \<open>The regions that are about the connection \<open>sk\<close>.\<close>

definition concerns :: "sink_id \<Rightarrow> session \<Rightarrow> task \<Rightarrow> bool" where
  "concerns sk s t \<longleftrightarrow> (\<exists>fs. to_sink t = Some (sk, fs)) \<or> t = AttachSink sk \<or> held sk t \<or> t = AttachTimer sk \<or>
     t = DeliverBuffered sk \<or> (\<exists>raw. t = OnEvent raw \<and> sink s = Some sk \<and> settled s)"

lemma exec_elsewhere:
  assumes "exec c t s = Some (Inr (ts', s'))" "\<not> concerns sk s t"
  shows "(\<forall>u \<in> set ts'. aside sk u) \<and> written_to sk (out s') = written_to sk (out s) \<and>
    (sink s' = Some sk \<longrightarrow> sink s = Some sk \<and> (settled s' \<longrightarrow> settled s)) \<and>
    (\<forall>i. (i, DeliverCallback sk) \<in> set (timers s') \<longrightarrow> (i, DeliverCallback sk) \<in> set (timers s))"
proof (cases t)
  case ReadFrame
  have "aside sk u" if "u \<in> set (read_tasks rp)" for u rp
    using that by (auto simp: read_tasks_def wire_simps split: reply.splits sum.splits if_splits)
  with assms(1) ReadFrame show ?thesis by (auto simp: io_def Let_def written_to_def)
next
  case (OnEvent raw)
  with assms show ?thesis
    by (auto simp: onEvent_locked_result plan_tasks_def plan_go_def go_def concerns_def wire_simps buffered_state_def split: option.splits if_splits sum.splits)
next
  case (DeliverBuffered k)
  with assms show ?thesis
    by (auto simp: concerns_def wire_simps dest!: deliver_locked_state timers_stop_deliver
        split: sum.splits option.splits)
next
  case (DetachSink k)
  with assms show ?thesis by (auto simp: Detach_def split: if_splits dest!: timers_stop_idle timers_stop_deliver)
qed (use assms in \<open>auto simp: exec_defs concerns_def wire_simps written_to_def attach_timer_locked_def AfterFunc_def dest: timers_stop_deliver timers_stop_idle timers_armIdle split: if_splits option.splits list.splits\<close>)

text \<open>
  One region and one connection. \<open>R\<close> are the other tasks; \<open>T'\<close> are the tasks afterwards, with at most the
  two goroutines that a region may start.
\<close>

definition after :: "task list \<Rightarrow> task set \<Rightarrow> task set \<Rightarrow> bool" where
  "after ts' R T' \<longleftrightarrow> set ts' \<union> R \<subseteq> T' \<and> T' \<subseteq> set ts' \<union> R \<union> {ResumeActor_call, RunSlack second}"

lemma started_aside: "aside sk ResumeActor_call" "aside sk (RunSlack d)"
  by (simp_all add: aside_def quiet_def opener_def to_sink_def)

lemma after_cases: "after ts' R T' \<Longrightarrow> u \<in> T' \<Longrightarrow> u \<in> R \<or> u \<in> set ts' \<or> aside sk u"
  using started_aside by (auto simp: after_def)

lemma after_young:
  assumes "after ts' R T'" "nextSink s' = nextSink s"
  shows "young sk T' s' \<longleftrightarrow> nextSink s \<le> sk \<or> (\<exists>u \<in> R. opener sk u) \<or> (\<exists>u \<in> set ts'. opener sk u)"
  using assms started_aside by (fastforce simp: young_def after_def aside_def)

lemma phase_elsewhere:
  assumes "phase_ok sk (insert t R) s" "exec c t s = Some (Inr (ts', s'))" "after ts' R T'" "\<not> concerns sk s t"
  shows "phase_ok sk T' s'"
proof (rule phase_ok_aside [OF assms(1)])
  note e = exec_elsewhere [OF assms(2,4)]
  have "\<not> opener sk t" using assms(4) by (auto simp: concerns_def opener_def)
  moreover have "\<not> opener sk u" if "u \<in> set ts'" for u using e that by (auto simp: aside_def)
  ultimately show "young sk T' s' = young sk (insert t R) s"
    unfolding after_young [OF assms(3) exec_nextSink [OF assms(2)]] by (auto simp: young_def)
  show "u \<in> insert t R \<or> aside sk u" if "u \<in> T'" for u using after_cases [OF assms(3) that] e by auto
qed (use exec_elsewhere [OF assms(2,4)] in auto)

text \<open>After hello, anything may follow that is not another hello.\<close>

lemma phase_greeted:
  assumes "after ts' R T'" "nextSink s' = nextSink s" "\<not> young sk R s" "\<forall>u \<in> set ts'. \<not> opener sk u" "greeted sk s'"
  shows "phase_ok sk T' s'"
  using assms after_young [OF assms(1,2), of sk] by (auto simp: phase_ok_def young_def)

lemma settled_greeted:
  assumes "phase_ok sk T s" "sink s = Some sk" "settled s \<or> \<not> young sk T s"
  shows "\<not> young sk T s \<and> greeted sk s"
  using assms by (auto simp: phase_ok_def waiting_def unheard_def split: if_splits)

lemma greeted_out: "greeted sk s \<Longrightarrow> out s' = out s \<Longrightarrow> greeted sk s'"
  by (simp add: greeted_def)

lemma phase_OnEvent:
  assumes "phase_ok sk (insert (OnEvent raw) R) s" "exec c (OnEvent raw) s = Some (Inr (ts', s'))" "after ts' R T'"
    "sink s = Some sk" "settled s" "is_event_raw raw"
  shows "phase_ok sk T' s'"
proof (rule phase_greeted [OF assms(3) exec_nextSink [OF assms(2)]])
  obtain f e where f: "rewriteEnvelopeID raw (randID (rand_src c) (draws s)) = Inr f" by (rule rewrite_event [OF assms(6)])
  then have f': "frame_id f \<noteq> []" by (simp add: frame_id_rewrite [OF assms(6)] randID_nonempty)
  have e: "ts' = [WriteToSink sk [f], NoteActivity]" "out s' = out s"
    using assms(2,4,5) f by (auto simp: onEvent_locked_result plan_tasks_def plan_go_def)
  show "\<forall>u \<in> set ts'. \<not> opener sk u" using f' by (auto simp: e(1) opener_def to_sink_def)
  have g: "\<not> young sk (insert (OnEvent raw) R) s \<and> greeted sk s" using settled_greeted [OF assms(1,4)] assms(5) by blast
  then show "\<not> young sk R s" by (auto simp: young_def)
  from g e(2) show "greeted sk s'" by (auto intro: greeted_out)
qed

lemma phase_DeliverBuffered:
  assumes "phase_ok sk (insert (DeliverBuffered sk) R) s" "exec c (DeliverBuffered sk) s = Some (Inr (ts', s'))" "after ts' R T'"
    "\<forall>e \<in> set (buffer s). is_event_raw (event_raw e)"
  shows "phase_ok sk T' s'"
proof -
  have old: "\<not> young sk (insert (DeliverBuffered sk) R) s" using assms(1) by (auto simp: phase_ok_def waiting_def quiet_def split: if_splits)
  show ?thesis
  proof (cases "sink s = Some sk \<and> \<not> settled s")
    case True
    show ?thesis
    proof (rule phase_greeted [OF assms(3) exec_nextSink [OF assms(2)]])
      show "\<not> young sk R s" using old by (auto simp: young_def)
      have "out s' = out s" using assms(2) by (auto split: sum.splits option.splits dest!: deliver_locked_state)
      with settled_greeted [OF assms(1)] True old show "greeted sk s'" by (auto intro: greeted_out)
      show "\<forall>u \<in> set ts'. \<not> opener sk u"
        using exec_continues [OF assms(2) _ assms(4)] by (auto simp: good_task_def plain_def to_sink_def)
    qed
  next
    case False
    then have "ts' = []" "s' = s" using assms(2) by (auto simp: deliver_locked_def)
    then show ?thesis
      using after_cases [OF assms(3)] after_young [OF assms(3), of s' s sk] old
      by (intro phase_ok_aside [OF assms(1)]) (auto simp: young_def)
  qed
qed

lemma phase_AttachSink:
  assumes "phase_ok sk (insert (AttachSink sk) R) s" "exec c (AttachSink sk) s = Some (Inr (ts', s'))" "after ts' R T'"
  shows "phase_ok sk T' s'"
proof -
  have w: "waiting sk (insert (AttachSink sk) R) s" using assms(1) by (auto simp: phase_ok_def young_def opener_def split: if_splits)
  have ts': "ts' = [WriteToSink sk [helloFrame], AttachHeld sk (deliverDelay c) (length (buffer s))]" "s' = attach_locked sk s"
    using assms(2) by (auto simp: attach_locked_def Let_def)
  have "young sk T' s'"
    unfolding after_young [OF assms(3) exec_nextSink [OF assms(2)]] by (simp add: ts'(1) opener_def to_sink_def)
  moreover have "quiet sk u" if "u \<in> T'" for u
    using after_cases [OF assms(3) that, of sk] w by (auto simp: ts'(1) waiting_def quiet_def to_sink_def aside_def)
  then have "waiting sk T' s'"
    using w by (auto simp: waiting_def ts'(2) attach_locked_def dest!: timers_stop_deliver)
  ultimately show ?thesis by (simp add: phase_ok_def)
qed

text \<open>The regions that only prepare a delivery come after the greeting.\<close>

lemma phase_prepare:
  assumes "phase_ok sk (insert t R) s" "\<not> young sk (insert t R) s" "after ts' R T'" "nextSink s' = nextSink s"
    "out s' = out s" "sink s' = sink s" "\<And>u. u \<in> set ts' \<Longrightarrow> u \<in> {DeliverBuffered sk, AttachTimer sk}"
  shows "phase_ok sk T' s'"
proof -
  have "\<not> young sk T' s'"
    unfolding after_young [OF assms(3,4)] using assms(2,7) by (fastforce simp: young_def wire_simps)
  moreover have "greeted sk s' \<or> unheard sk T' s'"
  proof (cases "greeted sk s")
    case True
    then show ?thesis using assms(5) by (auto intro: greeted_out)
  next
    case False
    with assms(1,2) have "unheard sk (insert t R) s" by (simp add: phase_ok_def)
    with assms(5-7) after_cases [OF assms(3)] have "unheard sk T' s'" by (fastforce simp: unheard_def aside_def)
    then show ?thesis ..
  qed
  ultimately show ?thesis by (simp add: phase_ok_def)
qed

text \<open>A write that goes on, with the same frames and the same state.\<close>

lemma phase_write_on:
  assumes "phase_ok sk (insert t R) s" "after [u] R T'" "to_sink t = Some (sk, fs)" "to_sink u = Some (sk, fs)"
    "nextSink s' = nextSink s" "out s' = out s" "sink s' = sink s" "settled s' = settled s" "timers s' = timers s"
    "(\<forall>f fs. u \<noteq> WriteSend sk f fs) \<or> sink s = Some sk"
  shows "phase_ok sk T' s'"
proof -
  have op: "opener sk u = opener sk t" using assms(3,4) by (auto simp: wire_simps)
  then have y: "young sk T' s' = young sk (insert t R) s" unfolding after_young [OF assms(2,5)] by (auto simp: young_def)
  show ?thesis
  proof (cases "young sk (insert t R) s")
    case True
    with assms(1) have w: "waiting sk (insert t R) s" by (simp add: phase_ok_def)
    then have "fs = [helloFrame]" using assms(3) by (simp add: waiting_def quiet_def)
    then have "quiet sk v" if "v \<in> T'" for v
      using after_cases [OF assms(2) that, of sk] w assms(4) by (auto simp: waiting_def wire_simps)
    with w assms(6-9) have "waiting sk T' s'" by (simp add: waiting_def)
    with True y show ?thesis by (simp add: phase_ok_def)
  next
    case False
    have "greeted sk s' \<or> unheard sk T' s'"
    proof (cases "greeted sk s")
      case True
      then show ?thesis using assms(6) by (auto intro: greeted_out)
    next
      case not_greeted: False
      with assms(1) False have u: "unheard sk (insert t R) s" by (simp add: phase_ok_def)
      then have "\<forall>f fs. u \<noteq> WriteSend sk f fs" using assms(10) by (simp add: unheard_def)
      with u assms(6,7) after_cases [OF assms(2)] have "unheard sk T' s'" by (fastforce simp: unheard_def aside_def)
      then show ?thesis ..
    qed
    with False y show ?thesis by (simp add: phase_ok_def)
  qed
qed

text \<open>A write that ends, because nothing is left or the connection was replaced.\<close>

lemma phase_write_ends:
  assumes "phase_ok sk (insert (WriteNext sk fs) R) s" "after [] R T'" "fs = [] \<or> sink s \<noteq> Some sk"
    "opener sk (WriteNext sk fs) \<Longrightarrow> \<forall>u \<in> R. \<not> opener sk u"
  shows "phase_ok sk T' (s\<lparr>sinkWrite := False\<rparr>)"
proof (cases "opener sk (WriteNext sk fs) \<and> sk < nextSink s")
  case True
  with assms(4) have R: "\<forall>u \<in> R. \<not> opener sk u" by blast
  have w: "waiting sk (insert (WriteNext sk fs) R) s" using assms(1) True by (auto simp: phase_ok_def young_def split: if_splits)
  then have "\<forall>f fs. u \<noteq> WriteSend sk f fs" if "u \<in> R" for u
    using that R by (force simp: waiting_def wire_simps)
  moreover have "fs \<noteq> []" using True by (auto simp: wire_simps)
  ultimately have "unheard sk T' (s\<lparr>sinkWrite := False\<rparr>)"
    using assms(3) w after_cases [OF assms(2)] by (fastforce simp: unheard_def waiting_def aside_def)
  moreover have "\<not> young sk T' (s\<lparr>sinkWrite := False\<rparr>)" using R True after_young [OF assms(2), of "s\<lparr>sinkWrite := False\<rparr>" s sk] by auto
  ultimately show ?thesis by (simp add: phase_ok_def)
next
  case False
  then have "young sk T' (s\<lparr>sinkWrite := False\<rparr>) = young sk (insert (WriteNext sk fs) R) s"
    using after_young [OF assms(2), of "s\<lparr>sinkWrite := False\<rparr>" s sk] by (auto simp: young_def not_less)
  then show ?thesis using after_cases [OF assms(2)] by (intro phase_ok_aside [OF assms(1)]) auto
qed

lemma phase_WriteSend:
  assumes "phase_ok sk (insert (WriteSend sk f fs) R) s" "exec c (WriteSend sk f fs) s = Some (Inr (ts', s'))" "after ts' R T'"
    "opener sk (WriteSend sk f fs) \<Longrightarrow> (\<forall>u \<in> R. \<not> opener sk u)" "sk < nextSink s \<or> \<not> opener sk (WriteSend sk f fs)"
    "f = helloFrame \<or> frame_id f \<noteq> []"
  shows "phase_ok sk T' s'"
proof (cases "opener sk (WriteSend sk f fs)")
  case True
  have "waiting sk (insert (WriteSend sk f fs) R) s" using assms(1) True by (auto simp: phase_ok_def young_def split: if_splits)
  then have f: "f = helloFrame" "fs = []" "written_to sk (out s) = []" by (auto simp: waiting_def wire_simps)
  show ?thesis
  proof (rule phase_greeted [OF assms(3) exec_nextSink [OF assms(2)]])
    show "\<not> young sk R s" using assms(4) [OF True] assms(5) True by (auto simp: young_def)
    show "\<forall>u \<in> set ts'. \<not> opener sk u" using assms(2) f by (auto simp: Let_def wire_simps split: if_splits)
    have "written_to sk [OWrite sk f] = [f]" by (simp add: written_to_def)
    then show "greeted sk s'" using assms(2) f by (auto simp: greeted_def io_def Let_def split: if_splits)
  qed
next
  case False
  then have ev: "helloFrame \<notin> set (f # fs)" by (auto simp: wire_simps)
  have old: "\<not> young sk (insert (WriteSend sk f fs) R) s"
  proof
    assume "young sk (insert (WriteSend sk f fs) R) s"
    with assms(1) have "quiet sk (WriteSend sk f fs)" by (simp add: phase_ok_def waiting_def)
    with ev show False by (simp add: wire_simps)
  qed
  with assms(1) have g: "greeted sk s" by (auto simp: phase_ok_def unheard_def split: if_splits)
  show ?thesis
  proof (rule phase_greeted [OF assms(3) exec_nextSink [OF assms(2)]])
    show "\<not> young sk R s" using old by (auto simp: young_def)
    show "\<forall>u \<in> set ts'. \<not> opener sk u" using assms(2) ev by (auto simp: Let_def wire_simps split: if_splits)
    have "written_to sk (out s') = written_to sk (out s) @ [f]"
      using assms(2) by (auto simp: io_def Let_def written_to_def split: if_splits)
    with g ev assms(6) show "greeted sk s'" by (auto simp: greeted_def)
  qed
qed

lemma exec_phase:
  assumes "phase_ok sk (insert t R) s" "exec c t s = Some (Inr (ts', s'))" "after ts' R T'"
    "good_task t" "\<forall>e \<in> set (buffer s). is_event_raw (event_raw e)" "\<forall>f \<in> set (frames_of t). f = helloFrame \<or> frame_id f \<noteq> []"
    "opener sk t \<Longrightarrow> sk < nextSink s \<and> (\<forall>u \<in> R. \<not> opener sk u)" "held sk t \<Longrightarrow> \<not> young sk (insert t R) s"
  shows "phase_ok sk T' s'"
proof (cases "concerns sk s t")
  case False
  from phase_elsewhere [OF assms(1-3) this] show ?thesis .
next
  case True
  then consider (event) raw where "t = OnEvent raw" "sink s = Some sk" "settled s" | (deliver) "t = DeliverBuffered sk"
    | (attach) "t = AttachSink sk" | (held) d n where "t = AttachHeld sk d n" | (timer) "t = AttachTimer sk"
    | (lock) fs where "t = WriteToSink sk fs" | (continue) fs where "t = WriteNext sk fs" | (send) f fs where "t = WriteSend sk f fs"
    by (auto simp: concerns_def wire_simps split: task.splits)
  then show ?thesis
  proof cases
    case event
    with assms show ?thesis by (auto simp: good_task_def intro: phase_OnEvent)
  next
    case deliver
    from phase_DeliverBuffered [OF assms(1-3) [unfolded deliver] assms(5)] show ?thesis .
  next
    case attach
    from phase_AttachSink [OF assms(1-3) [unfolded attach]] show ?thesis .
  next
    case held
    then have "\<not> young sk (insert t R) s" using assms(8) by (auto simp: held_def)
    from phase_prepare [OF assms(1) this assms(3)] assms(2) held show ?thesis by (auto split: if_splits)
  next
    case timer
    then have "\<not> young sk (insert t R) s" using assms(1) by (auto simp: phase_ok_def waiting_def quiet_def split: if_splits)
    from phase_prepare [OF assms(1) this assms(3)] assms(2) timer show ?thesis by auto
  next
    case lock
    with assms(2) have e: "ts' = [WriteNext sk fs]" "s' = s\<lparr>sinkWrite := True\<rparr>" by (auto split: if_splits)
    show ?thesis
      by (rule phase_write_on [OF assms(1) assms(3) [unfolded e(1)], of fs]) (simp_all add: lock e to_sink_def)
  next
    case continue
    show ?thesis
    proof (cases "fs = [] \<or> sink s \<noteq> Some sk")
      case True
      with assms(2) continue have e: "ts' = []" "s' = s\<lparr>sinkWrite := False\<rparr>" by (auto split: list.splits if_splits)
      from phase_write_ends [OF assms(1) [unfolded continue] assms(3) [unfolded e(1)] True] assms(7) show ?thesis
        unfolding e(2) continue by blast
    next
      case False
      then obtain f fs' where f: "fs = f # fs'" "sink s = Some sk" by (auto simp: neq_Nil_conv)
      with assms(2) continue have e: "ts' = [WriteSend sk f fs']" "s' = s" by auto
      show ?thesis
        by (rule phase_write_on [OF assms(1) assms(3) [unfolded e(1)], of fs]) (simp_all add: continue e f to_sink_def)
    qed
  next
    case send
    from assms(6) have "f = helloFrame \<or> frame_id f \<noteq> []" by (simp add: send wire_simps)
    from phase_WriteSend [OF assms(1-3) [unfolded send] _ _ this] assms(7) show ?thesis unfolding send by blast
  qed
qed

section \<open>Hello comes first\<close>

definition hello_inv :: "session \<Rightarrow> bool" where
  "hello_inv s \<longleftrightarrow> conn_inv s \<and> events_inv s \<and> (\<forall>sk. phase_ok sk (set (concat (gos s))) s)"

definition others :: "nat \<Rightarrow> task list list \<Rightarrow> task set" where
  "others i gs = set (concat (take i gs @ drop (Suc i) gs))"

lemma concat_update: "i < length gs \<Longrightarrow> set (concat (gs[i := g])) = set g \<union> others i gs"
  by (auto simp: upd_conv_take_nth_drop others_def)

lemma concat_nth: "i < length gs \<Longrightarrow> gs ! i = g \<Longrightarrow> set (concat gs) = set g \<union> others i gs"
  using concat_update [of i gs g] by (metis list_update_id)

text \<open>An opener is alone: it is the head of the only goroutine of its connection.\<close>

lemma opener_alone:
  assumes "conn_inv s" "i < length (gos s)" "gos s ! i = t # ts" "opener sk t" "u \<in> set ts \<union> others i (gos s)"
  shows "\<not> opener sk u"
proof
  assume u: "opener sk u"
  have wf: "wf_conn (t # ts)" using conn_inv_nth [OF assms(1,2)] unfolding assms(3) good_conn_def by blast
  then have serve: "ServeSocket sk \<in> set (gos s ! i)" using assms(3,4) by simp
  have "u \<notin> set ts" using wf u by auto
  then obtain g where g: "g \<in> set (take i (gos s) @ drop (Suc i) (gos s))" "u \<in> set g" using assms(5) by (auto simp: others_def)
  have "\<exists>j < length (gos s). j \<noteq> i \<and> gos s ! j = g"
  proof -
    from g(1) consider "g \<in> set (take i (gos s))" | "g \<in> set (drop (Suc i) (gos s))" by auto
    then show ?thesis
    proof cases
      case 1
      then obtain j where "j < i" "j < length (gos s)" "gos s ! j = g" by (auto simp: in_set_conv_nth)
      then show ?thesis by blast
    next
      case 2
      then obtain k where "k < length (gos s) - Suc i" "gos s ! (Suc i + k) = g" by (auto simp: in_set_conv_nth)
      then show ?thesis by (intro exI [of _ "Suc i + k"]) auto
    qed
  qed
  then obtain j where j: "j < length (gos s)" "j \<noteq> i" "gos s ! j = g" by blast
  have "wf_conn g" using conn_inv_nth [OF assms(1) j(1)] unfolding j(3) good_conn_def by blast
  then have "ServeSocket sk \<in> set (gos s ! j)" using wf_conn_opener g(2) u j(3) by blast
  with serve j assms(1,2) show False by (auto simp: conn_inv_def unique_conn_def)
qed

text \<open>A connection whose goroutine is past the greeting is not young.\<close>

lemma past_greeting:
  assumes "conn_inv s" "i < length (gos s)" "gos s ! i = t # ts" "ServeSocket sk \<in> set (t # ts)" "\<not> opener sk t"
  shows "\<not> young sk (set (concat (gos s))) s"
proof -
  have "sk < nextSink s" using conn_inv_nth [OF assms(1,2)] assms(3,4) unfolding good_conn_def by metis
  moreover have "\<not> opener sk u" if "u \<in> set (concat (gos s))" for u
    using no_opener [OF assms(1,2) _ that, of sk] assms(3-5) by auto
  ultimately show ?thesis by (auto simp: young_def not_le)
qed

lemma hello_run:
  assumes "hello_inv s" "i < length (gos s)" "gos s ! i = t # ts" "exec c t s = Some (Inr (ts', s1))"
  shows "phase_ok sk (set (concat ((gos s1)[i := ts' @ ts]))) s1"
proof -
  let ?R = "set ts \<union> others i (gos s)"
  from assms(1) have inv: "conn_inv s" "events_inv s" "phase_ok sk (set (concat (gos s))) s" by (auto simp: hello_inv_def)
  have T: "set (concat (gos s)) = insert t ?R" using concat_nth [OF assms(2,3)] by auto
  have "t \<in> set (concat (gos s))" unfolding T by simp
  then have t: "good_task t" "\<forall>e \<in> set (buffer s). is_event_raw (event_raw e)" using inv(2) by (auto simp: events_inv_def tasks_def)
  have good: "wf_conn (t # ts)" "\<forall>f \<in> set (frames_of t). f = helloFrame \<or> frame_id f \<noteq> []"
    using conn_inv_nth [OF inv(1) assms(2)] unfolding assms(3) good_conn_def by simp_all
  have "after ts' ?R (set (concat ((gos s1)[i := ts' @ ts])))"
  proof -
    obtain new where new: "gos s1 = gos s @ new" "set (concat new) \<subseteq> {ResumeActor_call, RunSlack second}"
      using exec_gos [OF assms(4)] by (elim disjE exE conjE) auto
    have "(gos s1)[i := ts' @ ts] = (gos s)[i := ts' @ ts] @ new" using new(1) assms(2) by (simp add: list_update_append)
    then have "set (concat ((gos s1)[i := ts' @ ts])) = set ts' \<union> set ts \<union> others i (gos s) \<union> set (concat new)"
      using concat_update [OF assms(2), of "ts' @ ts"] by auto
    with new(2) show ?thesis by (auto simp: after_def)
  qed
  then show ?thesis
  proof (rule exec_phase [OF inv(3) [unfolded T] assms(4) _ t good(2)])
    assume op: "opener sk t"
    then have "ServeSocket sk \<in> set (gos s ! i)" using good(1) assms(3) by auto
    then have "sk < nextSink s" using conn_inv_nth [OF inv(1) assms(2)] by (auto simp: good_conn_def)
    with opener_alone [OF inv(1) assms(2,3) op] show "sk < nextSink s \<and> (\<forall>u \<in> ?R. \<not> opener sk u)" by blast
  next
    assume h: "held sk t"
    then have "ServeSocket sk \<in> set (t # ts)" "\<not> opener sk t"
      using good(1) by (auto simp: wire_simps)
    from past_greeting [OF inv(1) assms(2,3) this] show "\<not> young sk (insert t ?R) s" unfolding T .
  qed
qed

lemma phase_ok_gos: "phase_ok sk T (s\<lparr>gos := gs\<rparr>) = phase_ok sk T s"
  by (simp add: phase_ok_def young_def waiting_def greeted_def unheard_def)

text \<open>A delivery is started on a connection that is past its greeting.\<close>

lemma phase_delivering:
  assumes "phase_ok sk T s" "\<not> young sk T s" "out s' = out s" "sink s' = sink s" "nextSink s' = nextSink s"
  shows "phase_ok sk (insert (DeliverBuffered sk) T) s'"
proof -
  have "\<not> opener sk (DeliverBuffered sk)" by (simp add: wire_simps)
  then have "\<not> young sk (insert (DeliverBuffered sk) T) s'" using assms(2,5) by (simp add: young_def)
  moreover have "greeted sk s \<or> unheard sk T s" using assms(1,2) by (simp add: phase_ok_def)
  then have "greeted sk s' \<or> unheard sk (insert (DeliverBuffered sk) T) s'" using assms(3,4) by (auto simp: greeted_def unheard_def)
  ultimately show ?thesis by (simp add: phase_ok_def)
qed

lemma phase_new_goroutine:
  assumes "phase_ok sk (set (concat (gos s))) s" "\<And>u. u \<in> set g \<Longrightarrow> aside sk u"
  shows "phase_ok sk (set (concat (gos (go g s)))) (go g s)"
  using assms(2) by (intro phase_ok_aside [OF assms(1)]) (auto simp: go_def young_def aside_def)

lemma hello_fire:
  assumes "phase_ok sk (set (concat (gos s))) s" "(i, fn) \<in> set (timers s)"
  shows "phase_ok sk (set (concat (gos (go [callback fn] (Stop i s))))) (go [callback fn] (Stop i s))"
proof (cases "fn = DeliverCallback sk")
  case True
  then have old: "\<not> young sk (set (concat (gos s))) s" using assms by (auto simp: phase_ok_def waiting_def split: if_splits)
  have "set (concat (gos (go [callback fn] (Stop i s)))) = insert (DeliverBuffered sk) (set (concat (gos s)))"
    by (simp add: go_def Stop_def callback_def True)
  with phase_delivering [OF assms(1) old, of "go [callback fn] (Stop i s)"] show ?thesis by (simp add: go_def Stop_def)
next
  case False
  then have "aside sk (callback fn)" by (auto simp: callback_def wire_simps split: timer_fn.split)
  then show ?thesis
    by (intro phase_ok_aside [OF assms(1)]) (auto simp: go_def Stop_def young_def aside_def)
qed

lemma hello_connect:
  assumes "phase_ok sk (set (concat (gos s))) s"
  shows "phase_ok sk (set (concat (gos s)) \<union> {AttachSink (nextSink s), ServeSocket (nextSink s), DetachSink (nextSink s)})
    (s\<lparr>nextSink := nextSink s + 1, gos := gs\<rparr>)"
proof (cases "sk = nextSink s")
  case True
  then have "waiting sk (set (concat (gos s))) s" using assms by (simp add: phase_ok_def young_def)
  then have "waiting sk (set (concat (gos s)) \<union> {AttachSink (nextSink s), ServeSocket (nextSink s), DetachSink (nextSink s)})
      (s\<lparr>nextSink := nextSink s + 1, gos := gs\<rparr>)"
    by (auto simp: waiting_def wire_simps)
  with True show ?thesis by (auto simp: phase_ok_def young_def opener_def)
next
  case False
  then have "aside sk u" if "u \<in> {AttachSink (nextSink s), ServeSocket (nextSink s), DetachSink (nextSink s)}" for u
    using that by (auto simp: wire_simps)
  with False show ?thesis by (intro phase_ok_aside [OF assms]) (auto simp: young_def aside_def)
qed

lemma hello_receive:
  assumes "conn_inv s" "phase_ok k (set (concat (gos s))) s" "i < length (gos s)" "gos s ! i = ServeSocket sk # ts" "t = AckEvent x \<or> t = DeliverBuffered sk"
  shows "phase_ok k (insert t (set (concat (gos s)))) (s\<lparr>gos := gs\<rparr>)"
proof (cases "t = DeliverBuffered sk \<and> k = sk")
  case True
  have old: "\<not> young sk (set (concat (gos s))) s"
    by (rule past_greeting [OF assms(1,3,4)]) (simp_all add: opener_def to_sink_def)
  with phase_delivering [OF assms(2), of "s\<lparr>gos := gs\<rparr>"] True show ?thesis by simp
next
  case False
  with assms(5) have "aside k t" by (auto simp: wire_simps)
  then show ?thesis by (intro phase_ok_aside [OF assms(2)]) (auto simp: young_def aside_def)
qed

lemma step_hello_inv:
  assumes "step c s l s'" "hello_inv s"
  shows "hello_inv s'"
proof -
  from assms(2) have inv: "conn_inv s" "events_inv s" and ph: "\<And>sk. phase_ok sk (set (concat (gos s))) s" by (auto simp: hello_inv_def)
  from assms(1) have "phase_ok sk (set (concat (gos s'))) s'" for sk
  proof cases
    case (run i t ts ts' s1)
    have "phase_ok sk (set (concat ((gos s1)[i := ts' @ ts]))) s1" by (rule hello_run [OF assms(2) run(3-5)])
    then show ?thesis unfolding run(2) by (simp add: phase_ok_gos)
  next
    case (fire i fn)
    with hello_fire [OF ph fire(3)] show ?thesis by simp
  next
    case connect
    with hello_connect [OF ph] show ?thesis by (simp add: go_def insert_commute)
  next
    case (receive i sk' ts t x)
    have "set (concat ((gos s)[i := t # ServeSocket sk' # ts])) = insert t (set (concat (gos s)))"
      using concat_update [OF receive(3), of "t # ServeSocket sk' # ts"] concat_nth [OF receive(3,4)] by auto
    with hello_receive [OF inv(1) ph receive(3-5)] receive(2) show ?thesis by simp
  next
    case (ping_lost i sk' ts)
    let ?gs = "(gos s)[i := DeliverBuffered sk' # ts]"
    have T: "insert (DeliverBuffered sk') (set (concat (gos s))) = insert (ServeSocket sk') (set (concat ?gs))"
      using concat_update [OF ping_lost(3), of "DeliverBuffered sk' # ts"] concat_nth [OF ping_lost(3,4)] by auto
    have "phase_ok sk (insert (ServeSocket sk') (set (concat ?gs))) s'"
      using hello_receive [OF inv(1) ph ping_lost(3,4), of "DeliverBuffered sk'" _ sk ?gs] ping_lost(2) T by simp
    then show ?thesis unfolding ping_lost(2) by (rule phase_ok_aside) (auto simp: young_def wire_simps)
  next
    case (hang_up i sk' ts)
    have T: "set (concat (gos s)) = insert (ServeSocket sk') (set (concat ((gos s)[i := ts])))"
      using concat_update [OF hang_up(3), of ts] concat_nth [OF hang_up(3,4)] by auto
    show ?thesis unfolding hang_up(2)
      by (rule phase_ok_aside [OF ph [unfolded T]]) (auto simp: young_def wire_simps)
  next
    case forward
    show ?thesis unfolding forward(2)
      by (rule phase_new_goroutine [OF ph]) (auto simp: wire_simps)
  next
    case (open_call token)
    show ?thesis unfolding open_call(2)
      by (rule phase_new_goroutine [OF ph]) (auto simp: wire_simps)
  next
    case close_call
    show ?thesis unfolding close_call(2)
      by (rule phase_new_goroutine [OF ph]) (auto simp: wire_simps)
  qed
  with step_conn_inv [OF assms(1) inv] step_events_inv [OF assms(1) inv(2)] show ?thesis by (simp add: hello_inv_def)
qed

lemma hello_inv_new: "hello_inv (new_session r)"
  using events_inv_new
  by (auto simp: hello_inv_def conn_inv_def unique_conn_def new_session_def phase_ok_def young_def waiting_def written_to_def)

interpretation hello: state_invariant "step c" "new_session r" hello_inv for c r
  by unfold_locales (rule hello_inv_new, rule step_hello_inv)

lemma hello_before_events:
  "hello_inv s \<Longrightarrow> written_to sk (out s) = [] \<or> greeted sk s"
  by (auto simp: hello_inv_def phase_ok_def waiting_def unheard_def split: if_splits)

end
