(* ===== verification/SessionProps.thy ===== *)
theory SessionProps
  imports Scheduler Mailbox SlackLoop SlackFeed WriteLock HelloFirst
begin

text \<open>
  The properties of a session, over its runs and over its methods, with concrete executions that
  meet their hypotheses.
\<close>

section \<open>A run for the examples\<close>

text \<open>
  The Slack loop starts and reads an event, the actor is resumed, connects, is greeted, sends its
  first heartbeat and gets the event.
\<close>

definition demo_delivery :: "choice list" where
  "demo_delivery = [COpen ''xapp-1'', CRun 0] @ replicate 7 (CRun 1) @ [CRun 2, CConnect] @ replicate 6 (CRun 3)
     @ [CPing 3] @ replicate 6 (CRun 3)"

definition demo_labels :: "label list" where
  "demo_labels = fst (the (schedule demo_config demo_delivery (new_session demo_ref)))"

definition demo_state :: session where
  "demo_state = snd (the (schedule demo_config demo_delivery (new_session demo_ref)))"

definition demo_id :: bytes where
  "demo_id = randID (rand_src demo_config) 0"

lemma demo_result:
  "case schedule demo_config demo_delivery (new_session demo_ref) of None \<Rightarrow> False | Some (ls, s) \<Rightarrow>
    sink s = Some 0 \<and> settled s \<and> map event_raw (buffer s) = [demo_event] \<and> arrived ls = [demo_event] \<and>
    fresh_map s demo_id = Some 0 \<and> map event_key (buffer s) = [0] \<and> concat (gos s) = [ReadLoop, CloseConn, ServeSocket 0, DetachSink 0] \<and>
    map snd (timers s) = [IdleCallback]"
  by code_simp

lemma demo_schedule: "schedule demo_config demo_delivery (new_session demo_ref) = Some (demo_labels, demo_state)"
  using demo_result by (auto simp: demo_labels_def demo_state_def split: option.splits)

lemma demo_run: "session_run demo_config demo_ref demo_labels demo_state"
  by (rule schedule_run [OF demo_schedule])

lemma demo_facts:
  "sink demo_state = Some 0" "settled demo_state" "map event_raw (buffer demo_state) = [demo_event]"
  "arrived demo_labels = [demo_event]" "fresh_map demo_state demo_id = Some 0" "map event_key (buffer demo_state) = [0]"
  "concat (gos demo_state) = [ReadLoop, CloseConn, ServeSocket 0, DetachSink 0]" "map snd (timers demo_state) = [IdleCallback]"
  using demo_result by (simp_all add: demo_schedule)

lemma demo_reads: "inj_on (\<lambda>k. rand_Read (rand_src demo_config) k 12) {..<2}"
proof -
  have "rand_Read (rand_src demo_config) 0 12 \<noteq> rand_Read (rand_src demo_config) 1 12" by code_simp
  then show ?thesis by (auto simp: inj_on_def less_2_cases_iff)
qed

lemma demo_event_ok: "is_event_raw demo_event"
  by code_simp

section \<open>Events\<close>

text \<open>
  C1. The concurrent session refines a mailbox. Every run of the session is matched, step by step,
  by a run of the mailbox; the session's buffer holds exactly the events that arrived and were not
  given up, in the order of arrival and under the number of their arrival, and only the
  acknowledgement of an event gives it up.
\<close>

theorem session_refines_mailbox:
  assumes "session_run c r ls s"
  shows "\<exists>es m. trace mail_step empty_mailbox es m \<and> list_all2 mail_label ls es \<and>
    nextKey s = of_nat (length (arrivals es)) \<and> buffer s = map pending (kept es)"
proof -
  from mailbox.matched [OF assms [unfolded session_run_def]] obtain es m where
    es: "trace mail_step empty_mailbox es m" "list_all2 mail_label ls es" "holds_mail s m" by blast
  with mail.holds [OF es(1)] show ?thesis by (auto simp: holds_mail_def mail_inv_def)
qed

theorem session_refines_mailbox_witness:
  "\<exists>es m. trace mail_step empty_mailbox es m \<and> list_all2 mail_label demo_labels es \<and>
    nextKey demo_state = of_nat (length (arrivals es)) \<and> buffer demo_state = map pending (kept es)"
  by (rule session_refines_mailbox [OF demo_run])

text \<open>
  C4. As long as at most \<open>2 ^ 64\<close> events arrived, the events in the buffer have distinct keys, and in
  any case they are a subsequence of the events that arrived.
\<close>

theorem buffer_in_order:
  assumes "session_run c r ls s" "length (arrived ls) \<le> 2 ^ 64"
  shows "distinct (map event_key (buffer s)) \<and> subseq (map event_raw (buffer s)) (arrived ls)"
  using order.holds [OF assms(1) [unfolded session_run_def]] order_inv_distinct [OF _ assms(2)] order_inv_subseq by blast

theorem buffer_in_order_witness:
  "length (arrived demo_labels) \<le> 2 ^ 64 \<and>
     distinct (map event_key (buffer demo_state)) \<and> subseq (map event_raw (buffer demo_state)) (arrived demo_labels)"
  using buffer_in_order [OF demo_run] by (simp add: demo_facts(4))

text \<open>C6. A step that is not an acknowledgement leaves every buffered event where it is.\<close>

theorem only_ack_removes:
  assumes "step c s l s'" "\<And>i. l \<noteq> Ran (AckEvent i)"
  shows "prefix (buffer s) (buffer s')"
  using assms(1)
proof (cases rule: step_cases)
  case (ran t ts' s1 g)
  have "prefix (buffer s) (buffer s1)"
    using exec_buffer [OF ran(3)] ran(1) assms(2)
    by (auto simp: plan_go_buffer dest!: onEvent_locked_buffer deliver_locked_state)
  with ran(4) show ?thesis by simp
qed (auto simp: go_def Stop_def)

theorem only_ack_removes_witness:
  "prefix (buffer (buffered_state demo_event demo_state))
     (buffer (go [CloseSession] (buffered_state demo_event demo_state)))"
  by (rule only_ack_removes [OF step.close_call [of demo_config]]) simp

text \<open>
  C5. Acknowledging an id that the session stamped removes exactly one event, the one the id was
  stamped on, and forgets every id of that event and no other.
\<close>

theorem ack_removes_the_event:
  assumes "session_run c r ls s" "length (arrived ls) \<le> 2 ^ 64" "fresh_map s i = Some k" "i \<noteq> []"
  shows "(\<exists>xs e ys. buffer s = xs @ e # ys \<and> event_key e = k \<and> buffer (Ack_event c i s) = xs @ ys) \<and>
    (\<forall>j. fresh_map (Ack_event c i s) j = (if fresh_map s j = Some k then None else fresh_map s j))"
proof -
  have ids: "ids_inv s" using ids.holds assms(1) unfolding session_run_def by blast
  have "distinct (map event_key (buffer s))"
    using order.holds assms(1) order_inv_distinct [OF _ assms(2)] unfolding session_run_def by blast
  from remove_key_split [OF fresh_key_buffered [OF ids assms(3)] this] obtain xs e ys where
    "buffer s = xs @ e # ys" "event_key e = k" "remove_key k (buffer s) = xs @ ys" by blast
  moreover have "buffer (Ack_event c i s) = remove_key k (buffer s)" using assms(3,4) by (simp add: Ack_buffer)
  moreover have "distinct (map fst (fresh_entries s))" using ids by (simp add: ids_inv_def)
  ultimately show ?thesis using Ack_fresh [of s i k c] assms(3,4) by auto
qed

theorem ack_removes_the_event_witness:
  "(\<exists>xs e ys. buffer demo_state = xs @ e # ys \<and> event_key e = 0 \<and>
      buffer (Ack_event demo_config demo_id demo_state) = xs @ ys) \<and>
    (\<forall>j. fresh_map (Ack_event demo_config demo_id demo_state) j =
      (if fresh_map demo_state j = Some 0 then None else fresh_map demo_state j))"
proof (rule ack_removes_the_event [OF demo_run _ demo_facts(5)])
  show "demo_id \<noteq> []" by (simp add: demo_id_def randID_nonempty)
qed (simp add: demo_facts(4))

text \<open>
  C19. No envelope id is sent twice: as long as the random source does not repeat itself, the ids of all
  event frames written in a run, on all connections and however often an event was redelivered, are
  distinct. (The id of the hello frame is empty.)
\<close>

theorem ids_sent_once:
  assumes "session_run c r ls s" "inj_on (\<lambda>k. rand_Read (rand_src c) k 12) {..<draws s}"
  shows "distinct (filter (\<lambda>i. i \<noteq> []) (map frame_id (written (out s))))"
  using sent_ids_distinct [OF _ assms(2)] used.holds assms(1) unfolding session_run_def by blast

text \<open>The actor loses its connection before it acknowledges and gets the event again on the next one.\<close>

definition demo_redelivery :: "choice list" where
  "demo_redelivery = demo_delivery @ [CHangUp 3, CRun 3, CConnect] @ replicate 6 (CRun 4) @ [CPing 4] @ replicate 6 (CRun 4)"

lemma redelivery_result:
  "case schedule demo_config demo_redelivery (new_session demo_ref) of None \<Rightarrow> False | Some (ls, s) \<Rightarrow>
    draws s = 2 \<and> map frame_id (written (out s)) = [[], demo_id, [], randID (rand_src demo_config) 1] \<and>
    hd (written_to 1 (out s)) = helloFrame \<and> length (written_to 1 (out s)) = 2"
  by code_simp

lemma redelivery:
  obtains ls s where "session_run demo_config demo_ref ls s" "draws s = 2"
    "map frame_id (written (out s)) = [[], demo_id, [], randID (rand_src demo_config) 1]" "length (written_to 1 (out s)) = 2"
  using redelivery_result schedule_run by (fastforce split: option.splits)

theorem ids_sent_once_witness:
  "\<exists>ls s. session_run demo_config demo_ref ls s \<and> map frame_id (written (out s)) = [[], demo_id, [], randID (rand_src demo_config) 1] \<and>
     distinct [demo_id, randID (rand_src demo_config) 1]"
proof -
  obtain ls s where s: "session_run demo_config demo_ref ls s" "draws s = 2"
    "map frame_id (written (out s)) = [[], demo_id, [], randID (rand_src demo_config) 1]" by (rule redelivery)
  have "inj_on (\<lambda>k. rand_Read (rand_src demo_config) k 12) {..<draws s}"
    unfolding s(2) by (rule demo_reads)
  from ids_sent_once [OF s(1) this] have "distinct [demo_id, randID (rand_src demo_config) 1]"
    unfolding s(3) by (simp add: randID_nonempty demo_id_def)
  with s show ?thesis by (intro exI [of _ ls] exI [of _ s] conjI)
qed

text \<open>
  C18. On each connection hello comes first: what was written to a connection is nothing yet, or the hello
  frame followed by event frames only, each with an id that was drawn for it.
\<close>

theorem hello_first:
  assumes "session_run c r ls s"
  shows "written_to sk (out s) = [] \<or> (\<exists>fs. written_to sk (out s) = helloFrame # fs \<and>
    (\<forall>f \<in> set fs. \<exists>k < draws s. frame_id f = randID (rand_src c) k))"
proof -
  have "used_inv c s" using used.holds [OF assms [unfolded session_run_def]] by blast
  moreover have "hello_inv s" using hello.holds [OF assms [unfolded session_run_def]] .
  moreover have "f \<in> set (written (out s))" if "written_to sk (out s) = helloFrame # fs" "f \<in> set fs" for f fs
    using written_to_written [of sk "out s"] that by auto
  ultimately show ?thesis using hello_before_events [of s sk] sent_id_drawn [of c s] unfolding greeted_def by blast
qed

theorem hello_first_witness:
  "\<exists>ls s fs. session_run demo_config demo_ref ls s \<and> written_to 1 (out s) = helloFrame # fs \<and> length fs = 1 \<and>
     (\<exists>k < draws s. frame_id (hd fs) = randID (rand_src demo_config) k)"
proof -
  obtain ls s where s: "session_run demo_config demo_ref ls s" "length (written_to 1 (out s)) = 2" by (rule redelivery)
  from hello_first [OF s(1), of 1] s(2) obtain fs where fs: "written_to 1 (out s) = helloFrame # fs"
    "\<forall>f \<in> set fs. \<exists>k < draws s. frame_id f = randID (rand_src demo_config) k" by auto
  moreover from fs(1) s(2) have "length fs = 1" "hd fs \<in> set fs" by (cases fs; simp)+
  ultimately show ?thesis using s(1) by blast
qed

text \<open>C17. No goroutine of a session ever panics.\<close>

theorem session_never_panics:
  assumes "session_run c r ls s" "t \<in># tasks s"
  shows "exec c t s \<noteq> Some (Inl p)"
  using exec_no_panic [OF _ assms(2)] events.holds assms(1) unfolding session_run_def by blast

theorem session_never_panics_witness:
  "ReadLoop \<in># tasks demo_state \<and> exec demo_config ReadLoop demo_state \<noteq> Some (Inl NilMapWrite)"
proof -
  have "ReadLoop \<in># tasks demo_state" unfolding tasks_def demo_facts(7) by simp
  with session_never_panics [OF demo_run this] show ?thesis by blast
qed

section \<open>Delivery\<close>




definition demo_attached :: session where
  "demo_attached = (new_session demo_ref)\<lparr>sink := Some 4,
     buffer := [\<lparr>event_key = 0, event_raw = demo_event\<rparr>, \<lparr>event_key = 1, event_raw = demo_event\<rparr>], nextKey := 2\<rparr>"


text \<open>
  C30. What \<^verbatim>\<open>onEvent\<close> does in each situation, for an event frame: it is always appended to the buffer;
  a disconnected actor is resumed unless a resume is under way; a connection that has not sent its
  heartbeat gets nothing yet; a settled connection gets one frame, which decodes to the event's fresh id.
\<close>

theorem onEvent_cases:
  assumes "is_event_raw raw"
  shows "\<exists>s'. onEvent c raw s = Inr s' \<and> buffer s' = buffer s @ [new_event raw s] \<and>
    (case sink s of
       None \<Rightarrow> resuming s' \<and> out s' = out s \<and> gos s' = (if resuming s then gos s else gos s @ [[ResumeActor_call]])
     | Some sk \<Rightarrow> gos s' = gos s \<and>
         (if settled s then \<exists>f e. out s' = out s @ [OWrite sk f] \<and> DecodeEnvelope f = Inr e \<and>
              EnvelopeID e = randID (rand_src c) (draws s) \<and> fresh_map s' (EnvelopeID e) = Some (nextKey s)
          else out s' = out s \<and> freshIDs s' = freshIDs s))"
proof (cases "sink s")
  case None
  then show ?thesis by (cases "resuming s") (auto simp: onEvent_def onEvent_locked_result go_def)
next
  case (Some sk)
  show ?thesis
  proof (cases "settled s")
    case False
    with Some show ?thesis by (simp add: onEvent_def onEvent_locked_result)
  next
    case True
    let ?s1 = "stamp_state c [new_event raw s] (buffered_state raw s)"
    let ?id = "randID (rand_src c) (draws s)"
    obtain f e where f: "rewriteEnvelopeID raw ?id = Inr f" "DecodeEnvelope f = Inr e" "EnvelopeID e = ?id"
      by (rule rewrite_event [OF assms])
    have "writeToSink c sk [f] ?s1 = ?s1\<lparr>out := out s @ [OWrite sk f], sinkWrite := False\<rparr>"
      using Some by (simp add: writeToSink_def io_def Let_def)
    moreover have "fresh_map (armIdleLocked c (?s1\<lparr>out := w, sinkWrite := False\<rparr>)) ?id = Some (nextKey s)" for w
      using stamp_state_fields(22) [of c "[new_event raw s]" "buffered_state raw s"]
      unfolding fresh_map_entries by (simp add: fresh_entries_def update_conv new_event_def)
    ultimately show ?thesis using Some True f by (simp add: onEvent_def onEvent_locked_result noteActivity_def)
  qed
qed

theorem onEvent_cases_witness:
  "\<exists>s'. onEvent demo_config demo_event demo_attached = Inr s' \<and>
    buffer s' = buffer demo_attached @ [new_event demo_event demo_attached] \<and>
    (case sink demo_attached of
       None \<Rightarrow> resuming s' \<and> out s' = out demo_attached \<and>
         gos s' = (if resuming demo_attached then gos demo_attached else gos demo_attached @ [[ResumeActor_call]])
     | Some sk \<Rightarrow> gos s' = gos demo_attached \<and>
         (if settled demo_attached then \<exists>f e. out s' = out demo_attached @ [OWrite sk f] \<and> DecodeEnvelope f = Inr e \<and>
              EnvelopeID e = randID (rand_src demo_config) (draws demo_attached) \<and>
              fresh_map s' (EnvelopeID e) = Some (nextKey demo_attached)
          else out s' = out demo_attached \<and> freshIDs s' = freshIDs demo_attached))"
  by (rule onEvent_cases [OF demo_event_ok])

section \<open>Connections and timers\<close>

text \<open>C26. At most one goroutine is writing to the actor's connection, and exactly while the write lock is held.\<close>

theorem one_writer:
  assumes "session_run c r ls s"
  shows "size (filter_mset writing (tasks s)) = (if sinkWrite s then 1 else 0)"
  using lock.holds [OF assms [unfolded session_run_def]] by (simp add: lock_inv_def cnt_def one_def)

theorem one_writer_witness: "size (filter_mset writing (tasks demo_state)) = (if sinkWrite demo_state then 1 else 0)"
  by (rule one_writer [OF demo_run])

text \<open>
  C20. No goroutine is blocked for good: in every reachable state, a goroutine that does not wait for the
  actor can run its next region, after at most some steps of the holder of the write lock, whatever the
  writes return.
\<close>

theorem no_deadlock:
  assumes "session_run c r ls s" "i < length (gos s)" "gos s ! i = t # ts" "\<And>sk. t \<noteq> ServeSocket sk"
  shows "\<exists>ls' s' s''. trace (step c) s ls' s' \<and> (\<forall>l \<in> set ls'. \<exists>w. l = Ran w \<and> writing w) \<and>
    gos s' ! i = t # ts \<and> step c s' (Ran t) s''"
proof -
  have inv: "head_inv s" "lock_inv s" "events_inv s"
    using head.holds lock.holds events.holds assms(1) unfolding session_run_def by blast+
  have t: "t \<in># tasks s" unfolding tasks_def by (rule task_member [OF assms(2,3)])
  show ?thesis
  proof (cases "exec c t s")
    case None
    with exec_waits assms(4) obtain sk fs where "t = WriteToSink sk fs" "sinkWrite s" by blast
    with waiting_runs [OF inv(1,2) assms(2)] assms(3) show ?thesis by blast
  next
    case (Some x)
    with exec_no_panic [OF inv(3) t] obtain y where "exec c t s = Some (Inr y)" by (cases x) auto
    then obtain ts' s1 where "exec c t s = Some (Inr (ts', s1))" by (cases y) auto
    from step.run [OF assms(2,3) this] assms(3) trace_Nil show ?thesis by fastforce
  qed
qed

text \<open>The fallback timer's delivery waits while the connection's goroutine writes hello.\<close>

definition contention :: "choice list" where
  "contention = [CConnect, CRun 0, CRun 0, CConnect, CRun 1]"

theorem no_deadlock_witness:
  "\<exists>ls s ls' s' s''. session_run demo_config demo_ref ls s \<and> sinkWrite s \<and> exec demo_config (hd (gos s ! 1)) s = None \<and>
     trace (step demo_config) s ls' s' \<and> step demo_config s' (Ran (hd (gos s ! 1))) s''"
proof -
  have "case schedule demo_config contention (new_session demo_ref) of None \<Rightarrow> False
     | Some (ls, s) \<Rightarrow> sinkWrite s \<and> length (gos s) = 2 \<and> gos s ! 1 = WriteToSink 1 [helloFrame] # tl (gos s ! 1)" by code_simp
  then obtain ls s where s: "schedule demo_config contention (new_session demo_ref) = Some (ls, s)" "sinkWrite s"
    "length (gos s) = 2" "gos s ! 1 = WriteToSink 1 [helloFrame] # tl (gos s ! 1)" by (auto split: option.splits)
  from no_deadlock [OF schedule_run [OF s(1)] _ s(4)] s(3) obtain ls' s' s'' where
    "trace (step demo_config) s ls' s'" "step demo_config s' (Ran (WriteToSink 1 [helloFrame])) s''" by auto
  moreover have "hd (gos s ! 1) = WriteToSink 1 [helloFrame]" by (subst s(4)) simp
  ultimately show ?thesis using schedule_run [OF s(1)] s(2) by (intro exI [of _ ls] exI [of _ s] exI [of _ ls'] exI [of _ s'] exI [of _ s'']) simp
qed

text \<open>
  C27. A session runs no Slack loop before it is started, exactly one from then on until it is closed, and
  at most one afterwards, whose stop channel is closed. In particular no answer of the network ends the loop.
\<close>

theorem one_slack_loop:
  assumes "session_run c r ls s"
  shows "size (filter_mset loop_task (tasks s)) \<le> (if started s then 1 else 0) \<and>
    (started s \<and> \<not> closed s \<longrightarrow> size (filter_mset loop_task (tasks s)) = 1) \<and> (started s \<and> closed s \<longrightarrow> stopped s)"
  using alive.holds [OF assms [unfolded session_run_def]]
  by (auto simp: alive_inv_def slack_inv_def cnt_def one_def stopped_def split: if_splits)

definition closing :: "choice list" where
  "closing = [COpen ''xapp-1'', CRun 0, CRun 1, CClose, CRun 2]"

theorem one_slack_loop_witness:
  "\<exists>ls s. session_run demo_config demo_ref ls s \<and> started s \<and> closed s \<and> stopped s \<and>
     size (filter_mset loop_task (tasks s)) \<le> 1"
proof -
  have "case schedule demo_config closing (new_session demo_ref) of None \<Rightarrow> False | Some (ls, s) \<Rightarrow> started s \<and> closed s" by code_simp
  then obtain ls s where s: "schedule demo_config closing (new_session demo_ref) = Some (ls, s)" "started s" "closed s"
    by (auto split: option.splits)
  with one_slack_loop [OF schedule_run [OF s(1)]] schedule_run [OF s(1)] show ?thesis by auto
qed

text \<open>
  C29. The broker asks for a resume at most once more than connections were attached and resumes
  failed: while a resume is under way, further events do not cause another.
\<close>

theorem resume_once:
  assumes "session_run c r ls s"
  shows "length (filter is_resume (out s)) \<le> length (filter clears_resuming ls) + 1"
proof -
  from resume.holds [OF assms [unfolded session_run_def]]
  have "resumes s \<le> length (filter clears_resuming ls) + one (resuming s)" by (simp add: resume_inv_def)
  also have "one (resuming s) \<le> 1" by (simp add: one_def)
  finally show ?thesis by (simp add: resumes_def)
qed

theorem resume_once_witness: "length (filter is_resume (out demo_state)) \<le> length (filter clears_resuming demo_labels) + 1"
  by (rule resume_once [OF demo_run])

text \<open>
  C28. The idle countdown: at most one idle timer is armed, the one the session knows; none while a
  forwarded call is counted; and without a connection there is neither a countdown nor a suspend under
  way, and nothing is settled.
\<close>

theorem idle_countdown:
  assumes "session_run c r ls s"
  shows "(\<forall>t. (t, IdleCallback) \<in> set (timers s) \<longrightarrow> idleTmr s = Some t) \<and>
    (inFlight s > 0 \<longrightarrow> (\<forall>t. (t, IdleCallback) \<notin> set (timers s))) \<and>
    (sink s = None \<longrightarrow> \<not> settled s \<and> \<not> suspending s \<and> (\<forall>t. (t, IdleCallback) \<notin> set (timers s)))"
  using idle.holds [OF assms [unfolded session_run_def]] by (auto simp: idle_inv_def)

theorem idle_countdown_witness: "\<exists>t. timers demo_state = [(t, IdleCallback)] \<and> idleTmr demo_state = Some t \<and> inFlight demo_state \<le> 0"
proof -
  obtain t where t: "timers demo_state = [(t, IdleCallback)]" using demo_facts(8) by auto
  with idle_countdown [OF demo_run] show ?thesis by force
qed

text \<open>
  The idle callback asks for a suspend exactly when the actor is connected, no suspend is under
  way and no forward is counted. A suspend that the control plane refuses leaves the session not
  suspending, with a new countdown armed when idle suspend is on.
\<close>

lemma onIdle_suspends_idle_actor:
  "out (onIdle c s) = (if sink s \<noteq> None \<and> \<not> suspending s \<and> inFlight s \<le> 0 then out s @ [OSuspend (ref s)] else out s) \<and>
    (sink s \<noteq> None \<and> \<not> suspending s \<and> inFlight s \<le> 0 \<longrightarrow>
      (if answer c (length (out s)) = Fail
       then \<not> suspending (onIdle c s) \<and> (0 <s idleGrace c \<longrightarrow>
         idleTmr (onIdle c s) = Some (nextTimer s) \<and> (nextTimer s, IdleCallback) \<in> set (timers (onIdle c s)))
       else suspending (onIdle c s)))"
proof -
  have armed: "idleTmr (armIdleLocked c t) = Some (nextTimer t) \<and> (nextTimer t, IdleCallback) \<in> set (timers (armIdleLocked c t))"
    if "sink t \<noteq> None" "\<not> suspending t" "inFlight t \<le> 0" "0 <s idleGrace c" for t
    using that by (auto simp: armIdleLocked_def AfterFunc_def Let_def word_sless_alt word_sle_eq)
  show ?thesis
    using armed [of "s\<lparr>out := out s @ [OSuspend (ref s)], suspending := False\<rparr>"]
    by (auto simp: onIdle_def onIdle_locked_def suspend_failed_locked_def io_def Let_def)
qed

section \<open>The Slack loop\<close>

text \<open>
  C32. The delay before the Slack loop dials again is always between one second and thirty seconds, in
  spite of the doubling in 64-bit arithmetic.
\<close>

theorem backoff_bounded:
  assumes "session_run c r ls s" "SleepSlack d \<in># tasks s"
  shows "second \<le>s d \<and> d \<le>s 30 * second"
proof -
  from events.holds [OF assms(1) [unfolded session_run_def]] assms(2) have "good_task (SleepSlack d)"
    by (auto simp: events_inv_def)
  then have "d \<in> set backoffs" by (simp add: good_task_def)
  moreover have "list_all (\<lambda>d. second \<le>s d \<and> d \<le>s 30 * second) backoffs" by code_simp
  ultimately show ?thesis by (simp add: list_all_iff)
qed

definition failing_config :: config where
  "failing_config = demo_config\<lparr>answer := (\<lambda>n. Fail)\<rparr>"

definition failing_state :: session where
  "failing_state = snd (the (schedule failing_config [COpen ''xapp-1'', CRun 0, CRun 1, CRun 1, CRun 1] (new_session demo_ref)))"

lemma failing_run: "\<exists>ls. session_run failing_config demo_ref ls failing_state" "SleepSlack second \<in># tasks failing_state"
proof -
  have "case schedule failing_config [COpen ''xapp-1'', CRun 0, CRun 1, CRun 1, CRun 1] (new_session demo_ref) of
      None \<Rightarrow> False | Some (ls, s) \<Rightarrow> concat (gos s) = [SleepSlack second]" by code_simp
  then obtain ls s where s: "schedule failing_config [COpen ''xapp-1'', CRun 0, CRun 1, CRun 1, CRun 1] (new_session demo_ref) = Some (ls, s)"
    "concat (gos s) = [SleepSlack second]" by (auto split: option.splits)
  then have "failing_state = s" by (simp add: failing_state_def)
  with schedule_run [OF s(1)] s(2) show "\<exists>ls. session_run failing_config demo_ref ls failing_state"
    "SleepSlack second \<in># tasks failing_state" by (auto simp: tasks_def)
qed

theorem backoff_bounded_witness: "second \<le>s second \<and> second \<le>s 30 * second"
proof -
  obtain ls where "session_run failing_config demo_ref ls failing_state" using failing_run(1) by blast
  from backoff_bounded [OF this failing_run(2)] show ?thesis .
qed



section \<open>Methods and goroutines\<close>



section \<open>Executions the comments do not promise\<close>

text \<open>
  C39. There is an execution that ends with an event in the buffer of a disconnected actor, no resume
  under way, no timer armed and no goroutine but the Slack loop: the event waits until another event
  arrives or the actor connects on its own.
\<close>

theorem event_left_waiting:
  "\<exists>ls s. session_run demo_config demo_ref ls s \<and> map event_raw (buffer s) = [demo_event] \<and> sink s = None \<and>
     \<not> resuming s \<and> timers s = [] \<and> tasks s = {#ReadLoop, CloseConn#}"
proof -
  obtain ls s where s: "schedule demo_config stranding (new_session demo_ref) = Some (ls, s)"
    "sink s = None" "\<not> resuming s" "map event_raw (buffer s) = [demo_event]" "timers s = []" "concat (gos s) = [ReadLoop, CloseConn]"
    using stranding_result by (elim exE conjE) (rule that)
  then have "tasks s = {#ReadLoop, CloseConn#}" by (simp add: tasks_def)
  with schedule_run [OF s(1)] s show ?thesis by (intro exI [of _ ls] exI [of _ s] conjI)
qed

lemma suspend_during_forward:
  "\<exists>ls s. session_run demo_config demo_ref ls s \<and> inFlight s = 1 \<and> ForwardCall \<in># tasks s \<and> last (out s) = OSuspend demo_ref"
proof -
  obtain ls s where s: "schedule demo_config suspend_race (new_session demo_ref) = Some (ls, s)"
    "inFlight s = 1" "gos s ! 2 = [ForwardCall, EndForward]" "last (out s) = OSuspend demo_ref" "2 < length (gos s)"
    using suspend_race_result by blast
  then have "ForwardCall \<in># tasks s" unfolding tasks_def by (intro task_member)
  with s schedule_run [OF s(1)] show ?thesis by blast
qed

definition undercount :: "choice list" where
  "undercount = CConnect # replicate 10 (CRun 0) @ [CForward, CRun 1, CHangUp 0, CRun 0, CConnect] @ replicate 10 (CRun 2)
     @ [CForward, CRun 3, CRun 1, CRun 1, CFire 0, CRun 4, CRun 4]"

lemma forward_undercounted:
  "\<exists>ls s. session_run demo_config demo_ref ls s \<and> inFlight s = 0 \<and> ForwardCall \<in># tasks s \<and>
     last (out s) = OSuspend demo_ref \<and> sink s = Some 1"
proof -
  have "case schedule demo_config undercount (new_session demo_ref) of None \<Rightarrow> False
     | Some (ls, s) \<Rightarrow> inFlight s = 0 \<and> 3 < length (gos s) \<and> gos s ! 3 = [ForwardCall, EndForward] \<and> last (out s) = OSuspend demo_ref \<and> sink s = Some 1"
    by code_simp
  then obtain ls s where s: "schedule demo_config undercount (new_session demo_ref) = Some (ls, s)"
    "inFlight s = 0" "3 < length (gos s)" "gos s ! 3 = [ForwardCall, EndForward]" "last (out s) = OSuspend demo_ref" "sink s = Some 1"
    by (auto split: option.splits)
  have "ForwardCall \<in># tasks s" unfolding tasks_def by (rule task_member [OF s(3,4)])
  with s schedule_run [OF s(1)] show ?thesis by blast
qed

text \<open>
  C40. There are executions in which the broker suspends an actor in the middle of a forwarded API call. In one
  the forward begins after the idle callback has decided and before it has called the control plane. In
  another the forward has been in flight all along: the actor reconnected during an earlier forward, whose
  end was then counted against the new one, so that the count is zero.
\<close>

theorem suspends_during_forward:
  "(\<exists>ls s. session_run demo_config demo_ref ls s \<and> inFlight s = 1 \<and> ForwardCall \<in># tasks s \<and> last (out s) = OSuspend demo_ref) \<and>
   (\<exists>ls s. session_run demo_config demo_ref ls s \<and> inFlight s = 0 \<and> ForwardCall \<in># tasks s \<and>
     last (out s) = OSuspend demo_ref \<and> sink s = Some 1)"
  using suspend_during_forward forward_undercounted by (rule conjI)

end
