(* ===== verification/ProtocolProps.thy ===== *)
theory ProtocolProps
  imports Frames
begin

text \<open>
  The properties of the wire protocol: envelopes survive encoding and decoding, the rewritten event
  frames carry the fresh id, and what rewriting does to unusual documents.
\<close>

section \<open>Envelopes\<close>

text \<open>
  C25. An envelope whose texts are valid UTF-8 and whose payload is a well-formed document decodes to
  itself after encoding; the payload comes back with its HTML characters escaped, as Go's encoder
  writes it.
\<close>

theorem envelope_round_trip:
  assumes "envelope_ok e"
  shows "DecodeEnvelope (mustJSON e) = Inr (e\<lparr>Payload := map_option json_html (Payload e)\<rparr>)"
  using DecodeEnvelope_encode [OF assms] by (simp add: mustJSON_def)

theorem envelope_round_trip_witness:
  "DecodeEnvelope helloFrame = Inr (empty_envelope\<lparr>Type := TypeHello, NumConnections := 1\<rparr>)"
proof -
  have "envelope_ok (empty_envelope\<lparr>Type := TypeHello, NumConnections := 1\<rparr>)" by code_simp
  from envelope_round_trip [OF this] show ?thesis by (simp add: helloFrame_def empty_envelope_def)
qed

section \<open>Rewriting\<close>

text \<open>
  C23. Rewriting an event frame never fails: the result decodes, and its envelope id is the fresh id,
  whatever ids the event carried and however often.
\<close>

theorem rewritten_event_has_fresh_id:
  assumes "DecodeEnvelope raw = Inr e" "IsEvent e" "valid_utf8 fresh"
  shows "\<exists>out e'. rewriteEnvelopeID raw fresh = Inr out \<and> DecodeEnvelope out = Inr e' \<and> EnvelopeID e' = fresh"
  by (rule rewriteEnvelopeID_event [OF assms(1) event_not_null [OF assms(1,2)] assms(3)])

definition twice_named :: bytes where
  \<open>twice_named = ''{"type":"events_api","envelope_id":"a","ENVELOPE_ID":"b"}''\<close>

theorem rewritten_event_has_fresh_id_witness:
  "\<exists>out e'. rewriteEnvelopeID twice_named ''f00d'' = Inr out \<and> DecodeEnvelope out = Inr e' \<and> EnvelopeID e' = ''f00d''"
proof (rule rewritten_event_has_fresh_id)
  show "DecodeEnvelope twice_named = Inr (empty_envelope\<lparr>Type := TypeEventsAPI, EnvelopeID := ''b''\<rparr>)" by code_simp
  show "IsEvent (empty_envelope\<lparr>Type := TypeEventsAPI, EnvelopeID := ''b''\<rparr>)" by code_simp
  show "valid_utf8 ''f00d''" by code_simp
qed

text \<open>
  C24. When no other field is spelled twice, rewriting changes nothing but the id: the decoded envelope
  has the same type, flags, connection count and reason, and the same payload up to HTML escapes.
\<close>

theorem rewritten_event_keeps_fields:
  assumes "json_parse raw = Some (JObj kvs)" "DecodeEnvelope raw = Inr e" "unambiguous kvs" "valid_utf8 fresh"
  shows "\<exists>out. rewriteEnvelopeID raw fresh = Inr out \<and>
    DecodeEnvelope out = Inr (e\<lparr>EnvelopeID := fresh, Payload := map_option json_html (Payload e)\<rparr>)"
  by (rule rewriteEnvelopeID_fields [OF assms])

definition with_payload :: bytes where
  \<open>with_payload = ''{"type":"slash_commands","payload":{"n":[1,2]},"envelope_id":"a"}''\<close>

theorem rewritten_event_keeps_fields_witness:
  "\<exists>out. rewriteEnvelopeID with_payload ''f00d'' = Inr out \<and>
    DecodeEnvelope out = Inr ((empty_envelope\<lparr>Type := TypeSlashCommands, EnvelopeID := ''a'',
      Payload := Some (JObj [(''n'', JArr [JNum ''1'', JNum ''2''])])\<rparr>)\<lparr>EnvelopeID := ''f00d'',
      Payload := map_option json_html (Some (JObj [(''n'', JArr [JNum ''1'', JNum ''2''])]))\<rparr>)"
proof -
  let ?kvs = "[(''type'', JStr ''slash_commands''), (''payload'', JObj [(''n'', JArr [JNum ''1'', JNum ''2''])]), (''envelope_id'', JStr ''a'')]"
  let ?e = "empty_envelope\<lparr>Type := TypeSlashCommands, EnvelopeID := ''a'', Payload := Some (JObj [(''n'', JArr [JNum ''1'', JNum ''2''])])\<rparr>"
  have 1: "json_parse with_payload = Some (JObj ?kvs)" by code_simp
  have 2: "DecodeEnvelope with_payload = Inr ?e" by code_simp
  have 3: "unambiguous ?kvs" by code_simp
  have 4: "valid_utf8 ''f00d''" by code_simp
  from rewritten_event_keeps_fields [OF 1 2 3 4] show ?thesis by simp
qed

text \<open>
  The document \<^verbatim>\<open>null\<close> decodes without an error, to an envelope that is no event; rewriting it
  panics, since the map it decodes to is nil.
\<close>

lemma rewriting_null_panics:
  "DecodeEnvelope ''null'' = Inr empty_envelope \<and> \<not> IsEvent empty_envelope \<and> rewriteEnvelopeID ''null'' fresh = Inl NilMapWrite"
proof -
  have "json_parse ''null'' = Some JNull" by code_simp
  moreover have "DecodeEnvelope ''null'' = Inr empty_envelope" by code_simp
  moreover have "\<not> IsEvent empty_envelope" by code_simp
  ultimately show ?thesis by (simp add: rewriteEnvelopeID_def)
qed

text \<open>
  Rewriting sorts the fields, and decoding takes the last of several spellings: an event that names
  its type twice, in two spellings, can change its type on the way to the actor.
\<close>

lemma rewriting_can_change_the_type:
  \<open>\<exists>raw e out e'. DecodeEnvelope raw = Inr e \<and> IsEvent e \<and> rewriteEnvelopeID raw ''f00d'' = Inr out \<and>
     DecodeEnvelope out = Inr e' \<and> Type e = TypeEventsAPI \<and> Type e' = TypeSlashCommands\<close>
proof -
  let ?raw = \<open>''{"type":"slash_commands","Type":"events_api"}''\<close>
  let ?out = \<open>''{"Type":"events_api","envelope_id":"f00d","type":"slash_commands"}''\<close>
  have "DecodeEnvelope ?raw = Inr (empty_envelope\<lparr>Type := TypeEventsAPI\<rparr>)" by code_simp
  moreover have "rewriteEnvelopeID ?raw ''f00d'' = Inr ?out" by code_simp
  moreover have "DecodeEnvelope ?out = Inr (empty_envelope\<lparr>Type := TypeSlashCommands, EnvelopeID := ''f00d''\<rparr>)" by code_simp
  moreover have "IsEvent (empty_envelope\<lparr>Type := TypeEventsAPI\<rparr>)" by code_simp
  ultimately show ?thesis by (intro exI [of _ ?raw] exI [of _ "empty_envelope\<lparr>Type := TypeEventsAPI\<rparr>"] exI [of _ ?out]
      exI [of _ "empty_envelope\<lparr>Type := TypeSlashCommands, EnvelopeID := ''f00d''\<rparr>"]) simp
qed

section \<open>Event callbacks\<close>

text \<open>
  Only an \<^verbatim>\<open>events_api\<close> envelope has an event callback; a message of a bot, without a user or with a
  subtype (an edit, a join, the bot's own echo) is never taken for a message written by a person.
\<close>

lemma callback_and_human_message:
  "(ParseEventCallback e = Inr cb \<longrightarrow> IsEvent e \<and> \<not> IsConnectionManagement e \<and> Payload e \<noteq> None) \<and>
   (Type e \<noteq> TypeEventsAPI \<longrightarrow> ParseEventCallback e = Inl (NotEventsAPI (Type e))) \<and>
   (IsHumanMessage m \<longleftrightarrow> EvType m \<in> {''message'', ''app_mention''} \<and> Subtype m = [] \<and> BotID m = [] \<and> User m \<noteq> [])"
  by (auto simp: ParseEventCallback_def IsEvent_def IsConnectionManagement_def envelope_types IsHumanMessage_def
      split: if_splits option.splits)

end
