(* ===== verification/Store.thy ===== *)
theory Store
  imports Main "HOL-Library.AList"
begin

text \<open>
  The interface of the broker's tables (sessions by actor, tickets by token, certificates by
  name): what a lookup returns after an insertion or a deletion, and what follows from it for any
  sequence of them.
\<close>

section \<open>Operations on a table\<close>

datatype ('k, 'v) table_op = Put 'k 'v | Del 'k

fun op_key :: "('k, 'v) table_op \<Rightarrow> 'k" where
  "op_key (Put k v) = k"
| "op_key (Del k) = k"

fun op_value :: "('k, 'v) table_op \<Rightarrow> 'v option" where
  "op_value (Put k v) = Some v"
| "op_value (Del k) = None"

section \<open>The interface\<close>

locale keyed_store =
  fixes look :: "'k \<Rightarrow> 's \<Rightarrow> 'v option" and put :: "'k \<Rightarrow> 'v \<Rightarrow> 's \<Rightarrow> 's"
  assumes look_put: "look k (put k' v s) = (if k = k' then Some v else look k s)"
begin

lemma put_present: "look k (put k v s) = Some v"
  by (simp add: look_put)

lemma put_other: "k \<noteq> k' \<Longrightarrow> look k (put k' v s) = look k s"
  by (simp add: look_put)

lemma puts_other: "k \<notin> fst ` set kvs \<Longrightarrow> look k (fold (\<lambda>(k, v). put k v) kvs s) = look k s"
  by (induction kvs arbitrary: s) (auto simp: look_put)

lemma puts_dom: "look k (fold (\<lambda>(k, v). put k v) kvs s) \<noteq> None \<longleftrightarrow> look k s \<noteq> None \<or> k \<in> fst ` set kvs"
  by (induction kvs arbitrary: s) (auto simp: look_put)

end

locale deleting_store = keyed_store look put
  for look :: "'k \<Rightarrow> 's \<Rightarrow> 'v option" and put :: "'k \<Rightarrow> 'v \<Rightarrow> 's \<Rightarrow> 's" +
  fixes del :: "'k \<Rightarrow> 's \<Rightarrow> 's"
  assumes look_del: "look k (del k' s) = (if k = k' then None else look k s)"
begin

lemma del_absent: "look k (del k s) = None"
  by (simp add: look_del)

lemma del_other: "k \<noteq> k' \<Longrightarrow> look k (del k' s) = look k s"
  by (simp add: look_del)

text \<open>After any operations a key holds what the last operation on it left there.\<close>

lemma last_op:
  "look k (fold (\<lambda>t. case t of Put k v \<Rightarrow> put k v | Del k \<Rightarrow> del k) ts s) =
    (case find (\<lambda>t. op_key t = k) (rev ts) of None \<Rightarrow> look k s | Some t \<Rightarrow> op_value t)"
proof (induction ts rule: rev_induct)
  case (snoc t ts)
  then show ?case by (cases t) (auto simp: look_put look_del)
qed simp

end

section \<open>Association lists\<close>

interpretation alist: deleting_store "\<lambda>k m. map_of m k" AList.update AList.delete
  by unfold_locales (auto simp: update_conv delete_conv)

end
