(* ===== verification/Registry.thy ===== *)
theory Registry
  imports Session Store
begin

text \<open>
  The registry of sessions, \<^verbatim>\<open>cmd/egress-broker/registry.go\<close>: one session per actor. The state of a
  session, which Go reaches through a pointer, is kept in the registry's table and updated there.
\<close>

section \<open>Operations\<close>

record Registry =
  reg_config :: "ActorRef \<Rightarrow> config"
  sessions :: "(ActorRef \<times> session) list"

text \<open>
  The delays are the same for all sessions; the random source and the answers of the outside are
  a session's own.
\<close>

definition NewRegistry :: "duration \<Rightarrow> duration \<Rightarrow> (ActorRef \<Rightarrow> config) \<Rightarrow> Registry" where
  "NewRegistry delay grace cf = \<lparr>reg_config = (\<lambda>r. (cf r)\<lparr>deliverDelay := delay, idleGrace := grace\<rparr>), sessions = []\<rparr>"

definition Lookup :: "ActorRef \<Rightarrow> Registry \<Rightarrow> session option" where
  "Lookup r reg = map_of (sessions reg) r"

definition put_session :: "ActorRef \<Rightarrow> session \<Rightarrow> Registry \<Rightarrow> Registry" where
  "put_session r s reg = reg\<lparr>sessions := AList.update r s (sessions reg)\<rparr>"

definition GetOrCreate :: "ActorRef \<Rightarrow> Registry \<Rightarrow> session \<times> Registry" where
  "GetOrCreate r reg = (case Lookup r reg of
     Some s \<Rightarrow> (s, reg)
   | None \<Rightarrow> (new_session r, put_session r (new_session r) reg))"

section \<open>Facts\<close>

interpretation registry: keyed_store Lookup put_session
  by unfold_locales (auto simp: Lookup_def put_session_def update_conv)

lemma GetOrCreate_lookup: "Lookup r (snd (GetOrCreate r reg)) = Some (fst (GetOrCreate r reg))"
  by (simp add: GetOrCreate_def registry.put_present split: option.split)

lemma GetOrCreate_other: "r' \<noteq> r \<Longrightarrow> Lookup r' (snd (GetOrCreate r reg)) = Lookup r' reg"
  by (simp add: GetOrCreate_def registry.put_other split: option.split)

text \<open>Every session of the table is the session of its key.\<close>

definition registry_wf :: "Registry \<Rightarrow> bool" where
  "registry_wf reg \<longleftrightarrow> distinct (map fst (sessions reg)) \<and> (\<forall>(r, s) \<in> set (sessions reg). ref s = r)"

lemma registry_wf_Lookup: "registry_wf reg \<Longrightarrow> Lookup r reg = Some s \<Longrightarrow> ref s = r"
  by (auto simp: registry_wf_def Lookup_def dest: map_of_SomeD)

lemma update_entries: "set (AList.update k v m) \<subseteq> insert (k, v) (set m)"
  by (induction m) auto

lemma registry_wf_put: "registry_wf reg \<Longrightarrow> ref s = r \<Longrightarrow> registry_wf (put_session r s reg)"
  using update_entries [of r s "sessions reg"] by (auto simp: registry_wf_def put_session_def distinct_update)

lemma registry_wf_GetOrCreate: "registry_wf reg \<Longrightarrow> registry_wf (snd (GetOrCreate r reg))"
  by (auto simp: GetOrCreate_def new_session_def intro: registry_wf_put split: option.split)

lemma registry_wf_new: "registry_wf (NewRegistry delay grace cf)"
  by (simp add: registry_wf_def NewRegistry_def)

lemma GetOrCreate_ref: "registry_wf reg \<Longrightarrow> ref (fst (GetOrCreate r reg)) = r"
  by (auto simp: GetOrCreate_def new_session_def registry_wf_Lookup split: option.split)

end
