(* ===== verification/Server.thy ===== *)
theory Server
  imports Registry Http
begin

text \<open>
  The actor-facing HTTP server, \<^verbatim>\<open>cmd/egress-broker/server.go\<close>: tickets, actor identities,
  \<^verbatim>\<open>apps.connections.open\<close>, the Socket Mode endpoint and the forwarding of other API calls.

  A handler maps the server's state to the response and the new state. What comes from outside is
  in \<open>http_env\<close>: the clock, the answers of the locator, whether the upgrade to a WebSocket succeeds and
  what the actor then sends, and the answer of the real Slack to a forwarded request. Times are in
  nanoseconds.
\<close>

section \<open>State\<close>

record ticketEntry =
  ticket_ref :: ActorRef
  expires :: int

record Server =
  reg :: Registry
  wssHost :: bytes
  wssPath :: bytes
  apiBaseURL :: bytes
  tickets :: "(bytes \<times> ticketEntry) list"
  srv_rand :: rand_source
  srv_draws :: nat

definition NewServer :: "Registry \<Rightarrow> bytes \<Rightarrow> bytes \<Rightarrow> bytes \<Rightarrow> rand_source \<Rightarrow> Server" where
  "NewServer rg base host path src = \<lparr>reg = rg, wssHost = host, wssPath = path, apiBaseURL = base,
     tickets = [], srv_rand = src, srv_draws = 0\<rparr>"

definition goldenAtespace :: bytes where
  "goldenAtespace = ''ate-golden''"

section \<open>Helpers\<close>

definition parseActorRef :: "bytes \<Rightarrow> ActorRef option" where
  "parseActorRef v = (case IndexByte v (CHR ''/'') of
     None \<Rightarrow> None
   | Some i \<Rightarrow>
       (if i = 0 \<or> i \<ge> length v - 1 then None
        else if CHR ''/'' \<in> set (drop (i + 1) v) then None
        else Some \<lparr>Atespace = take i v, Name = drop (i + 1) v\<rparr>))"

definition bearer_prefix :: bytes where
  "bearer_prefix = ''Bearer ''"

definition bearerToken :: "bytes \<Rightarrow> bytes" where
  "bearerToken h =
     (if length h > length bearer_prefix \<and> EqualFold (take (length bearer_prefix) h) bearer_prefix
      then TrimSpace (drop (length bearer_prefix) h) else [])"

definition remoteIP :: "bytes \<Rightarrow> bytes" where
  "remoteIP addr = (case SplitHostPort addr of Inl _ \<Rightarrow> addr | Inr hp \<Rightarrow> fst hp)"

definition writeJSON :: "nat \<Rightarrow> json \<Rightarrow> response" where
  "writeJSON status v = \<lparr>Status = status, RespHeader = Header_Set ''Content-Type'' ''application/json'' [],
     RespBody = json_print v @ [CHR 0x0A]\<rparr>"

definition http_Error :: "bytes \<Rightarrow> nat \<Rightarrow> response" where
  "http_Error msg status = \<lparr>Status = status,
     RespHeader = Header_Set ''X-Content-Type-Options'' ''nosniff''
       (Header_Set ''Content-Type'' ''text/plain; charset=utf-8'' []),
     RespBody = msg @ [CHR 0x0A]\<rparr>"

definition copyHeader :: "header \<Rightarrow> header \<Rightarrow> header" where
  "copyHeader dst src = fold (\<lambda>(k, vs) h. fold (\<lambda>v h. Header_Add k v h) vs h) src dst"

section \<open>Tickets\<close>

definition ticket_life :: int where
  "ticket_life = 2 * 60 * 1000000000"

definition issueTicket :: "int \<Rightarrow> ActorRef \<Rightarrow> Server \<Rightarrow> bytes \<times> Server" where
  "issueTicket now r srv =
     (let t = hex_EncodeToString (rand_Read (srv_rand srv) (srv_draws srv) 16)
      in (t, srv\<lparr>srv_draws := srv_draws srv + 1,
                 tickets := AList.update t \<lparr>ticket_ref = r, expires = now + ticket_life\<rparr> (tickets srv)\<rparr>))"

definition redeemTicket :: "int \<Rightarrow> bytes \<Rightarrow> Server \<Rightarrow> ActorRef option \<times> Server" where
  "redeemTicket now t srv = (case map_of (tickets srv) t of
     None \<Rightarrow> (None, srv\<lparr>tickets := AList.delete t (tickets srv)\<rparr>)
   | Some e \<Rightarrow>
       (if now > expires e then (None, srv\<lparr>tickets := AList.delete t (tickets srv)\<rparr>)
        else (Some (ticket_ref e), srv\<lparr>tickets := AList.delete t (tickets srv)\<rparr>)))"

section \<open>Identifying the caller\<close>

datatype 'e locate_fail = LocateErr 'e | CtxDone

text \<open>
  \<open>loc i\<close> is the locator's answer to attempt \<open>i\<close>; \<open>done i\<close> says that the request's context ends
  during the wait after it.
\<close>

fun locate_loop :: "nat \<Rightarrow> nat \<Rightarrow> 'e option \<Rightarrow> (nat \<Rightarrow> 'e + ActorRef) \<Rightarrow> (nat \<Rightarrow> bool) \<Rightarrow> 'e locate_fail + ActorRef" where
  "locate_loop 0 i lastErr loc done' = (case lastErr of Some e \<Rightarrow> Inl (LocateErr e) | None \<Rightarrow> Inr empty_ref)"
| "locate_loop (Suc n) i lastErr loc done' = (case loc i of
     Inr r \<Rightarrow> Inr r
   | Inl e \<Rightarrow> (if done' i then Inl CtxDone else locate_loop n (Suc i) (Some e) loc done'))"

definition locateWithRetry :: "(nat \<Rightarrow> 'e + ActorRef) \<Rightarrow> (nat \<Rightarrow> bool) \<Rightarrow> 'e locate_fail + ActorRef" where
  "locateWithRetry loc done' = locate_loop 20 0 None loc done'"

definition header_ref :: "request \<Rightarrow> ActorRef option" where
  "header_ref r = (let h = TrimSpace (Header_Get (Header r) ''X-Ate-Actor'') in if h \<noteq> [] then parseActorRef h else None)"

section \<open>The outside\<close>

text \<open>
  What an actor's connection delivers: a message, or a ping with what came of writing the pong. The
  ping handler forgives two errors; any other ends the read loop.
\<close>

datatype pong_error = ErrCloseSent | PongTimeout | OtherPongError

definition pong_fatal :: "pong_error option \<Rightarrow> bool" where
  "pong_fatal r = (case r of
     None \<Rightarrow> False
   | Some e \<Rightarrow> (if e = ErrCloseSent then False else if e = PongTimeout then False else True))"

datatype incoming = InPing "pong_error option" | InMessage bytes

record outgoing =
  out_method :: bytes
  out_url :: bytes
  out_header :: header
  out_body :: bytes

record 'e http_env =
  now :: int
  locate :: "bytes \<Rightarrow> nat \<Rightarrow> 'e + ActorRef"
  ctx_done :: "nat \<Rightarrow> bool"
  upgrade_ok :: bool
  frames_in :: "incoming list"
  valid_request :: "bytes \<Rightarrow> bytes \<Rightarrow> bool"
  Do :: "outgoing \<Rightarrow> 'e + response"

section \<open>Handlers\<close>

definition update_session :: "ActorRef \<Rightarrow> (session \<Rightarrow> session) \<Rightarrow> Server \<Rightarrow> Server" where
  "update_session r f srv =
     (let g = GetOrCreate r (reg srv) in srv\<lparr>reg := put_session r (f (fst g)) (snd g)\<rparr>)"

definition open_answer :: "ConnectionsOpenResponse \<Rightarrow> response" where
  "open_answer o' = writeJSON 200 (encode_open_response o')"

definition ticket_answer :: "'e http_env \<Rightarrow> ActorRef \<Rightarrow> Server \<Rightarrow> response \<times> Server" where
  "ticket_answer env r srv =
     (let t = issueTicket (now env) r srv
      in (open_answer \<lparr>OK = True, URL = URL_String (wssHost srv) (wssPath srv) (''ticket='' @ fst t), Error = []\<rparr>, snd t))"

definition identify :: "'e http_env \<Rightarrow> request \<Rightarrow> 'e locate_fail + ActorRef" where
  "identify env q = (case header_ref q of
     Some r \<Rightarrow> Inr r
   | None \<Rightarrow> locateWithRetry (locate env (remoteIP (RemoteAddr q))) (ctx_done env))"

definition handleConnectionsOpen :: "'e http_env \<Rightarrow> request \<Rightarrow> Server \<Rightarrow> response \<times> Server" where
  "handleConnectionsOpen env q srv =
     (let token = bearerToken (Header_Get (Header q) ''Authorization'')
      in if token = [] then (open_answer \<lparr>OK = False, URL = [], Error = ''not_authed''\<rparr>, srv)
         else (case identify env q of
            Inl _ \<Rightarrow> (open_answer \<lparr>OK = False, URL = [], Error = ''ws-poc_actor_not_identified''\<rparr>, srv)
          | Inr r \<Rightarrow>
              (if Atespace r = goldenAtespace then ticket_answer env r srv
               else ticket_answer env r (update_session r (EnsureStarted token) srv))))"

fun serve :: "config \<Rightarrow> sink_id \<Rightarrow> incoming list \<Rightarrow> session \<Rightarrow> go_panic + session" where
  "serve c sk [] s = Inr s"
| "serve c sk (InPing pong # ins) s = (case MarkReady c sk s of
     Inl p \<Rightarrow> Inl p | Inr s' \<Rightarrow> (if pong_fatal pong then Inr s' else serve c sk ins s'))"
| "serve c sk (InMessage d # ins) s = serve c sk ins
     (case DecodeEnvelope d of
        Inr e \<Rightarrow> (if EnvelopeID e \<noteq> [] then Ack_event c (EnvelopeID e) s else s)
      | Inl _ \<Rightarrow> s)"

definition serve_connection :: "config \<Rightarrow> incoming list \<Rightarrow> session \<Rightarrow> go_panic + session" where
  "serve_connection c ins s0 =
     (let sk = nextSink s0; s = s0\<lparr>nextSink := sk + 1\<rparr>
      in (case Attach c sk s of
            Inl p \<Rightarrow> Inl p
          | Inr s1 \<Rightarrow> (case serve c sk ins s1 of Inl p \<Rightarrow> Inl p | Inr s2 \<Rightarrow> Inr (Detach sk s2))))"

text \<open>
  The keepalive goroutine: at each turn the ticker fires, and the ping is written or fails, or the
  handler has closed \<^verbatim>\<open>stopPing\<close>. It returns the number of pings. It touches neither the session nor the
  server, so \<open>handleActorSocket\<close> leaves it aside.
\<close>

definition actorPingInterval :: int where
  "actorPingInterval = 5 * 1000000000"

datatype ping_turn = Tick bool | StopPing

fun keepalive :: "ping_turn list \<Rightarrow> nat" where
  "keepalive [] = 0"
| "keepalive (StopPing # ps) = 0"
| "keepalive (Tick ok # ps) = (if ok then Suc (keepalive ps) else 1)"

definition handleActorSocket :: "'e http_env \<Rightarrow> request \<Rightarrow> Server \<Rightarrow> response option \<times> (go_panic + Server)" where
  "handleActorSocket env q srv0 =
     (let t = redeemTicket (now env) (query_get ''ticket'' (RawQuery q)) srv0; srv = snd t
      in (case fst t of
            None \<Rightarrow> (Some (http_Error ''invalid or expired ticket'' 401), Inr srv)
          | Some r \<Rightarrow>
              (if \<not> upgrade_ok env then (None, Inr srv)
               else (let g = GetOrCreate r (reg srv)
                     in (None, case serve_connection (reg_config (reg srv) r) (frames_in env) (fst g) of
                          Inl p \<Rightarrow> Inl p | Inr s \<Rightarrow> Inr (srv\<lparr>reg := put_session r s (snd g)\<rparr>))))))"

text \<open>The call \<^verbatim>\<open>beginForward\<close>, and the deferred \<^verbatim>\<open>endForward\<close>, on the caller's session if it has one.\<close>

definition on_caller :: "(config \<Rightarrow> session \<Rightarrow> session) \<Rightarrow> request \<Rightarrow> Server \<Rightarrow> Server" where
  "on_caller f q srv = (case header_ref q of
     None \<Rightarrow> srv
   | Some r \<Rightarrow> (case Lookup r (reg srv) of
        None \<Rightarrow> srv
      | Some s \<Rightarrow> srv\<lparr>reg := put_session r (f (reg_config (reg srv) r) s) (reg srv)\<rparr>))"

definition forward_request :: "request \<Rightarrow> Server \<Rightarrow> outgoing" where
  "forward_request q srv = \<lparr>out_method = Method q,
     out_url = apiBaseURL srv @ Path q @ (if RawQuery q \<noteq> [] then CHR ''?'' # RawQuery q else []),
     out_header = Header_Del ''Accept-Encoding'' (copyHeader [] (Header q)), out_body = Body q\<rparr>"

definition relayed :: "'e + response \<Rightarrow> response" where
  "relayed r = (case r of
     Inl _ \<Rightarrow> http_Error ''bad gateway'' 502
   | Inr p \<Rightarrow> \<lparr>Status = Status p, RespHeader = copyHeader [] (RespHeader p), RespBody = RespBody p\<rparr>)"

definition handlePassthrough :: "'e http_env \<Rightarrow> request \<Rightarrow> Server \<Rightarrow> response \<times> Server" where
  "handlePassthrough env q srv =
     (let o' = forward_request q srv
      in if \<not> valid_request env (out_method o') (out_url o') then (http_Error ''bad gateway'' 502, srv)
         else (let srv1 = on_caller (\<lambda>c. beginForward) q srv;
                   resp = relayed (Do env o')
               in (resp, on_caller endForward q srv1)))"

definition ServeHTTP :: "'e http_env \<Rightarrow> request \<Rightarrow> Server \<Rightarrow> response option \<times> (go_panic + Server)" where
  "ServeHTTP env q srv =
     (if Path q = wssPath srv then handleActorSocket env q srv
      else if Method q = ''POST'' \<and> Path q = PathConnectionsOpen
      then (let r = handleConnectionsOpen env q srv in (Some (fst r), Inr (snd r)))
      else (let r = handlePassthrough env q srv in (Some (fst r), Inr (snd r))))"

section \<open>Facts: keepalive\<close>

text \<open>No ping is sent after the handler stopped the keepalive, or after one that failed.\<close>

lemma keepalive_stops: "keepalive (ps @ StopPing # qs) = keepalive ps" "keepalive (ps @ Tick False # qs) = keepalive (ps @ [Tick False])"
  by (induction ps rule: keepalive.induct) auto

section \<open>Facts: identities\<close>

lemma parseActorRef_Some:
  "parseActorRef v = Some r \<longleftrightarrow> v = ActorRef_String r \<and> Atespace r \<noteq> [] \<and> Name r \<noteq> [] \<and>
     CHR ''/'' \<notin> set (Atespace r) \<and> CHR ''/'' \<notin> set (Name r)"
proof
  assume "parseActorRef v = Some r"
  then obtain i where i: "IndexByte v (CHR ''/'') = Some i" "i \<noteq> 0" "\<not> i \<ge> length v - 1"
    "CHR ''/'' \<notin> set (drop (i + 1) v)" "r = \<lparr>Atespace = take i v, Name = drop (i + 1) v\<rparr>"
    by (auto simp: parseActorRef_def split: option.splits if_splits)
  then have "i < length v" "v ! i = CHR ''/''" "CHR ''/'' \<notin> set (take i v)" by (auto simp: IndexByte_Some_iff)
  then have "v = take i v @ CHR ''/'' # drop (i + 1) v" by (metis Suc_eq_plus1 id_take_nth_drop)
  with i show "v = ActorRef_String r \<and> Atespace r \<noteq> [] \<and> Name r \<noteq> [] \<and>
     CHR ''/'' \<notin> set (Atespace r) \<and> CHR ''/'' \<notin> set (Name r)"
    using \<open>CHR ''/'' \<notin> set (take i v)\<close> by (auto simp: ActorRef_String_def)
next
  assume r: "v = ActorRef_String r \<and> Atespace r \<noteq> [] \<and> Name r \<noteq> [] \<and>
     CHR ''/'' \<notin> set (Atespace r) \<and> CHR ''/'' \<notin> set (Name r)"
  then have "IndexByte v (CHR ''/'') = Some (length (Atespace r))" by (simp add: ActorRef_String_def IndexByte_append_Cons)
  with r show "parseActorRef v = Some r" by (auto simp: parseActorRef_def ActorRef_String_def)
qed

lemma locate_loop_found:
  "(\<And>j. j < m \<Longrightarrow> \<exists>e. loc (i + j) = Inl e \<and> \<not> done' (i + j)) \<Longrightarrow> loc (i + m) = Inr r \<Longrightarrow> m < n \<Longrightarrow>
     locate_loop n i lastErr loc done' = Inr r"
proof (induction n arbitrary: i m lastErr)
  case (Suc n)
  show ?case
  proof (cases m)
    case 0
    with Suc.prems show ?thesis by simp
  next
    case (Suc m')
    have "\<exists>e. loc (Suc i + j) = Inl e \<and> \<not> done' (Suc i + j)" if "j < m'" for j
      using Suc.prems(1) [of "Suc j"] that Suc by simp
    from Suc.IH [OF this] have "locate_loop n (Suc i) l loc done' = Inr r" for l using Suc.prems(2,3) Suc by simp
    moreover obtain e where "loc i = Inl e" "\<not> done' i" using Suc.prems(1) [of 0] Suc by auto
    ultimately show ?thesis by simp
  qed
qed simp

lemma locate_loop_origin:
  "locate_loop n i lastErr loc done' = Inr r \<Longrightarrow> lastErr \<noteq> None \<or> 0 < n \<Longrightarrow> \<exists>j < n. loc (i + j) = Inr r \<and> (\<forall>k < j. \<exists>e. loc (i + k) = Inl e)"
proof (induction n arbitrary: i lastErr)
  case 0
  then show ?case by (auto split: option.splits)
next
  case (Suc n)
  show ?case
  proof (cases "loc i")
    case (Inl e)
    with Suc.prems have "locate_loop n (Suc i) (Some e) loc done' = Inr r" by (simp split: if_splits)
    from Suc.IH [OF this] obtain j where "j < n" "loc (Suc i + j) = Inr r" "\<forall>k < j. \<exists>e. loc (Suc i + k) = Inl e" by auto
    with Inl show ?thesis
      by (intro exI [of _ "Suc j"]) (auto simp: less_Suc_eq_0_disj)
  next
    case (Inr r')
    with Suc.prems show ?thesis by (intro exI [of _ 0]) simp
  qed
qed

section \<open>Facts: tickets\<close>

definition look_ticket :: "bytes \<Rightarrow> Server \<Rightarrow> ticketEntry option" where
  "look_ticket t srv = map_of (tickets srv) t"

definition put_ticket :: "bytes \<Rightarrow> ticketEntry \<Rightarrow> Server \<Rightarrow> Server" where
  "put_ticket t e srv = srv\<lparr>tickets := AList.update t e (tickets srv)\<rparr>"

definition del_ticket :: "bytes \<Rightarrow> Server \<Rightarrow> Server" where
  "del_ticket t srv = srv\<lparr>tickets := AList.delete t (tickets srv)\<rparr>"

interpretation ticket_table: deleting_store look_ticket put_ticket del_ticket
  by unfold_locales (auto simp: look_ticket_def put_ticket_def del_ticket_def update_conv delete_conv)

lemma redeemTicket_result:
  "redeemTicket at t srv = ((case look_ticket t srv of None \<Rightarrow> None
     | Some e \<Rightarrow> if at > expires e then None else Some (ticket_ref e)), del_ticket t srv)"
  by (simp add: redeemTicket_def look_ticket_def del_ticket_def split: option.split)

definition next_ticket :: "Server \<Rightarrow> bytes" where
  "next_ticket srv = hex_EncodeToString (rand_Read (srv_rand srv) (srv_draws srv) 16)"

lemma issueTicket_result:
  "issueTicket at r srv = (next_ticket srv,
     put_ticket (next_ticket srv) \<lparr>ticket_ref = r, expires = at + ticket_life\<rparr> (srv\<lparr>srv_draws := srv_draws srv + 1\<rparr>))"
  by (simp add: issueTicket_def next_ticket_def put_ticket_def Let_def)

lemma hex_chars: "x \<in> set (hex_EncodeToString bs) \<Longrightarrow> x \<notin> set ''%+&;=''"
proof -
  assume "x \<in> set (hex_EncodeToString bs)"
  then obtain n where n: "x = hex_digit n" "n < 16" using nibbles by (auto simp: hex_EncodeToString_def hex_byte_def)
  then have "48 \<le> byte x \<and> byte x \<le> 57 \<or> 97 \<le> byte x" by (auto simp: byte_hex_digit)
  then show ?thesis by auto
qed

lemma query_get_ticket: "query_get ''ticket'' (''ticket='' @ next_ticket srv) = next_ticket srv"
  using query_get_single [of "''ticket''" "next_ticket srv"] hex_chars [of _ "rand_Read (srv_rand srv) (srv_draws srv) 16"]
  by (auto simp: next_ticket_def)

end
