(* ===== verification/ServerInv.thy ===== *)
theory ServerInv
  imports SessionRun Server
begin

text \<open>
  What holds between requests: every session in the registry is the session of its key and
  satisfies the session's invariants, no handler panics, and an actor of the golden atespace never
  gets a Slack loop. The handlers' session methods are goroutines running alone, so the session's
  invariants carry over from the regions.
\<close>

section \<open>Sessions between requests\<close>

definition core_ok :: "session \<Rightarrow> bool" where
  "core_ok s \<longleftrightarrow> idle_inv s \<and> ids_inv s \<and> (\<forall>e \<in> set (buffer s). is_event_raw (event_raw e))"

definition session_ok :: "session \<Rightarrow> bool" where
  "session_ok s \<longleftrightarrow> core_ok s \<and> \<not> sinkWrite s"

definition quiet_task :: "task \<Rightarrow> bool" where
  "quiet_task t \<longleftrightarrow> good_task t \<and> (case t of Start token \<Rightarrow> False | _ \<Rightarrow> True)"

lemma exec_no_start: "exec c t s = Some (Inr (ts', s')) \<Longrightarrow> t' \<in> set ts' \<Longrightarrow> (case t' of Start token \<Rightarrow> False | _ \<Rightarrow> True)"
  by (cases t) (auto simp: plan_tasks_def read_tasks_def Let_def
      split: if_splits option.splits sum.splits list.splits event_plan.splits reply.splits)

lemma exec_core:
  assumes "exec c t s = Some (Inr (ts', s'))" "quiet_task t" "core_ok s"
  shows "core_ok s'" "started s' = started s" "ref s' = ref s" "\<forall>t' \<in> set ts'. quiet_task t'"
proof -
  have good: "good_task t" using assms(2) by (simp add: quiet_task_def)
  show "core_ok s'"
    using assms(3) exec_idle_inv [OF assms(1)] exec_ids_inv [OF assms(1)] exec_buffer_events [OF assms(1) good]
    by (auto simp: core_ok_def)
  show "started s' = started s" using exec_started [OF assms(1)] assms(2) by (auto simp: quiet_task_def Close_def split: if_splits)
  show "ref s' = ref s" by (rule exec_ref [OF assms(1)])
  show "\<forall>t' \<in> set ts'. quiet_task t'"
    using exec_good [OF assms(1) good] exec_no_start [OF assms(1)] by (auto simp: quiet_task_def)
qed

lemma finishes_core:
  assumes "finishes c g s r" "\<forall>t \<in> set g. quiet_task t" "core_ok s"
  shows "\<exists>s'. r = Inr s' \<and> core_ok s' \<and> started s' = started s \<and> ref s' = ref s"
  using assms
proof (induction rule: finishes.induct)
  case (finishes_step t s ts' s' ts r)
  from finishes_step.prems have t: "quiet_task t" by simp
  from finishes_step.IH exec_core [OF finishes_step.hyps(1) t finishes_step.prems(2)] finishes_step.prems(1)
  show ?case by (simp add: ball_Un)
next
  case (finishes_panic t s p ts)
  then show ?case using exec_good_no_panic [of t s c p] by (auto simp: quiet_task_def core_ok_def)
qed simp

section \<open>The methods the handlers call\<close>

lemma Attach_lock: "Attach c sk s = Inr s' \<Longrightarrow> \<not> sinkWrite s'"
  by (auto simp: Attach_def deliverBufferedNow_def Let_def writeToSink_def noteActivity_def dest!: deliver_locked_state
      split: if_splits sum.splits option.splits)

lemma deliver_now_lock: "deliverBufferedNow c sk s = Inr s' \<Longrightarrow> \<not> sinkWrite s \<Longrightarrow> \<not> sinkWrite s'"
  by (auto simp: deliverBufferedNow_def writeToSink_def noteActivity_def dest!: deliver_locked_state
      split: sum.splits option.splits)

definition keeps :: "(session \<Rightarrow> session) \<Rightarrow> bool" where
  "keeps f \<longleftrightarrow> (\<forall>s. session_ok s \<longrightarrow> session_ok (f s) \<and> started (f s) = started s \<and> ref (f s) = ref s)"

lemma keepsD: "keeps f \<Longrightarrow> session_ok s \<Longrightarrow> session_ok (f s) \<and> started (f s) = started s \<and> ref (f s) = ref s"
  by (simp add: keeps_def)

lemma keeps_exec:
  assumes "\<And>s. exec c t s = Some (Inr ([], f s))" "quiet_task t" "\<And>s. sinkWrite (f s) = sinkWrite s"
  shows "keeps f"
  unfolding keeps_def session_ok_def using exec_core [OF assms(1,2)] assms(3) by simp

lemma keeps_Ack: "keeps (Ack_event c i)"
  by (rule keeps_exec [of c "AckEvent i"]) (auto simp: quiet_task_def good_task_def Ack_event_def split: option.split)

lemma keeps_Detach: "keeps (Detach sk)"
  by (rule keeps_exec [of undefined "DetachSink sk"]) (auto simp: quiet_task_def good_task_def Detach_def)

lemma keeps_begin: "keeps beginForward"
  by (rule keeps_exec [of undefined BeginForward]) (auto simp: quiet_task_def good_task_def beginForward_def)

lemma keeps_end: "keeps (endForward c)"
  by (rule keeps_exec [of c EndForward]) (auto simp: quiet_task_def good_task_def endForward_def)

lemma MarkReady_ok:
  assumes "session_ok s"
  shows "\<exists>s'. MarkReady c sk s = Inr s' \<and> session_ok s' \<and> started s' = started s \<and> ref s' = ref s"
proof -
  have "finishes c [DeliverBuffered sk] s (MarkReady c sk s)"
    using finishes_deliver [of s c sk] assms by (simp add: MarkReady_def session_ok_def)
  from finishes_core [OF this] obtain s' where "MarkReady c sk s = Inr s'" "core_ok s'" "started s' = started s" "ref s' = ref s"
    using assms by (auto simp: quiet_task_def good_task_def session_ok_def)
  with assms show ?thesis using deliver_now_lock [of c sk s s'] by (auto simp: MarkReady_def session_ok_def)
qed

lemma Attach_ok:
  assumes "session_ok s"
  shows "\<exists>s'. Attach c sk s = Inr s' \<and> session_ok s' \<and> started s' = started s \<and> ref s' = ref s"
proof -
  have "finishes c [AttachSink sk] s (Attach c sk s)" using finishes_attach [of s c sk] assms by (simp add: session_ok_def)
  from finishes_core [OF this] obtain s' where "Attach c sk s = Inr s'" "core_ok s'" "started s' = started s" "ref s' = ref s"
    using assms by (auto simp: quiet_task_def good_task_def session_ok_def)
  then show ?thesis using Attach_lock [of c sk s s'] by (auto simp: session_ok_def)
qed

lemma serve_ok:
  "session_ok s \<Longrightarrow> \<exists>s'. serve c sk ins s = Inr s' \<and> session_ok s' \<and> started s' = started s \<and> ref s' = ref s"
proof (induction c sk ins s rule: serve.induct)
  case (2 c sk fatal ins s)
  then obtain s1 where "MarkReady c sk s = Inr s1" "session_ok s1" "started s1 = started s" "ref s1 = ref s"
    using MarkReady_ok by blast
  with 2 show ?case by (cases fatal) auto
next
  case (3 c sk d ins s)
  let ?s = "case DecodeEnvelope d of Inr e \<Rightarrow> (if EnvelopeID e \<noteq> [] then Ack_event c (EnvelopeID e) s else s) | Inl _ \<Rightarrow> s"
  have "session_ok ?s \<and> started ?s = started s \<and> ref ?s = ref s"
    using keepsD [OF keeps_Ack 3(2)] 3(2) by (auto split: sum.split)
  with 3 show ?case by simp
qed simp

lemma serve_connection_ok:
  assumes "session_ok s"
  shows "\<exists>s'. serve_connection c ins s = Inr s' \<and> session_ok s' \<and> started s' = started s \<and> ref s' = ref s"
proof -
  let ?sk = "nextSink s"
  have "session_ok (s\<lparr>nextSink := ?sk + 1\<rparr>)"
    using assms by (simp add: session_ok_def core_ok_def ids_inv_def fresh_entries_def)
  from Attach_ok [OF this] obtain s1 where s1: "Attach c ?sk (s\<lparr>nextSink := ?sk + 1\<rparr>) = Inr s1" "session_ok s1"
    "started s1 = started s" "ref s1 = ref s" by fastforce
  from serve_ok [OF s1(2)] obtain s2 where s2: "serve c ?sk ins s1 = Inr s2" "session_ok s2"
    "started s2 = started s1" "ref s2 = ref s1" by blast
  from keepsD [OF keeps_Detach s2(2)] s1 s2 show ?thesis by (simp add: serve_connection_def)
qed

lemma session_ok_new: "session_ok (new_session r)"
  using idle_inv_new ids_inv_new by (simp add: session_ok_def core_ok_def) (simp add: new_session_def)

lemma EnsureStarted_ok: "session_ok s \<Longrightarrow> session_ok (EnsureStarted token s)" "ref (EnsureStarted token s) = ref s"
  by (auto simp: EnsureStarted_def session_ok_def core_ok_def go_def Let_def ids_inv_def fresh_entries_def)

section \<open>The server\<close>

definition golden_ok :: "ActorRef \<Rightarrow> session \<Rightarrow> bool" where
  "golden_ok r s \<longleftrightarrow> (Atespace r = goldenAtespace \<longrightarrow> \<not> started s)"

definition server_ok :: "Server \<Rightarrow> bool" where
  "server_ok srv \<longleftrightarrow> (\<forall>r s. Lookup r (reg srv) = Some s \<longrightarrow> session_ok s \<and> ref s = r \<and> golden_ok r s)"

lemma server_ok_reg: "reg srv' = reg srv \<Longrightarrow> server_ok srv' = server_ok srv"
  by (simp add: server_ok_def)

lemma server_ok_put:
  "server_ok srv \<Longrightarrow> session_ok s \<Longrightarrow> ref s = r \<Longrightarrow> golden_ok r s \<Longrightarrow> server_ok (srv\<lparr>reg := put_session r s (reg srv)\<rparr>)"
  by (auto simp: server_ok_def registry.look_put split: if_splits)

lemma GetOrCreate_ok:
  assumes "server_ok srv"
  shows "session_ok (fst (GetOrCreate r (reg srv)))" "ref (fst (GetOrCreate r (reg srv))) = r"
    "golden_ok r (fst (GetOrCreate r (reg srv)))"
  using assms session_ok_new [of r]
  by (auto simp: server_ok_def GetOrCreate_def golden_ok_def split: option.split) (auto simp: new_session_def)

lemma put_after_GetOrCreate:
  "Lookup k (put_session r s (snd (GetOrCreate r rg))) = Lookup k (put_session r s rg)"
  by (cases "k = r") (simp_all add: registry.look_put GetOrCreate_other)

lemma server_ok_GetOrCreate_put:
  assumes "server_ok srv" "session_ok s" "ref s = r" "golden_ok r s"
  shows "server_ok (srv\<lparr>reg := put_session r s (snd (GetOrCreate r (reg srv)))\<rparr>)"
  using server_ok_put [OF assms] by (simp add: server_ok_def put_after_GetOrCreate)

lemma ticket_answer_reg: "reg (snd (ticket_answer env r srv)) = reg srv"
  by (simp add: ticket_answer_def issueTicket_result put_ticket_def Let_def)

lemma ticket_answer_ok: "server_ok (snd (ticket_answer env r srv)) = server_ok srv"
  by (rule server_ok_reg [OF ticket_answer_reg])

lemma handleConnectionsOpen_ok:
  assumes "server_ok srv"
  shows "server_ok (snd (handleConnectionsOpen env q srv))"
proof -
  have "server_ok (update_session r (EnsureStarted token) srv)" if "Atespace r \<noteq> goldenAtespace" for r token
    unfolding update_session_def Let_def
    using GetOrCreate_ok [OF assms, of r] that
    by (intro server_ok_GetOrCreate_put [OF assms]) (auto simp: EnsureStarted_ok golden_ok_def)
  then show ?thesis using assms
    by (auto simp: handleConnectionsOpen_def ticket_answer_ok Let_def split: sum.split)
qed

lemma redeemTicket_reg: "reg (snd (redeemTicket t x srv)) = reg srv"
  by (simp add: redeemTicket_result del_ticket_def)

lemma handleActorSocket_ok:
  assumes "server_ok srv"
  shows "\<exists>srv'. snd (handleActorSocket env q srv) = Inr srv' \<and> server_ok srv'"
proof -
  let ?t = "redeemTicket (now env) (query_get ''ticket'' (RawQuery q)) srv"
  let ?srv = "snd ?t"
  have ok: "server_ok ?srv" using assms server_ok_reg [OF redeemTicket_reg] by blast
  show ?thesis
  proof (cases "fst ?t")
    case None
    with ok show ?thesis by (simp add: handleActorSocket_def Let_def)
  next
    case (Some r)
    note g = GetOrCreate_ok [OF ok, of r]
    obtain s' where s': "serve_connection (reg_config (reg ?srv) r) (frames_in env) (fst (GetOrCreate r (reg ?srv))) = Inr s'"
      "session_ok s'" "started s' = started (fst (GetOrCreate r (reg ?srv)))" "ref s' = r"
      using serve_connection_ok [OF g(1)] g(2) by metis
    have "server_ok (?srv\<lparr>reg := put_session r s' (snd (GetOrCreate r (reg ?srv)))\<rparr>)"
      by (rule server_ok_GetOrCreate_put [OF ok s'(2,4)]) (use g(3) s'(3) in \<open>simp add: golden_ok_def\<close>)
    with Some s'(1) ok show ?thesis by (simp add: handleActorSocket_def Let_def)
  qed
qed

lemma on_caller_ok: "server_ok srv \<Longrightarrow> (\<And>c. keeps (f c)) \<Longrightarrow> server_ok (on_caller f q srv)"
proof -
  assume ok: "server_ok srv" and f: "\<And>c. keeps (f c)"
  have "server_ok (srv\<lparr>reg := put_session r (f (reg_config (reg srv) r) s) (reg srv)\<rparr>)" if "Lookup r (reg srv) = Some s" for r s
  proof -
    from ok that have "session_ok s" "ref s = r" "golden_ok r s" by (auto simp: server_ok_def)
    with keepsD [OF f] show ?thesis by (intro server_ok_put [OF ok]) (auto simp: golden_ok_def)
  qed
  with ok show ?thesis by (simp add: on_caller_def split: option.split)
qed

lemma handlePassthrough_ok: "server_ok srv \<Longrightarrow> server_ok (snd (handlePassthrough env q srv))"
  by (auto simp: handlePassthrough_def Let_def intro!: on_caller_ok keeps_begin keeps_end)

lemma ServeHTTP_ok:
  assumes "server_ok srv"
  shows "\<exists>srv'. snd (ServeHTTP env q srv) = Inr srv' \<and> server_ok srv'"
  using handleActorSocket_ok [OF assms] handleConnectionsOpen_ok [OF assms] handlePassthrough_ok [OF assms]
  by (auto simp: ServeHTTP_def Let_def)

lemma server_ok_new: "server_ok (NewServer (NewRegistry delay grace cf) base host path src)"
  by (simp add: server_ok_def NewServer_def NewRegistry_def Lookup_def)

text \<open>Any sequence of requests.\<close>

fun serve_all :: "('e http_env \<times> request) list \<Rightarrow> Server \<Rightarrow> go_panic + Server" where
  "serve_all [] srv = Inr srv"
| "serve_all (eq # eqs) srv = (case snd (ServeHTTP (fst eq) (snd eq) srv) of Inl p \<Rightarrow> Inl p | Inr srv' \<Rightarrow> serve_all eqs srv')"

lemma serve_all_ok: "server_ok srv \<Longrightarrow> \<exists>srv'. serve_all eqs srv = Inr srv' \<and> server_ok srv'"
proof (induction eqs arbitrary: srv)
  case (Cons eq eqs)
  from ServeHTTP_ok [OF Cons.prems] obtain srv1 where "snd (ServeHTTP (fst eq) (snd eq) srv) = Inr srv1" "server_ok srv1" by blast
  with Cons.IH show ?case by simp
qed simp

end
