(* ===== verification/ServerProps.thy ===== *)
theory ServerProps
  imports ServerInv RealSlack
begin

text \<open>
  The properties of the HTTP server and of the control-plane client, with concrete requests that meet
  their hypotheses.
\<close>

section \<open>Tickets\<close>

text \<open>
  A ticket is accepted for two minutes after it was issued, and for one connection: after it was
  redeemed, it is refused at any time, and every other ticket is as good as before.
\<close>

lemma ticket_single_use:
  "fst (redeemTicket at' (fst (issueTicket at r srv)) (snd (issueTicket at r srv))) =
     (if at' \<le> at + 2 * 60 * 1000000000 then Some r else None) \<and>
   fst (redeemTicket at'' t (snd (redeemTicket at' t srv))) = None \<and>
   (t' \<noteq> t \<longrightarrow> fst (redeemTicket at'' t' (snd (redeemTicket at' t srv))) = fst (redeemTicket at'' t' srv))"
  by (simp add: issueTicket_result redeemTicket_result ticket_table.put_present ticket_table.del_absent ticket_table.del_other ticket_life_def)

definition demo_server :: Server where
  "demo_server = NewServer (NewRegistry 0 1000 (\<lambda>r. \<lparr>deliverDelay = 0, idleGrace = 0, rand_src = (\<lambda>k i. of_nat (k + i)), answer = (\<lambda>n. Ok)\<rparr>))
     ''https://slack.com'' ''wss-primary.slack.com'' ''/ws-poc/socketmode'' (\<lambda>k i. of_nat (k + i))"

definition bot :: ActorRef where
  "bot = \<lparr>Atespace = ''space'', Name = ''bot''\<rparr>"

section \<open>Requests\<close>

definition demo_env :: "bytes http_env" where
  "demo_env = \<lparr>now = 0, locate = (\<lambda>ip i. Inr bot), ctx_done = (\<lambda>i. False), upgrade_ok = True, frames_in = [InPing None],
     valid_request = (\<lambda>m u. True), Do = (\<lambda>q. Inl ''down'')\<rparr>"

definition golden_request :: request where
  "golden_request = \<lparr>Method = ''POST'', Path = PathConnectionsOpen, RawQuery = [],
     Header = [(''Authorization'', [''Bearer xapp-1'']), (''X-Ate-Actor'', [''ate-golden/echo''])], RemoteAddr = ''10.0.0.1:5000'', Body = []\<rparr>"

text \<open>URLs the broker hands out are ASCII, so its answers decode to what was encoded.\<close>

lemma unreserved_ascii: "unreserved c \<Longrightarrow> byte c < 128"
  by (auto simp: unreserved_def is_digit_def)

lemma percent_ascii: "x \<in> set (percent c) \<Longrightarrow> byte x < 128"
proof -
  have hex: "byte (upper_hex n) < 128" if "n < 16" for n
    using that by (auto simp: upper_hex_def)
  have "byte c div 16 < 16" using nat_of_char_less_256 [of c] by (simp add: less_mult_imp_div_less)
  then show "x \<in> set (percent c) \<Longrightarrow> byte x < 128" using hex by (auto simp: percent_def)
qed

lemma percent_list_ascii: "list_all (\<lambda>c. byte c < 128) (percent c)"
  using percent_ascii by (simp add: list_all_iff)

lemma escape_ascii:
  assumes "\<And>c. P c \<Longrightarrow> byte c < 128"
  shows "list_all (\<lambda>c. byte c < 128) (concat (map (\<lambda>c. if P c then [c] else percent c) s))"
  by (induction s) (simp_all add: assms percent_list_ascii)

lemma URL_String_ascii:
  assumes "list_all (\<lambda>c. byte c < 128) query"
  shows "valid_utf8 (URL_String host path query)"
proof (rule valid_utf8_ascii)
  have host: "byte c < 128" if "host_char c" for c using that unreserved_ascii [of c] by (auto simp: host_char_def)
  have path: "byte c < 128" if "unreserved c \<or> c \<in> set ''$&+,/:;=@''" for c using that unreserved_ascii [of c] by auto
  have "list_all (\<lambda>c. byte c < 128) (escape_host host)" "list_all (\<lambda>c. byte c < 128) (escape_path path)"
    unfolding escape_host_def escape_path_def by (rule escape_ascii, erule host, rule escape_ascii, erule path)
  then show "list_all (\<lambda>c. byte c < 128) (URL_String host path query)"
    using assms by (auto simp: URL_String_def Let_def)
qed

lemma ticket_ascii: "list_all (\<lambda>c. byte c < 128) (''ticket='' @ next_ticket srv)"
  using hex_ascii by (auto simp: next_ticket_def list_all_iff)

lemma open_answer_decodes:
  "valid_utf8 (URL o') \<Longrightarrow> valid_utf8 (Error o') \<Longrightarrow> decode_first_response (RespBody (open_answer o')) = Inr o'"
  using decode_first_open [of o' "[CHR 0x0A]"] by (simp add: open_answer_def writeJSON_def num_end_def is_digit_def)


definition open_request_of_bot :: request where
  "open_request_of_bot = golden_request\<lparr>Header := [(''Authorization'', [''Bearer xapp-1'']), (''X-Ate-Actor'', [''space/bot''])]\<rparr>"


lemma on_caller_lookup:
  "Lookup r (reg (on_caller f q srv)) = (if header_ref q = Some r then map_option (f (reg_config (reg srv) r)) (Lookup r (reg srv)) else Lookup r (reg srv))"
  by (auto simp: on_caller_def registry.look_put split: option.split)

lemma forward_balanced: "0 \<le> inFlight s \<Longrightarrow> inFlight (endForward c (beginForward s)) = inFlight s"
  by (simp add: endForward_def beginForward_def)


definition busy_server :: Server where
  "busy_server = snd (handleConnectionsOpen demo_env open_request_of_bot demo_server)"


section \<open>The control plane\<close>


text \<open>A control plane that aborts twice and then accepts; its state counts the calls.\<close>

definition busy_control :: "(bytes, nat) controlClient" where
  "busy_control = newControlClient \<lparr>ResumeActor = (\<lambda>q n. (if n < 2 then Some ''aborted'' else None, n + 1)),
     SuspendActor = (\<lambda>q n. (None, n + 1)),
     ListActors = (\<lambda>size tok n. (Inr (if tok = [] then \<lparr>page_actors = [], page_next = ''p2''\<rparr>
       else \<lparr>page_actors = [\<lparr>info_atespace = ''space'', info_actor_id = ''bot'', info_pod_ip = ''10.0.0.1'', info_status = STATUS_RUNNING\<rparr>],
             page_next = []\<rparr>), n + 1)),
     is_aborted = (\<lambda>e. e = ''aborted'')\<rparr> False"


lemma locate_sound:
  assumes "LocateByPodIP c ip s = Some (res, s')"
  shows "\<exists>pages tok t. visits c [] s pages tok t \<and> (\<forall>p \<in> set pages. \<forall>a \<in> set (page_actors p). \<not> runs_at ip a) \<and>
    (\<forall>r. res = Inr r \<longrightarrow> (\<exists>page a. fst (ListActors (api c) 1000 tok t) = Inr page \<and> a \<in> set (page_actors page) \<and>
        info_pod_ip a = ip \<and> info_status a = STATUS_RUNNING \<and> r = info_ref a)) \<and>
    (\<forall>x. res = Inl (NoRunningActor x) \<longrightarrow> x = ip \<and> (\<exists>page. fst (ListActors (api c) 1000 tok t) = Inr page \<and>
        page_next page = [] \<and> (\<forall>a \<in> set (page_actors page). \<not> runs_at ip a)))"
proof -
  from locate_from_located [OF assms [unfolded LocateByPodIP_def]] obtain pages tok t where
    v: "visits c [] s pages tok t" "\<forall>p \<in> set pages. \<forall>a \<in> set (page_actors p). \<not> runs_at ip a" and
    ans: "page_answer c ip tok t (res, s')" unfolding located_def by blast
  obtain x u where x: "ListActors (api c) 1000 tok t = (x, u)" by (cases "ListActors (api c) 1000 tok t")
  have "(\<forall>r. res = Inr r \<longrightarrow> (\<exists>page a. x = Inr page \<and> a \<in> set (page_actors page) \<and>
        info_pod_ip a = ip \<and> info_status a = STATUS_RUNNING \<and> r = info_ref a)) \<and>
    (\<forall>y. res = Inl (NoRunningActor y) \<longrightarrow> y = ip \<and> (\<exists>page. x = Inr page \<and>
        page_next page = [] \<and> (\<forall>a \<in> set (page_actors page). \<not> runs_at ip a)))"
  proof (cases x)
    case (Inl e)
    with ans x show ?thesis by (simp add: page_answer_def)
  next
    case (Inr page)
    show ?thesis
    proof (cases "find (runs_at ip) (page_actors page)")
      case None
      with ans x Inr show ?thesis by (auto simp: page_answer_def find_None_iff)
    next
      case (Some a)
      then have "a \<in> set (page_actors page)" "runs_at ip a" by (auto simp: find_Some_iff)
      with ans x Inr Some show ?thesis by (auto simp: page_answer_def runs_at_def)
    qed
  qed
  moreover have "fst (ListActors (api c) 1000 tok t) = x" using x by simp
  ultimately show ?thesis using v by (intro exI [of _ pages] exI [of _ tok] exI [of _ t]) blast
qed

lemma busy_locates: "LocateByPodIP busy_control ''10.0.0.1'' n = Some (Inr bot, n + 2)"
  unfolding LocateByPodIP_def
  by (subst locate_from.simps, simp add: busy_control_def newControlClient_def)
    (subst locate_from.simps, simp add: runs_at_def info_ref_def bot_def)

text \<open>
  C35. Locating an actor. The search is sound: an actor is returned only if the control plane listed it as
  running at that address, on the last page that was read, and no earlier page had such an actor; the
  answer that there is none comes only after all pages were read without a match. And it returns
  whenever the listing ends, at a page without a successor or at an error.
\<close>

theorem locate_is_correct:
  "(LocateByPodIP c ip s = Some (res, s') \<longrightarrow>
    (\<exists>pages tok t. visits c [] s pages tok t \<and> (\<forall>p \<in> set pages. \<forall>a \<in> set (page_actors p). \<not> runs_at ip a) \<and>
      (\<forall>r. res = Inr r \<longrightarrow> (\<exists>page a. fst (ListActors (api c) 1000 tok t) = Inr page \<and> a \<in> set (page_actors page) \<and>
          info_pod_ip a = ip \<and> info_status a = STATUS_RUNNING \<and> r = info_ref a)) \<and>
      (\<forall>x. res = Inl (NoRunningActor x) \<longrightarrow> x = ip \<and> (\<exists>page. fst (ListActors (api c) 1000 tok t) = Inr page \<and>
          page_next page = [] \<and> (\<forall>a \<in> set (page_actors page). \<not> runs_at ip a))))) \<and>
   (visits c [] s pages tok t \<and> (\<forall>page u. ListActors (api c) 1000 tok t = (Inr page, u) \<longrightarrow> page_next page = []) \<longrightarrow>
    (\<exists>res s'. LocateByPodIP c ip s = Some (res, s')))"
proof (intro conjI impI)
  assume "visits c [] s pages tok t \<and> (\<forall>page u. ListActors (api c) 1000 tok t = (Inr page, u) \<longrightarrow> page_next page = [])"
  then show "\<exists>res s'. LocateByPodIP c ip s = Some (res, s')"
    using locate_from_ends [of c "[]" s pages tok t ip] by (auto simp: LocateByPodIP_def)
qed (rule locate_sound)

theorem locate_is_correct_witness:
  "(\<exists>tok t page a. fst (ListActors (api busy_control) 1000 tok t) = Inr page \<and> a \<in> set (page_actors page) \<and>
      info_pod_ip a = ''10.0.0.1'' \<and> info_status a = STATUS_RUNNING \<and> bot = info_ref a) \<and>
   (\<exists>res s'. LocateByPodIP busy_control ''10.9.9.9'' 0 = Some (res, s'))"
proof
  have "LocateByPodIP busy_control ''10.0.0.1'' 0 = Some (Inr bot, 2)" using busy_locates [of 0] by simp
  from mp [OF conjunct1 [OF locate_is_correct] this] show "\<exists>tok t page a. fst (ListActors (api busy_control) 1000 tok t) = Inr page \<and>
      a \<in> set (page_actors page) \<and> info_pod_ip a = ''10.0.0.1'' \<and> info_status a = STATUS_RUNNING \<and> bot = info_ref a" by blast
  have "visits busy_control [] 0 [\<lparr>page_actors = [], page_next = ''p2''\<rparr>] ''p2'' 1"
    by (rule visits_Cons [where u = 1]) (auto simp: busy_control_def newControlClient_def visits_Nil)
  moreover have "\<forall>page u. ListActors (api busy_control) 1000 ''p2'' 1 = (Inr page, u) \<longrightarrow> page_next page = []"
    by (auto simp: busy_control_def newControlClient_def)
  ultimately show "\<exists>res s'. LocateByPodIP busy_control ''10.9.9.9'' 0 = Some (res, s')"
    by (intro mp [OF conjunct2 [OF locate_is_correct]] conjI)
qed

lemma located_running:
  assumes "located c ip tok s (Inr r, s')"
  shows "\<exists>pages tok' t page a. visits c tok s pages tok' t \<and> fst (ListActors (api c) 1000 tok' t) = Inr page \<and>
    a \<in> set (page_actors page) \<and> info_pod_ip a = ip \<and> info_status a = STATUS_RUNNING \<and> r = info_ref a"
proof -
  from assms obtain pages tok' t where v: "visits c tok s pages tok' t" and ans: "page_answer c ip tok' t (Inr r, s')"
    unfolding located_def by blast
  from ans obtain page u a where "ListActors (api c) 1000 tok' t = (Inr page, u)" "find (runs_at ip) (page_actors page) = Some a" "r = info_ref a"
    by (auto simp: page_answer_def split: prod.splits sum.splits option.splits)
  then show ?thesis using v
    by (intro exI [of _ pages] exI [of _ tok'] exI [of _ t] exI [of _ page] exI [of _ a]) (auto simp: find_Some_iff runs_at_def)
qed

text \<open>
  Identifying a caller by its address, with the control client as the locator: the actor is one that
  the control plane listed as running at the caller's address, in the first of twenty searches that found
  one; and if one of them finds an actor and the request is not cancelled before, the caller is identified.
  (\<open>w i\<close> is the state of the control plane at search \<open>i\<close>.)
\<close>

lemma identified_by_address:
  assumes "header_ref q = None" "ip = remoteIP (RemoteAddr q)" "\<And>i. LocateByPodIP c ip (w i) = Some (locate env ip i, w' i)"
  shows "(identify env q = Inr r \<longrightarrow> (\<exists>j < 20. (\<forall>k < j. \<exists>e. locate env ip k = Inl e) \<and>
      (\<exists>pages tok t page a. visits c [] (w j) pages tok t \<and> fst (ListActors (api c) 1000 tok t) = Inr page \<and>
        a \<in> set (page_actors page) \<and> info_pod_ip a = ip \<and> info_status a = STATUS_RUNNING \<and> r = info_ref a))) \<and>
    (j < 20 \<and> locate env ip j = Inr r \<and> (\<forall>k < j. (\<exists>e. locate env ip k = Inl e) \<and> \<not> ctx_done env k) \<longrightarrow> identify env q = Inr r)"
proof (intro conjI impI)
  have id: "identify env q = locate_loop 20 0 None (locate env ip) (ctx_done env)"
    using assms(1,2) by (simp add: identify_def locateWithRetry_def)
  assume "identify env q = Inr r"
  with id locate_loop_origin [of 20 0 None "locate env ip" "ctx_done env" r] obtain j where
    j: "j < 20" "locate env ip j = Inr r" "\<forall>k < j. \<exists>e. locate env ip k = Inl e" by auto
  from assms(3) [of j] j(2) have "located c ip [] (w j) (Inr r, w' j)"
    unfolding LocateByPodIP_def by (intro locate_from_located) simp
  from located_running [OF this] j(1,3) show "\<exists>j < 20. (\<forall>k < j. \<exists>e. locate env ip k = Inl e) \<and>
      (\<exists>pages tok t page a. visits c [] (w j) pages tok t \<and> fst (ListActors (api c) 1000 tok t) = Inr page \<and>
        a \<in> set (page_actors page) \<and> info_pod_ip a = ip \<and> info_status a = STATUS_RUNNING \<and> r = info_ref a)" by blast
next
  assume "j < 20 \<and> locate env ip j = Inr r \<and> (\<forall>k < j. (\<exists>e. locate env ip k = Inl e) \<and> \<not> ctx_done env k)"
  then show "identify env q = Inr r"
    using locate_loop_found [of j "locate env ip" 0 "ctx_done env" r 20 None] assms(1,2) by (simp add: identify_def locateWithRetry_def)
qed

end
