(* ===== verification/Broker.thy ===== *)
theory Broker
  imports Scheduler Server
begin

text \<open>
  The whole broker as a concurrent program: HTTP requests come in and are handled by goroutines of
  their own (\<^verbatim>\<open>cmd/egress-broker/server.go\<close>), which meet in the registry, in the ticket table and in the
  sessions, while the sessions' goroutines and timers run (\<^verbatim>\<open>registry.go\<close>). A handler is the list of regions
  it still has to run; a region is what the code does under one lock, \<^verbatim>\<open>Registry.mu\<close>, \<^verbatim>\<open>ticketsMu\<close> or a
  session's \<^verbatim>\<open>mu\<close>, or without touching shared state. Once a handler only works on one session (serving
  the actor's WebSocket, forwarding a call), it goes on as a goroutine of that session. Writing the
  response is a region of its own, so the responses can be read off the labels of a run.
\<close>

section \<open>Handlers\<close>

datatype http_task =
    HServe request
  | HOpen request
  | HCreate ActorRef
  | HEnsure ActorRef bytes
  | HIssue request ActorRef
  | HSocket request
  | HUpgrade ActorRef
  | HAttach ActorRef
  | HPass request
  | HLookup request ActorRef
  | HForward ActorRef
  | HDo request
  | HReply request response

definition on_session :: "ActorRef \<Rightarrow> (session \<Rightarrow> session) \<Rightarrow> Server \<Rightarrow> Server" where
  "on_session r f srv = (case Lookup r (reg srv) of
     None \<Rightarrow> srv | Some s \<Rightarrow> srv\<lparr>reg := put_session r (f s) (reg srv)\<rparr>)"

text \<open>
  The parts of a handler that act on the session: the call of \<^verbatim>\<open>EnsureStarted\<close>, whose goroutine stays in
  the session's list, with nothing left to do; serving the connection; forwarding.
\<close>

definition start_call :: "bytes \<Rightarrow> session \<Rightarrow> session" where
  "start_call token s = EnsureStarted token (go [] s)"

definition socket_call :: "session \<Rightarrow> session" where
  "socket_call s = go [AttachSink (nextSink s), ServeSocket (nextSink s), DetachSink (nextSink s)]
     (s\<lparr>nextSink := nextSink s + 1\<rparr>)"

definition pass_call :: "session \<Rightarrow> session" where
  "pass_call s = go [BeginForward, ForwardCall, EndForward] s"

text \<open>One region of a handler; \<open>env\<close> is the outside as the region finds it.\<close>

fun http_exec :: "'e http_env \<Rightarrow> http_task \<Rightarrow> Server \<Rightarrow> http_task list \<times> Server" where
  "http_exec env (HServe q) srv =
     ([if Path q = wssPath srv then HSocket q
       else if Method q = ''POST'' \<and> Path q = PathConnectionsOpen then HOpen q else HPass q], srv)"
| "http_exec env (HOpen q) srv =
     (let token = bearerToken (Header_Get (Header q) ''Authorization'')
      in (if token = [] then [HReply q (open_answer \<lparr>OK = False, URL = [], Error = ''not_authed''\<rparr>)]
          else (case identify env q of
             Inl _ \<Rightarrow> [HReply q (open_answer \<lparr>OK = False, URL = [], Error = ''ws-poc_actor_not_identified''\<rparr>)]
           | Inr r \<Rightarrow> if Atespace r = goldenAtespace then [HIssue q r] else [HCreate r, HEnsure r token, HIssue q r]), srv))"
| "http_exec env (HCreate r) srv = ([], srv\<lparr>reg := snd (GetOrCreate r (reg srv))\<rparr>)"
| "http_exec env (HEnsure r token) srv = ([], on_session r (start_call token) srv)"
| "http_exec env (HIssue q r) srv = (let a = ticket_answer env r srv in ([HReply q (fst a)], snd a))"
| "http_exec env (HSocket q) srv =
     (let t = redeemTicket (now env) (query_get ''ticket'' (RawQuery q)) srv
      in (case fst t of None \<Rightarrow> [HReply q (http_Error ''invalid or expired ticket'' 401)] | Some r \<Rightarrow> [HUpgrade r], snd t))"
| "http_exec env (HUpgrade r) srv = (if upgrade_ok env then [HCreate r, HAttach r] else [], srv)"
| "http_exec env (HAttach r) srv = ([], on_session r socket_call srv)"
| "http_exec env (HPass q) srv =
     (let o' = forward_request q srv
      in (if valid_request env (out_method o') (out_url o')
          then (case header_ref q of None \<Rightarrow> [HDo q] | Some r \<Rightarrow> [HLookup q r])
          else [HReply q (http_Error ''bad gateway'' 502)], srv))"
| "http_exec env (HLookup q r) srv = (case Lookup r (reg srv) of None \<Rightarrow> [HDo q] | Some s \<Rightarrow> [HForward r], srv)"
| "http_exec env (HForward r) srv = ([], on_session r pass_call srv)"
| "http_exec env (HDo q) srv = ([HReply q (relayed (Do env (forward_request q srv)))], srv)"
| "http_exec env (HReply q resp) srv = ([], srv)"

section \<open>Steps\<close>

record running =
  run_srv :: Server
  run_http :: "http_task list list"

text \<open>What the read loop of an actor's WebSocket does with what it receives, and whether it goes on.\<close>

definition socket_tasks :: "sink_id \<Rightarrow> incoming \<Rightarrow> task list" where
  "socket_tasks sk m = (case m of
     InPing pong \<Rightarrow> DeliverBuffered sk # (if pong_fatal pong then [] else [ServeSocket sk])
   | InMessage d \<Rightarrow> (case DecodeEnvelope d of
        Inl _ \<Rightarrow> [ServeSocket sk]
      | Inr e \<Rightarrow> (if EnvelopeID e \<noteq> [] then [AckEvent (EnvelopeID e), ServeSocket sk] else [ServeSocket sk])))"

text \<open>What can happen to a session of a running broker.\<close>

datatype move = MStep label | MMessage incoming | MHangUp | MStart bytes | MSocket | MPass

inductive session_move :: "config \<Rightarrow> session \<Rightarrow> move \<Rightarrow> session \<Rightarrow> bool" for c where
  m_step: "\<lbrakk>step c s l s'; l \<noteq> Called\<rbrakk> \<Longrightarrow> session_move c s (MStep l) s'"
| m_message: "\<lbrakk>i < length (gos s); gos s ! i = ServeSocket sk # ts\<rbrakk> \<Longrightarrow>
    session_move c s (MMessage m) (s\<lparr>gos := (gos s)[i := socket_tasks sk m @ ts]\<rparr>)"
| m_hang_up: "\<lbrakk>i < length (gos s); gos s ! i = ServeSocket sk # ts\<rbrakk> \<Longrightarrow>
    session_move c s MHangUp (s\<lparr>gos := (gos s)[i := ts]\<rparr>)"
| m_start: "session_move c s (MStart token) (start_call token s)"
| m_socket: "session_move c s MSocket (socket_call s)"
| m_pass: "session_move c s MPass (pass_call s)"

inductive_cases session_moveE [consumes 1, case_names m_step m_message m_hang_up m_start m_socket m_pass]:
  "session_move c s mv s'"

datatype 'e broker_label = Arrived request | Handled "'e http_env" http_task | Moved ActorRef move

inductive broker_step :: "running \<Rightarrow> 'e broker_label \<Rightarrow> running \<Rightarrow> bool" where
  b_arrive: "broker_step st (Arrived q) (st\<lparr>run_http := run_http st @ [[HServe q]]\<rparr>)"
| b_handle: "\<lbrakk>i < length (run_http st); run_http st ! i = t # ts; http_exec env t (run_srv st) = (ts', srv')\<rbrakk> \<Longrightarrow>
    broker_step st (Handled env t) (st\<lparr>run_srv := srv', run_http := (run_http st)[i := ts' @ ts]\<rparr>)"
| b_session: "\<lbrakk>Lookup r (reg (run_srv st)) = Some s; session_move (reg_config (reg (run_srv st)) r) s mv s';
     case mv of MStep l \<Rightarrow> True | MMessage m \<Rightarrow> True | MHangUp \<Rightarrow> True | _ \<Rightarrow> False\<rbrakk> \<Longrightarrow>
    broker_step st (Moved r mv) (st\<lparr>run_srv := (run_srv st)\<lparr>reg := put_session r s' (reg (run_srv st))\<rparr>\<rparr>)"

inductive_cases broker_stepE [consumes 1, case_names b_arrive b_handle b_session]: "broker_step st l st'"

text \<open>A broker that was just started on the registry's configuration \<open>cf\<close>.\<close>

definition fresh_broker :: "Server \<Rightarrow> running" where
  "fresh_broker srv = \<lparr>run_srv = srv, run_http = []\<rparr>"

definition broker_run :: "Server \<Rightarrow> 'e broker_label list \<Rightarrow> running \<Rightarrow> bool" where
  "broker_run srv bls st = trace broker_step (fresh_broker srv) bls st"

section \<open>What a step does to a session\<close>

lemma on_session_lookup:
  "Lookup r' (reg (on_session r f srv)) = (if r' = r then map_option f (Lookup r (reg srv)) else Lookup r' (reg srv))"
  by (simp add: on_session_def registry.look_put split: option.split)

lemma on_session_same [simp]:
  "reg_config (reg (on_session r f srv)) = reg_config (reg srv)" "tickets (on_session r f srv) = tickets srv"
  "wssPath (on_session r f srv) = wssPath srv"
  by (simp_all add: on_session_def put_session_def split: option.split)

lemma GetOrCreate_config [simp]: "reg_config (snd (GetOrCreate r rg)) = reg_config rg"
  by (simp add: GetOrCreate_def put_session_def split: option.split)

lemma http_exec_config:
  assumes "http_exec env t srv = (ts', srv')"
  shows "reg_config (reg srv') = reg_config (reg srv)"
  using assms by (cases t) (auto simp: Let_def ticket_answer_def issueTicket_def redeemTicket_result del_ticket_def split: option.splits)

text \<open>The session of \<open>r\<close> before and after a step.\<close>

inductive session_change :: "config \<Rightarrow> ActorRef \<Rightarrow> session option \<Rightarrow> move option \<Rightarrow> session option \<Rightarrow> bool" for c r where
  same: "session_change c r so None so"
| created: "session_change c r None None (Some (new_session r))"
| moved: "session_move c s mv s' \<Longrightarrow> session_change c r (Some s) (Some mv) (Some s')"

fun handler_move :: "http_task \<Rightarrow> ActorRef \<Rightarrow> move option" where
  "handler_move (HEnsure r token) r' = (if r' = r then Some (MStart token) else None)"
| "handler_move (HAttach r) r' = (if r' = r then Some MSocket else None)"
| "handler_move (HForward r) r' = (if r' = r then Some MPass else None)"
| "handler_move _ r' = None"

fun label_move :: "'e broker_label \<Rightarrow> ActorRef \<Rightarrow> move option" where
  "label_move (Arrived q) r = None"
| "label_move (Handled env t) r = handler_move t r"
| "label_move (Moved r' mv) r = (if r = r' then Some mv else None)"

abbreviation session_of :: "ActorRef \<Rightarrow> running \<Rightarrow> session option" where
  "session_of r st \<equiv> Lookup r (reg (run_srv st))"

abbreviation config_of :: "running \<Rightarrow> ActorRef \<Rightarrow> config" where
  "config_of st \<equiv> reg_config (reg (run_srv st))"

lemma on_session_change:
  assumes "\<And>s. session_move c s mv (f s)"
  shows "\<exists>mo. session_change c r' (Lookup r' (reg srv)) mo (Lookup r' (reg (on_session r f srv))) \<and>
    (mo = None \<or> r' = r \<and> mo = Some mv)"
proof (cases "r' = r")
  case True
  then show ?thesis
    by (cases "Lookup r (reg srv)") (auto simp: on_session_lookup intro: session_change.same session_change.moved [OF assms])
qed (auto simp: on_session_lookup intro: session_change.same)

lemma GetOrCreate_change: "session_change c r' (Lookup r' rg) None (Lookup r' (snd (GetOrCreate r rg)))"
proof (cases "r' = r \<and> Lookup r rg = None")
  case True
  then show ?thesis by (simp add: GetOrCreate_def registry.put_present session_change.created)
next
  case False
  then have "Lookup r' (snd (GetOrCreate r rg)) = Lookup r' rg"
    by (auto simp: GetOrCreate_def registry.put_other split: option.split)
  then show ?thesis by (simp add: session_change.same)
qed

lemma http_change:
  assumes "http_exec env t srv = (ts', srv')"
  shows "\<exists>mo. session_change c r' (Lookup r' (reg srv)) mo (Lookup r' (reg srv')) \<and> (mo = None \<or> mo = handler_move t r')"
proof (cases t)
  case (HEnsure r token)
  with on_session_change [of c "MStart token" "start_call token" r' srv r] m_start assms show ?thesis by fastforce
next
  case (HAttach r)
  with on_session_change [of c MSocket socket_call r' srv r] m_socket assms show ?thesis by fastforce
next
  case (HForward r)
  with on_session_change [of c MPass pass_call r' srv r] m_pass assms show ?thesis by fastforce
next
  case (HCreate r)
  with assms GetOrCreate_change [of c r' "reg srv" r] show ?thesis by auto
qed (use assms in \<open>auto simp: Let_def ticket_answer_def issueTicket_def redeemTicket_result del_ticket_def intro: session_change.same split: option.splits\<close>)

lemma broker_config: "broker_step st l st' \<Longrightarrow> config_of st' = config_of st"
  by (erule broker_stepE) (auto simp: put_session_def dest: http_exec_config)

lemma broker_change:
  assumes "broker_step st l st'"
  shows "\<exists>mo. session_change (config_of st r) r (session_of r st) mo (session_of r st') \<and> (mo = None \<or> mo = label_move l r)"
  using assms
proof (cases rule: broker_stepE)
  case (b_handle i t ts env ts' srv')
  with http_change [OF b_handle(5)] show ?thesis by simp
next
  case (b_session r' s mv s')
  then show ?thesis
    by (cases "r = r'") (auto simp: registry.put_present registry.put_other intro: session_change.same session_change.moved)
qed (auto intro: session_change.same)

section \<open>Invariants of sessions in a broker\<close>

definition all_sessions :: "(config \<Rightarrow> ActorRef \<Rightarrow> session \<Rightarrow> bool) \<Rightarrow> running \<Rightarrow> bool" where
  "all_sessions P st \<longleftrightarrow> (\<forall>r s. session_of r st = Some s \<longrightarrow> P (config_of st r) r s)"

text \<open>
  A property of sessions that a new session has and that every move of the broker keeps, as long as
  the move is one that the broker allows for the actor.
\<close>

locale session_property =
  fixes P :: "config \<Rightarrow> ActorRef \<Rightarrow> session \<Rightarrow> bool" and allowed :: "ActorRef \<Rightarrow> move \<Rightarrow> bool"
  assumes new: "P c r (new_session r)"
    and move: "\<lbrakk>P c r s; session_move c s mv s'; allowed r mv\<rbrakk> \<Longrightarrow> P c r s'"
begin

lemma fresh: "sessions (reg srv) = [] \<Longrightarrow> all_sessions P (fresh_broker srv)"
  by (simp add: all_sessions_def fresh_broker_def Lookup_def)

lemma keeps_all:
  assumes "broker_step st l st'" "all_sessions P st" "\<And>r mv. label_move l r = Some mv \<Longrightarrow> allowed r mv"
  shows "all_sessions P st'"
  unfolding all_sessions_def
proof (intro allI impI)
  fix r s' assume s': "session_of r st' = Some s'"
  from broker_change [OF assms(1), of r] obtain mo where
    ch: "session_change (config_of st r) r (session_of r st) mo (Some s')" "mo = None \<or> mo = label_move l r" unfolding s' by blast
  from ch(1) have "P (config_of st r) r s'"
  proof cases
    case same
    with assms(2) show ?thesis by (simp add: all_sessions_def)
  next
    case created
    with new show ?thesis by simp
  next
    case (moved s mv)
    have "allowed r mv" using assms(3) [of r mv] ch(2) moved(2) by simp
    moreover have "P (config_of st r) r s" using assms(2) moved(1) by (simp add: all_sessions_def)
    ultimately show ?thesis using move moved(3) by blast
  qed
  then show "P (config_of st' r) r s'" using broker_config [OF assms(1)] by simp
qed

end

subsection \<open>Every session runs as a session\<close>

lemma socket_tasks_cases:
  "socket_tasks sk m = [ServeSocket sk] \<or> (\<exists>x. socket_tasks sk m = [AckEvent x, ServeSocket sk]) \<or>
     socket_tasks sk m = [DeliverBuffered sk, ServeSocket sk] \<or> socket_tasks sk m = [DeliverBuffered sk]"
  by (auto simp: socket_tasks_def split: incoming.split sum.split)

lemma start_call_step: "step c (go [Start token] s) (Ran (Start token)) (start_call token s)"
proof -
  let ?s = "go [Start token] s"
  have "step c ?s (Ran (Start token)) ((EnsureStarted token ?s)\<lparr>gos := (gos (EnsureStarted token ?s))[length (gos s) := [] @ []]\<rparr>)"
    by (rule step.run) (auto simp: go_def)
  moreover have "(EnsureStarted token ?s)\<lparr>gos := (gos (EnsureStarted token ?s))[length (gos s) := [] @ []]\<rparr> = start_call token s"
    by (simp add: start_call_def EnsureStarted_def go_def Let_def list_update_append)
  ultimately show ?thesis by simp
qed

lemma step_called: "session_move c s mv s' \<Longrightarrow> session_run c r ls s \<Longrightarrow> \<exists>ls'. session_run c r ls' s'"
proof (induction rule: session_move.induct)
  case (m_step s l s')
  then show ?case unfolding session_run_def using trace_snoc by fast
next
  case (m_message i s sk ts m)
  show ?case
  proof (cases "socket_tasks sk m = [ServeSocket sk]")
    case True
    with m_message(2) have "(gos s)[i := socket_tasks sk m @ ts] = gos s" by (simp add: list_update_same_conv m_message(1))
    then have "s\<lparr>gos := (gos s)[i := socket_tasks sk m @ ts]\<rparr> = s" by simp
    with m_message(3) show ?thesis by metis
  next
    case False
    have "step c s Called (s\<lparr>gos := (gos s)[i := socket_tasks sk m @ ts]\<rparr>)"
      using socket_tasks_cases [of sk m] False step.receive [OF m_message(1,2)] step.ping_lost [OF m_message(1,2)]
      by (elim disjE exE) auto
    with m_message(3) show ?thesis unfolding session_run_def using trace_snoc by fast
  qed
next
  case (m_hang_up i s sk ts)
  with step.hang_up [of i s sk ts c] show ?case unfolding session_run_def using trace_snoc by fast
next
  case (m_start s token)
  have "step c s Called (go [Start token] s)" by (rule step.open_call)
  with start_call_step m_start show ?case unfolding session_run_def by (metis trace_snoc)
next
  case (m_socket s)
  with step.connect [of c s] show ?case unfolding session_run_def socket_call_def using trace_snoc by fast
next
  case (m_pass s)
  with step.forward [of c s] show ?case unfolding session_run_def pass_call_def using trace_snoc by fast
qed

interpretation runs: session_property "\<lambda>c r s. \<exists>ls. session_run c r ls s" "\<lambda>r mv. True"
  by unfold_locales (auto simp: session_run_def intro: trace_Nil dest: step_called [unfolded session_run_def])

section \<open>An executable scheduler\<close>

text \<open>A list of choices determines a run of the broker, in a fixed outside.\<close>

datatype broker_choice = BArrive request | BHandle nat | BRun ActorRef choice | BMessage ActorRef nat incoming | BHangUp ActorRef nat

definition put_running :: "ActorRef \<Rightarrow> session \<Rightarrow> running \<Rightarrow> running" where
  "put_running r s st = st\<lparr>run_srv := (run_srv st)\<lparr>reg := put_session r s (reg (run_srv st))\<rparr>\<rparr>"

definition socket_at :: "nat \<Rightarrow> session \<Rightarrow> (sink_id \<times> task list) option" where
  "socket_at i s = (if i < length (gos s) then
     (case gos s ! i of [] \<Rightarrow> None | t # ts \<Rightarrow> (case t of ServeSocket sk \<Rightarrow> Some (sk, ts) | _ \<Rightarrow> None)) else None)"

definition session_choice :: "config \<Rightarrow> broker_choice \<Rightarrow> session \<Rightarrow> (move \<times> session) option" where
  "session_choice c ch s = (case ch of
     BRun r ch' \<Rightarrow> (case take_choice c ch' s of
        None \<Rightarrow> None | Some ls \<Rightarrow> (case fst ls of Called \<Rightarrow> None | _ \<Rightarrow> Some (MStep (fst ls), snd ls)))
   | BMessage r i m \<Rightarrow> (case socket_at i s of
        None \<Rightarrow> None
      | Some sts \<Rightarrow> Some (MMessage m, s\<lparr>gos := (gos s)[i := socket_tasks (fst sts) m @ snd sts]\<rparr>))
   | BHangUp r i \<Rightarrow> (case socket_at i s of
        None \<Rightarrow> None | Some sts \<Rightarrow> Some (MHangUp, s\<lparr>gos := (gos s)[i := snd sts]\<rparr>))
   | _ \<Rightarrow> None)"

definition choice_ref :: "broker_choice \<Rightarrow> ActorRef option" where
  "choice_ref ch = (case ch of BRun r _ \<Rightarrow> Some r | BMessage r _ _ \<Rightarrow> Some r | BHangUp r _ \<Rightarrow> Some r | _ \<Rightarrow> None)"

definition broker_choose :: "'e http_env \<Rightarrow> broker_choice \<Rightarrow> running \<Rightarrow> ('e broker_label \<times> running) option" where
  "broker_choose env ch st = (case ch of
     BArrive q \<Rightarrow> Some (Arrived q, st\<lparr>run_http := run_http st @ [[HServe q]]\<rparr>)
   | BHandle i \<Rightarrow> (if i < length (run_http st) then (case run_http st ! i of
        [] \<Rightarrow> None
      | t # ts \<Rightarrow> (let r = http_exec env t (run_srv st)
           in Some (Handled env t, st\<lparr>run_srv := snd r, run_http := (run_http st)[i := fst r @ ts]\<rparr>))) else None)
   | _ \<Rightarrow> (case choice_ref ch of None \<Rightarrow> None | Some r \<Rightarrow> (case session_of r st of
        None \<Rightarrow> None
      | Some s \<Rightarrow> (case session_choice (config_of st r) ch s of
           None \<Rightarrow> None | Some ms \<Rightarrow> Some (Moved r (fst ms), put_running r (snd ms) st)))))"

fun broker_schedule :: "'e http_env \<Rightarrow> broker_choice list \<Rightarrow> running \<Rightarrow> ('e broker_label list \<times> running) option" where
  "broker_schedule env [] st = Some ([], st)"
| "broker_schedule env (ch # chs) st = (case broker_choose env ch st of
     None \<Rightarrow> None
   | Some r \<Rightarrow> (case broker_schedule env chs (snd r) of None \<Rightarrow> None | Some r' \<Rightarrow> Some (fst r # fst r', snd r')))"

lemma socket_at_Some:
  assumes "socket_at i s = Some (sk, ts)"
  shows "i < length (gos s)" "gos s ! i = ServeSocket sk # ts"
proof -
  from assms show i: "i < length (gos s)" by (simp add: socket_at_def split: if_splits)
  with assms obtain t ts' where t: "gos s ! i = t # ts'" by (cases "gos s ! i") (auto simp: socket_at_def)
  with assms i show "gos s ! i = ServeSocket sk # ts" by (cases t) (auto simp: socket_at_def)
qed

lemma session_choice_move:
  assumes "session_choice c ch s = Some (mv, s')"
  shows "session_move c s mv s' \<and> (case mv of MStep l \<Rightarrow> True | MMessage m \<Rightarrow> True | MHangUp \<Rightarrow> True | _ \<Rightarrow> False)"
proof (cases ch)
  case (BRun r ch')
  have l: "take_choice c ch' s = Some (l, s') \<and> l \<noteq> Called \<and> mv = MStep l" if "take_choice c ch' s = Some (l, u)" for l u
    using assms BRun that by (cases l) (simp_all add: session_choice_def)
  have "take_choice c ch' s \<noteq> None" using assms BRun by (intro notI) (simp add: session_choice_def)
  then obtain l u where "take_choice c ch' s = Some (l, u)" by auto
  with l have l: "take_choice c ch' s = Some (l, s')" "l \<noteq> Called" "mv = MStep l" by blast+
  from m_step [OF take_choice_step [OF l(1)] l(2)] l(3) show ?thesis by simp
next
  case (BMessage r i m)
  with assms show ?thesis by (auto simp: session_choice_def intro!: m_message socket_at_Some split: option.splits)
next
  case (BHangUp r i)
  with assms show ?thesis by (auto simp: session_choice_def intro!: m_hang_up socket_at_Some split: option.splits)
qed (use assms in \<open>simp_all add: session_choice_def\<close>)

lemma broker_choose_step:
  assumes "broker_choose env ch st = Some (l, st')"
  shows "broker_step st l st'"
proof (cases "choice_ref ch")
  case None
  with assms show ?thesis
    by (cases ch) (auto simp: broker_choose_def choice_ref_def Let_def intro: b_arrive b_handle split: if_splits list.splits)
next
  case (Some r)
  with assms obtain s mv s' where s: "session_of r st = Some s" "session_choice (config_of st r) ch s = Some (mv, s')"
    "l = Moved r mv" "st' = put_running r s' st"
    by (cases ch) (auto simp: broker_choose_def choice_ref_def split: option.splits)
  from session_choice_move [OF s(2)] b_session [OF s(1)] s(3,4) show ?thesis unfolding put_running_def by blast
qed

lemma broker_schedule_run: "broker_schedule env chs (fresh_broker srv) = Some (bls, st) \<Longrightarrow> broker_run srv bls st"
proof -
  have "broker_schedule env chs st0 = Some (bls, st) \<Longrightarrow> trace broker_step st0 bls st" for st0
  proof (induction chs arbitrary: st0 bls)
    case (Cons ch chs)
    then show ?case by (fastforce split: option.splits intro: trace_Cons broker_choose_step)
  qed (simp add: trace_Nil)
  then show "broker_schedule env chs (fresh_broker srv) = Some (bls, st) \<Longrightarrow> broker_run srv bls st" unfolding broker_run_def .
qed

end
