(* ===== verification/BrokerInv.thy ===== *)
theory BrokerInv
  imports Broker SlackFeed
begin

text \<open>
  What holds in every state a broker can reach, for all its sessions, handlers and tickets together:
  a session is never closed, so a started one keeps its Slack loop; the session of a golden template
  actor never talks to Slack; a connection is attached only with a ticket that was issued for its actor,
  and a ticket for an actor is issued only once its Slack loop was started.
\<close>

section \<open>Moves of a session\<close>

lemma move_started: "session_move c s mv s' \<Longrightarrow> started s \<Longrightarrow> started s'"
proof (induction rule: session_move.induct)
  case (m_step s l s')
  from m_step(1) show ?case
  proof (cases rule: step_cases)
    case (ran t ts' s1 g)
    with exec_started [OF ran(3)] m_step(3) show ?thesis
      by (auto simp: Close_def EnsureStarted_def go_def Let_def split: if_splits)
  qed (use m_step in \<open>auto simp: go_def Stop_def\<close>)
qed (auto simp: start_call_def EnsureStarted_def socket_call_def pass_call_def go_def Let_def)

lemma move_sinks:
  assumes "session_move c s mv s'"
  shows "nextSink s' = nextSink s + one (mv = MSocket)"
  using assms
proof (cases rule: session_moveE)
  case (m_step l)
  from m_step(2) have "nextSink s' = nextSink s"
  proof (cases rule: step_cases)
    case (ran t ts' s1 g)
    with exec_nextSink [OF ran(3)] show ?thesis by simp
  qed (use m_step in \<open>auto simp: go_def Stop_def\<close>)
  with m_step show ?thesis by simp
qed (auto simp: start_call_def EnsureStarted_def socket_call_def pass_call_def go_def Let_def)

text \<open>No goroutine of a broker closes a session.\<close>

definition open_session :: "session \<Rightarrow> bool" where
  "open_session s \<longleftrightarrow> \<not> closed s \<and> CloseSession \<notin># tasks s"

lemma exec_no_close: "exec c t s = Some (Inr (ts', s')) \<Longrightarrow> CloseSession \<notin> set ts'"
  by (cases t) (auto simp: plan_tasks_def read_tasks_def Let_def
      split: if_splits option.splits sum.splits list.splits event_plan.splits reply.splits)

lemma step_open:
  assumes "step c s l s'" "l \<noteq> Called" "open_session s"
  shows "open_session s'"
  using assms(1)
proof (cases rule: step_cases)
  case (ran t ts' s1 g)
  have "t \<noteq> CloseSession" using ran(2) assms(3) by (auto simp: open_session_def)
  then have "\<not> closed s1" using exec_started [OF ran(3)] assms(3) by (auto simp: open_session_def EnsureStarted_def go_def Let_def split: if_splits)
  moreover have "CloseSession \<notin># tasks s1" using exec_gos [OF ran(3)] assms(3) by (auto simp: open_session_def tasks_def)
  ultimately show ?thesis using ran(4,5) exec_no_close [OF ran(3)] by (auto simp: open_session_def dest: in_diffD)
next
  case (fired i fn)
  with assms(3) show ?thesis by (auto simp: open_session_def callback_def go_def Stop_def tasks_def split: timer_fn.splits)
qed (use assms(2) in simp)

lemma message_tasks:
  assumes "i < length (gos s)" "gos s ! i = ServeSocket sk # ts" "u \<in># tasks (s\<lparr>gos := (gos s)[i := socket_tasks sk m @ ts]\<rparr>)"
  shows "u \<in># tasks s \<or> u = DeliverBuffered sk \<or> (\<exists>x. u = AckEvent x)"
proof -
  have "mset (concat ((gos s)[i := socket_tasks sk m @ ts])) = tasks s - {#ServeSocket sk#} + mset (socket_tasks sk m)"
    using tasks_update [OF assms(1,2), of "socket_tasks sk m"] by (simp add: tasks_def)
  with assms(3) have "u \<in># tasks s \<or> u \<in> set (socket_tasks sk m)" by (simp only: tasks_upd) (auto dest: in_diffD)
  moreover have "ServeSocket sk \<in># tasks s" using task_member [OF assms(1,2)] by (simp add: tasks_def)
  ultimately show ?thesis using socket_tasks_cases [of sk m] by (elim disjE exE) auto
qed

lemma hang_up_tasks:
  assumes "i < length (gos s)" "gos s ! i = ServeSocket sk # ts" "u \<in># tasks (s\<lparr>gos := (gos s)[i := ts]\<rparr>)"
  shows "u \<in># tasks s"
proof -
  have "mset (concat ((gos s)[i := ts])) = tasks s - {#ServeSocket sk#}" using tasks_update [OF assms(1,2), of "[]"] by (simp add: tasks_def)
  with assms(3) show ?thesis by (simp only: tasks_upd) (auto dest: in_diffD)
qed

lemma start_tasks: "tasks (start_call token s) = tasks s + (if started s \<or> closed s then {#} else {#RunSlack second#})"
  by (simp add: start_call_def EnsureStarted_def go_def tasks_def Let_def)

lemma move_open: "session_move c s mv s' \<Longrightarrow> open_session s \<Longrightarrow> open_session s'"
proof (induction rule: session_move.induct)
  case (m_step s l s')
  show ?case by (rule step_open [OF m_step])
next
  case (m_message i s sk ts m)
  have "closed (s\<lparr>gos := (gos s)[i := socket_tasks sk m @ ts]\<rparr>) = closed s" by simp
  with m_message(3) message_tasks [OF m_message(1,2)] show ?case unfolding open_session_def by blast
next
  case (m_hang_up i s sk ts)
  have "closed (s\<lparr>gos := (gos s)[i := ts]\<rparr>) = closed s" by simp
  with m_hang_up(3) hang_up_tasks [OF m_hang_up(1,2)] show ?case unfolding open_session_def by blast
next
  case (m_start s token)
  have "closed (start_call token s) = closed s" by (simp add: start_call_def EnsureStarted_def go_def Let_def)
  with m_start start_tasks [of token s] show ?case by (auto simp: open_session_def)
qed (auto simp: open_session_def socket_call_def pass_call_def tasks_def go_def)

interpretation kept_open: session_property "\<lambda>c r s. open_session s" "\<lambda>r mv. True"
  by unfold_locales (simp add: open_session_def new_session_def tasks_def, rule move_open)

text \<open>The session of a golden template actor has nothing to do with Slack.\<close>

definition slack_call :: "action \<Rightarrow> bool" where
  "slack_call a = (case a of ODial token \<Rightarrow> True | ORead \<Rightarrow> True | OSlackAck i \<Rightarrow> True | _ \<Rightarrow> False)"

definition slackless :: "session \<Rightarrow> bool" where
  "slackless s \<longleftrightarrow> \<not> started s \<and> (\<forall>t \<in># tasks s. \<not> slack_task t \<and> (\<forall>token. t \<noteq> Start token)) \<and> (\<forall>a \<in> set (out s). \<not> slack_call a)"

lemma exec_no_Start: "exec c t s = Some (Inr (ts', s')) \<Longrightarrow> Start token \<notin> set ts'"
  by (cases t) (auto simp: plan_tasks_def read_tasks_def Let_def
      split: if_splits option.splits sum.splits list.splits event_plan.splits reply.splits)

lemma slack_task_call: "\<not> slack_task t \<Longrightarrow> call_of t s = Some a \<Longrightarrow> \<not> slack_call a"
  by (cases t) (auto simp: slack_task_def loop_task_def reading_task_def slack_call_def)

lemma step_slackless:
  assumes "step c s l s'" "l \<noteq> Called" "slackless s"
  shows "slackless s'"
  using assms(1)
proof (cases rule: step_cases)
  case (ran t ts' s1 g)
  have t: "\<not> slack_task t" "t \<noteq> Start token" for token using ran(2) assms(3) by (auto simp: slackless_def)
  have "\<not> started s1" using exec_started [OF ran(3)] t assms(3) by (auto simp: slackless_def Close_def split: if_splits)
  moreover have "\<not> slack_task u \<and> (\<forall>token. u \<noteq> Start token)" if "u \<in># tasks s'" for u
  proof -
    have "u \<in># tasks s1 \<or> u \<in> set ts'" using that ran(5) by (auto dest: in_diffD)
    moreover have "\<not> slack_task ResumeActor_call" by (simp add: slack_task_def loop_task_def reading_task_def)
    ultimately show ?thesis
      using exec_gos [OF ran(3)] t assms(3) exec_free [OF ran(3) t(1)] exec_no_Start [OF ran(3)]
      by (fastforce simp: slackless_def tasks_def)
  qed
  moreover have "\<forall>a \<in> set (out s1). \<not> slack_call a"
    using exec_out [OF ran(3)] assms(3) slack_task_call [OF t(1)] by (auto simp: slackless_def split: option.splits)
  ultimately show ?thesis using ran(4) by (simp add: slackless_def)
next
  case (fired i fn)
  then show ?thesis using assms(3)
    by (auto simp: slackless_def go_def Stop_def tasks_def callback_def slack_task_def loop_task_def reading_task_def split: timer_fn.splits)
qed (use assms(2) in simp)

lemma move_slackless: "session_move c s mv s' \<Longrightarrow> slackless s \<Longrightarrow> (\<And>token. mv \<noteq> MStart token) \<Longrightarrow> slackless s'"
proof (induction rule: session_move.induct)
  case (m_step s l s')
  show ?case by (rule step_slackless [OF m_step(1-3)])
next
  case (m_message i s sk ts m)
  have "\<not> slack_task u \<and> (\<forall>token. u \<noteq> Start token)" if "u = DeliverBuffered sk \<or> (\<exists>x. u = AckEvent x)" for u
    using that by (auto simp: slack_task_def loop_task_def reading_task_def)
  moreover let ?s = "s\<lparr>gos := (gos s)[i := socket_tasks sk m @ ts]\<rparr>"
  have "started ?s = started s" "out ?s = out s" by simp_all
  ultimately show ?case using m_message(3) message_tasks [OF m_message(1,2)] unfolding slackless_def by metis
next
  case (m_hang_up i s sk ts)
  have "started (s\<lparr>gos := (gos s)[i := ts]\<rparr>) = started s" "out (s\<lparr>gos := (gos s)[i := ts]\<rparr>) = out s" by simp_all
  with m_hang_up(3) hang_up_tasks [OF m_hang_up(1,2)] show ?case unfolding slackless_def by metis
qed (auto simp: slackless_def socket_call_def pass_call_def tasks_def go_def slack_task_def loop_task_def reading_task_def)

interpretation golden: session_property "\<lambda>c r s. Atespace r = goldenAtespace \<longrightarrow> slackless s"
    "\<lambda>r mv. Atespace r = goldenAtespace \<longrightarrow> (\<forall>token. mv \<noteq> MStart token)"
  by unfold_locales (simp add: slackless_def new_session_def tasks_def, blast intro: move_slackless)

section \<open>Handlers\<close>

definition handlers :: "running \<Rightarrow> http_task multiset" where
  "handlers st = mset (concat (run_http st))"

lemma broker_cases [consumes 1, case_names arrived handled moved]:
  assumes "broker_step st l st'"
  obtains (arrived) q where "l = Arrived q" "run_srv st' = run_srv st" "handlers st' = handlers st + {#HServe q#}"
      "run_http st' = run_http st @ [[HServe q]]"
  | (handled) env t ts ts' where "l = Handled env t" "t \<in># handlers st" "http_exec env t (run_srv st) = (ts', run_srv st')"
      "handlers st' = handlers st - {#t#} + mset ts'" "t # ts \<in> set (run_http st)"
      "set (run_http st') \<subseteq> insert (ts' @ ts) (set (run_http st))"
  | (moved) r s mv s' where "l = Moved r mv" "session_of r st = Some s" "session_move (config_of st r) s mv s'"
      "run_srv st' = (run_srv st)\<lparr>reg := put_session r s' (reg (run_srv st))\<rparr>" "run_http st' = run_http st"
      "\<And>token. mv \<noteq> MStart token" "mv \<noteq> MSocket"
  using assms
proof (cases rule: broker_stepE)
  case (b_arrive q)
  then show ?thesis by (intro that(1)) (auto simp: handlers_def)
next
  case (b_handle i t ts env ts' srv')
  have "handlers st' = handlers st - {#t#} + mset ts'" using tasks_update [OF b_handle(3,4)] b_handle(2) by (simp add: handlers_def)
  moreover have "t \<in># handlers st" using task_member [OF b_handle(3,4)] by (simp add: handlers_def)
  moreover have "t # ts \<in> set (run_http st)" using b_handle(3,4) by (metis nth_mem)
  moreover have "set (run_http st') \<subseteq> insert (ts' @ ts) (set (run_http st))"
    using set_update_subset_insert [of "run_http st" i "ts' @ ts"] b_handle(2) by simp
  ultimately show ?thesis using that(2) b_handle by simp
next
  case (b_session r s mv s')
  have "\<And>token. mv \<noteq> MStart token" "mv \<noteq> MSocket" using b_session(5) by auto
  with b_session show ?thesis by (intro that(3)) auto
qed

lemma handled_member:
  "handlers st' = handlers st - {#t#} + mset ts' \<Longrightarrow> u \<in># handlers st' \<Longrightarrow> u \<in># handlers st \<or> u \<in> set ts'"
  by (metis in_diffD in_multiset_in_set union_iff)

text \<open>\<^verbatim>\<open>EnsureStarted\<close> is never called for a golden template actor.\<close>

definition no_golden_start :: "http_task \<Rightarrow> bool" where
  "no_golden_start t = (case t of HEnsure r token \<Rightarrow> Atespace r \<noteq> goldenAtespace | _ \<Rightarrow> True)"

definition golden_inv :: "running \<Rightarrow> bool" where
  "golden_inv st \<longleftrightarrow> (\<forall>t \<in># handlers st. no_golden_start t) \<and>
     all_sessions (\<lambda>c r s. Atespace r = goldenAtespace \<longrightarrow> slackless s) st"

lemma http_no_golden: "http_exec env t srv = (ts', srv') \<Longrightarrow> t' \<in> set ts' \<Longrightarrow> no_golden_start t'"
  by (cases t) (auto simp: no_golden_start_def Let_def split: if_splits sum.splits option.splits)

lemma golden_move:
  assumes "broker_step st l st'" "\<forall>t \<in># handlers st. no_golden_start t" "label_move l r = Some mv" "Atespace r = goldenAtespace"
  shows "mv \<noteq> MStart token"
  using assms(1)
proof (cases rule: broker_cases)
  case (handled env t ts ts')
  with assms(2-4) show ?thesis by (cases t) (auto simp: no_golden_start_def split: if_splits)
qed (use assms(3) in \<open>auto split: if_splits\<close>)

lemma step_golden:
  assumes "golden_inv st" "broker_step st l st'"
  shows "golden_inv st'"
proof -
  from assms(1) have inv: "\<forall>t \<in># handlers st. no_golden_start t"
    "all_sessions (\<lambda>c r s. Atespace r = goldenAtespace \<longrightarrow> slackless s) st" by (simp_all add: golden_inv_def)
  from assms(2) have "\<forall>t \<in># handlers st'. no_golden_start t"
  proof (cases rule: broker_cases)
    case (handled env t ts ts')
    show ?thesis using handled_member [OF handled(4)] inv(1) http_no_golden [OF handled(3)] by blast
  next
    case (moved r s mv s')
    with inv(1) show ?thesis by (simp add: handlers_def)
  qed (use inv(1) in \<open>auto simp: no_golden_start_def\<close>)
  moreover have "all_sessions (\<lambda>c r s. Atespace r = goldenAtespace \<longrightarrow> slackless s) st'"
    by (rule golden.keeps_all [OF assms(2) inv(2)]) (use golden_move [OF assms(2) inv(1)] in blast)
  ultimately show ?thesis by (simp add: golden_inv_def)
qed

section \<open>Tickets and connections\<close>

definition live_tickets :: "ActorRef \<Rightarrow> (bytes \<times> ticketEntry) list \<Rightarrow> nat" where
  "live_tickets r ts = length (filter (\<lambda>te. ticket_ref (snd te) = r) ts)"

lemma live_tickets_update: "live_tickets r (AList.update t e ts) \<le> live_tickets r ts + one (ticket_ref e = r)"
  by (induction ts) (auto simp: live_tickets_def one_def)

lemma live_tickets_delete:
  "live_tickets r (AList.delete t ts) + one (\<exists>e. map_of ts t = Some e \<and> ticket_ref e = r) \<le> live_tickets r ts"
proof (induction ts)
  case (Cons te ts)
  have "live_tickets r (AList.delete t ts) \<le> live_tickets r ts" using Cons by simp
  with Cons show ?case by (cases te) (auto simp: live_tickets_def delete_simps one_def split: if_splits)
qed (simp add: live_tickets_def one_def)

text \<open>The tickets that were issued for an actor in a run, and its handlers that hold a redeemed one.\<close>

definition issuing :: "ActorRef \<Rightarrow> http_task \<Rightarrow> bool" where
  "issuing r t = (case t of HIssue q r' \<Rightarrow> r' = r | _ \<Rightarrow> False)"

definition issues :: "ActorRef \<Rightarrow> 'e broker_label \<Rightarrow> bool" where
  "issues r l = (case l of Handled env t \<Rightarrow> issuing r t | _ \<Rightarrow> False)"

definition issued :: "ActorRef \<Rightarrow> 'e broker_label list \<Rightarrow> nat" where
  "issued r bls = length (filter (issues r) bls)"

definition connecting :: "ActorRef \<Rightarrow> http_task \<Rightarrow> bool" where
  "connecting r t \<longleftrightarrow> t = HUpgrade r \<or> t = HAttach r"

definition attached :: "ActorRef \<Rightarrow> running \<Rightarrow> nat" where
  "attached r st = (case session_of r st of None \<Rightarrow> 0 | Some s \<Rightarrow> nextSink s)"

definition ticket_inv :: "ActorRef \<Rightarrow> 'e broker_label list \<Rightarrow> running \<Rightarrow> bool" where
  "ticket_inv r bls st \<longleftrightarrow>
     attached r st + size (filter_mset (connecting r) (handlers st)) + live_tickets r (tickets (run_srv st)) \<le> issued r bls"

lemma change_attached:
  assumes "session_change c r so mo so'"
  shows "(case so' of None \<Rightarrow> 0 | Some s \<Rightarrow> nextSink s) = (case so of None \<Rightarrow> 0 | Some s \<Rightarrow> nextSink s) + one (mo = Some MSocket)"
  using assms by cases (auto simp: new_session_def dest: move_sinks)

lemma broker_attached:
  assumes "broker_step st l st'"
  shows "attached r st' \<le> attached r st + one (label_move l r = Some MSocket)"
proof -
  from broker_change [OF assms, of r] obtain mo where
    "session_change (config_of st r) r (session_of r st) mo (session_of r st')" "mo = None \<or> mo = label_move l r" by blast
  with change_attached [OF this(1)] show ?thesis by (auto simp: attached_def one_def split: if_splits)
qed

lemma http_tickets:
  assumes "http_exec env t srv = (ts', srv')"
  shows "length (filter (connecting r) ts') + live_tickets r (tickets srv') + one (handler_move t r = Some MSocket) \<le>
    live_tickets r (tickets srv) + one (connecting r t) + one (issuing r t)"
proof (cases t)
  case (HSocket q)
  let ?t = "query_get ''ticket'' (RawQuery q)"
  have "filter (connecting r) ts' = filter (connecting r) (case fst (redeemTicket (now env) ?t srv) of None \<Rightarrow> [] | Some r \<Rightarrow> [HUpgrade r])" "tickets srv' = AList.delete ?t (tickets srv)"
    using assms HSocket by (auto simp: Let_def redeemTicket_result del_ticket_def connecting_def split: option.splits if_splits)
  with HSocket live_tickets_delete [of r ?t "tickets srv"] show ?thesis
    by (auto simp: redeemTicket_result look_ticket_def connecting_def issuing_def one_def split: option.splits if_splits)
next
  case (HIssue q r')
  with assms live_tickets_update [of r "next_ticket srv" "\<lparr>ticket_ref = r', expires = now env + ticket_life\<rparr>" "tickets srv"] show ?thesis
    by (auto simp: ticket_answer_def issueTicket_result put_ticket_def issuing_def connecting_def one_def Let_def split: if_splits)
qed (use assms in \<open>auto simp: Let_def connecting_def issuing_def one_def split: if_splits sum.splits option.splits\<close>)

lemma step_ticket_inv:
  assumes "broker_step st l st'" "ticket_inv r bls st"
  shows "ticket_inv r (bls @ [l]) st'"
proof -
  let ?n = "\<lambda>st. size (filter_mset (connecting r) (handlers st))"
  have grown: "issued r (bls @ [l]) = issued r bls + one (issues r l)" by (simp add: issued_def one_def)
  from assms(1) have "?n st' + live_tickets r (tickets (run_srv st')) + one (label_move l r = Some MSocket) \<le>
      ?n st + live_tickets r (tickets (run_srv st)) + one (issues r l)"
  proof (cases rule: broker_cases)
    case (arrived q)
    then show ?thesis by (simp add: connecting_def issues_def)
  next
    case (handled env t ts ts')
    obtain M where M: "handlers st = add_mset t M" using handled(2) by (metis insert_DiffM)
    then have "?n st' = size (filter_mset (connecting r) M) + length (filter (connecting r) ts')"
      using handled(4) by (simp flip: mset_filter)
    moreover have "?n st = size (filter_mset (connecting r) M) + one (connecting r t)" unfolding M by (simp add: one_def)
    ultimately show ?thesis using http_tickets [OF handled(3), of r] handled(1) by (simp add: issues_def)
  next
    case (moved r' s mv s')
    then show ?thesis by (simp add: handlers_def issues_def one_def)
  qed
  with broker_attached [OF assms(1), of r] assms(2) grown show ?thesis unfolding ticket_inv_def by linarith
qed

section \<open>Whoever connects is served\<close>

definition served :: "ActorRef \<Rightarrow> running \<Rightarrow> bool" where
  "served r st \<longleftrightarrow> Atespace r = goldenAtespace \<or> (\<exists>s. session_of r st = Some s \<and> started s)"

text \<open>The regions a handler can have before it, with what the ones behind it have achieved.\<close>

fun pledged :: "running \<Rightarrow> http_task list \<Rightarrow> bool" where
  "pledged st [] \<longleftrightarrow> True"
| "pledged st (t # ts) \<longleftrightarrow> (case t of
     HCreate r \<Rightarrow> (\<exists>token q. ts = [HEnsure r token, HIssue q r]) \<or> ts = [HAttach r] \<and> served r st
   | HEnsure r token \<Rightarrow> (\<exists>q. ts = [HIssue q r]) \<and> session_of r st \<noteq> None
   | HIssue q r \<Rightarrow> ts = [] \<and> served r st
   | HUpgrade r \<Rightarrow> ts = [] \<and> served r st
   | HAttach r \<Rightarrow> ts = [] \<and> served r st
   | _ \<Rightarrow> ts = [])"

definition serve_inv :: "running \<Rightarrow> bool" where
  "serve_inv st \<longleftrightarrow> all_sessions (\<lambda>c r s. open_session s) st \<and> (\<forall>g \<in> set (run_http st). pledged st g) \<and>
     (\<forall>t e. look_ticket t (run_srv st) = Some e \<longrightarrow> served (ticket_ref e) st) \<and> (\<forall>r. 0 < attached r st \<longrightarrow> served r st)"

lemma session_kept: "broker_step st l st' \<Longrightarrow> session_of r st = Some s \<Longrightarrow> \<exists>s'. session_of r st' = Some s' \<and> (started s \<longrightarrow> started s')"
  by (drule broker_change [of _ _ _ r], elim exE conjE, erule session_change.cases) (auto dest: move_started)

lemma served_kept: "broker_step st l st' \<Longrightarrow> served r st \<Longrightarrow> served r st'"
  using session_kept unfolding served_def by fastforce

lemma pledged_kept: "broker_step st l st' \<Longrightarrow> pledged st g \<Longrightarrow> pledged st' g"
proof (induction g)
  case (Cons t g)
  note kept = served_kept [OF Cons.prems(1)] session_kept [OF Cons.prems(1)]
  from Cons.prems(2) show ?case
  proof (cases t)
    case (HEnsure r token)
    with Cons.prems(2) kept(2) show ?thesis by fastforce
  qed (use Cons.prems(2) kept(1) in auto)
qed simp

lemma http_pledged:
  assumes "broker_step st l st'" "http_exec env t (run_srv st) = (ts', run_srv st')" "pledged st (t # ts)" "serve_inv st"
  shows "pledged st' (ts' @ ts)"
proof (cases t)
  case (HCreate r)
  have "run_srv st' = (run_srv st)\<lparr>reg := snd (GetOrCreate r (reg (run_srv st)))\<rparr>" using assms(2) HCreate by simp
  then have "session_of r st' \<noteq> None" by (simp add: GetOrCreate_lookup)
  with assms HCreate served_kept [OF assms(1), of r] show ?thesis by auto
next
  case (HEnsure r token)
  with assms(3) obtain s q where s: "session_of r st = Some s" "ts = [HIssue q r]" by auto
  with assms(4) have "\<not> closed s" by (auto simp: serve_inv_def all_sessions_def open_session_def)
  then have "started (start_call token s)" by (simp add: start_call_def EnsureStarted_def go_def Let_def)
  moreover have "run_srv st' = on_session r (start_call token) (run_srv st)" using assms(2) HEnsure by simp
  then have "session_of r st' = Some (start_call token s)" using s(1) by (simp add: on_session_lookup)
  ultimately show ?thesis using assms(2) HEnsure s(2) by (auto simp: served_def)
next
  case (HSocket q)
  have "served r st" if "fst (redeemTicket (now env) (query_get ''ticket'' (RawQuery q)) (run_srv st)) = Some r" for r
    using that assms(4) by (auto simp: redeemTicket_result serve_inv_def split: option.splits if_splits)
  with assms HSocket served_kept [OF assms(1)] show ?thesis by (auto simp: Let_def split: option.splits)
next
  case (HUpgrade r)
  with assms served_kept [OF assms(1), of r] show ?thesis by auto
next
  case (HOpen q)
  have "served r st'" if "Atespace r = goldenAtespace" for r using that by (simp add: served_def)
  with assms(2,3) HOpen show ?thesis by (auto simp: Let_def split: sum.splits if_splits)
qed (use assms(2,3) in \<open>auto simp: Let_def ticket_answer_def split: option.splits if_splits\<close>)

lemma http_look_ticket:
  assumes "http_exec env t srv = (ts', srv')" "look_ticket k srv' = Some e"
  shows "look_ticket k srv = Some e \<or> issuing (ticket_ref e) t"
proof (cases t)
  case (HIssue q r)
  with assms show ?thesis
    by (auto simp: issuing_def ticket_answer_def Let_def issueTicket_result put_ticket_def look_ticket_def update_conv split: if_splits)
next
  case (HSocket q)
  with assms show ?thesis
    by (auto simp: Let_def redeemTicket_result del_ticket_def look_ticket_def delete_conv split: if_splits option.splits)
qed (use assms in \<open>auto simp: Let_def look_ticket_def\<close>)

lemma step_serve_inv:
  assumes "serve_inv st" "broker_step st l st'"
  shows "serve_inv st'"
proof -
  from assms(1) have inv: "all_sessions (\<lambda>c r s. open_session s) st" "\<forall>g \<in> set (run_http st). pledged st g"
    "\<forall>t e. look_ticket t (run_srv st) = Some e \<longrightarrow> served (ticket_ref e) st" "\<forall>r. 0 < attached r st \<longrightarrow> served r st"
    by (simp_all add: serve_inv_def)
  note kept = served_kept [OF assms(2)] pledged_kept [OF assms(2)]
  have open': "all_sessions (\<lambda>c r s. open_session s) st'" by (rule kept_open.keeps_all [OF assms(2) inv(1)]) simp
  from assms(2) have rest: "(\<forall>g \<in> set (run_http st'). pledged st' g) \<and>
    (\<forall>t e. look_ticket t (run_srv st') = Some e \<longrightarrow> served (ticket_ref e) st') \<and>
    (\<forall>r. label_move l r = Some MSocket \<longrightarrow> served r st)"
  proof (cases rule: broker_cases)
    case (arrived q)
    with inv kept show ?thesis by (auto simp: look_ticket_def)
  next
    case (handled env t ts ts')
    have g: "pledged st (t # ts)" using inv(2) handled(5) by blast
    have "\<forall>g \<in> set (run_http st'). pledged st' g"
      using handled(6) inv(2) kept(2) http_pledged [OF assms(2) handled(3) g assms(1)] by blast
    moreover have "served (ticket_ref e) st'" if "look_ticket k (run_srv st') = Some e" for k e
      using http_look_ticket [OF handled(3) that] inv(3) kept(1) g by (auto simp: issuing_def split: http_task.splits)
    moreover have "served r st" if "label_move l r = Some MSocket" for r
      using that g handled(1) by (cases t) (auto split: if_splits)
    ultimately show ?thesis by blast
  next
    case (moved r s mv s')
    with inv kept show ?thesis by (auto simp: look_ticket_def split: if_splits)
  qed
  have "served r st'" if "0 < attached r st'" for r
  proof (cases "label_move l r = Some MSocket")
    case False
    then have "0 < attached r st" using broker_attached [OF assms(2), of r] that by (simp add: one_def)
    with inv(4) kept(1) show ?thesis by blast
  qed (use rest kept(1) in blast)
  with open' rest show ?thesis by (simp add: serve_inv_def)
qed

section \<open>Runs of a broker\<close>

lemma fresh_facts [simp]: "handlers (fresh_broker srv) = {#}" "run_http (fresh_broker srv) = []" "run_srv (fresh_broker srv) = srv"
  by (simp_all add: handlers_def fresh_broker_def)

text \<open>A server as \<^verbatim>\<open>NewServer\<close> makes it: no sessions, no tickets.\<close>

definition clean :: "Server \<Rightarrow> bool" where
  "clean srv \<longleftrightarrow> sessions (reg srv) = [] \<and> tickets srv = []"

lemma clean_new: "clean (NewServer (NewRegistry delay grace cf) base host path src)"
  by (simp add: clean_def NewServer_def NewRegistry_def)

lemma clean_look: "clean srv \<Longrightarrow> Lookup r (reg srv) = None"
  by (simp add: clean_def Lookup_def)

definition broker_inv :: "running \<Rightarrow> bool" where
  "broker_inv st \<longleftrightarrow> all_sessions (\<lambda>c r s. \<exists>ls. session_run c r ls s) st \<and> golden_inv st \<and> serve_inv st"

lemma broker_inv_fresh: "clean srv \<Longrightarrow> broker_inv (fresh_broker srv)"
  by (simp add: broker_inv_def golden_inv_def serve_inv_def all_sessions_def clean_look attached_def look_ticket_def)
    (simp add: clean_def)

lemma step_broker_inv: "broker_inv st \<Longrightarrow> broker_step st l st' \<Longrightarrow> broker_inv st'"
  unfolding broker_inv_def using runs.keeps_all step_golden step_serve_inv by blast

locale fresh_server =
  fixes srv :: Server
  assumes clean: "clean srv"

sublocale fresh_server \<subseteq> states: state_invariant broker_step "fresh_broker srv" "\<lambda>st. broker_inv st \<and> config_of st = reg_config (reg srv)"
  by unfold_locales (auto intro: broker_inv_fresh [OF clean] step_broker_inv simp: broker_config)

sublocale fresh_server \<subseteq> counts: run_invariant broker_step "fresh_broker srv" "ticket_inv r" for r
  by unfold_locales (simp add: ticket_inv_def attached_def clean_look [OF clean] live_tickets_def clean [unfolded clean_def], rule step_ticket_inv)

interpretation new_server: fresh_server "NewServer (NewRegistry delay grace cf) base host path src" for delay grace cf base host path src
  by unfold_locales (rule clean_new)

section \<open>A handler alone\<close>

fun written :: "http_task \<Rightarrow> response list" where
  "written (HReply q p) = [p]"
| "written _ = []"

text \<open>The regions of one handler, run without interruption in a fixed outside, with the responses it writes.\<close>

inductive handler_done :: "'e http_env \<Rightarrow> http_task list \<Rightarrow> Server \<Rightarrow> response list \<Rightarrow> Server \<Rightarrow> bool" for env where
  handled_Nil: "handler_done env [] srv [] srv"
| handled_step: "\<lbrakk>http_exec env t srv = (ts', srv1); handler_done env (ts' @ ts) srv1 ps srv'\<rbrakk> \<Longrightarrow>
    handler_done env (t # ts) srv (written t @ ps) srv'"

lemma handled_silent:
  "http_exec env t srv = (ts', srv1) \<Longrightarrow> handler_done env (ts' @ ts) srv1 ps srv' \<Longrightarrow> written t = [] \<Longrightarrow> handler_done env (t # ts) srv ps srv'"
  using handled_step [of env t srv ts' srv1 ts ps srv'] by simp

lemma done_reply: "handler_done env [HReply q p] srv [p] srv"
  using handled_step [of env "HReply q p" srv "[]" srv "[]" "[]" srv] handled_Nil [of env srv] by simp

lemma done_then_reply: "http_exec env t srv = ([HReply q p], srv') \<Longrightarrow> written t = [] \<Longrightarrow> handler_done env [t] srv [p] srv'"
  by (rule handled_silent [of _ _ _ "[HReply q p]" srv']) (simp_all add: done_reply)

text \<open>A server without the goroutines that have nothing left to do.\<close>

definition tidy_session :: "session \<Rightarrow> session" where
  "tidy_session s = s\<lparr>gos := filter (\<lambda>g. g \<noteq> []) (gos s)\<rparr>"

definition tidy :: "Server \<Rightarrow> Server" where
  "tidy srv = srv\<lparr>reg := (reg srv)\<lparr>sessions := map (map_prod id tidy_session) (sessions (reg srv))\<rparr>\<rparr>"

lemma map_update_value: "map (map_prod id f) (AList.update k v al) = AList.update k (f v) (map (map_prod id f) al)"
  by (induction al) auto

lemma tidy_put: "tidy_session s = tidy_session s' \<Longrightarrow>
    tidy (srv\<lparr>reg := put_session r s rg\<rparr>) = tidy (srv\<lparr>reg := put_session r s' rg\<rparr>)"
  by (simp add: tidy_def put_session_def map_update_value)

lemma tidy_start: "tidy_session (start_call token s) = tidy_session (EnsureStarted token s)"
  by (simp add: tidy_session_def start_call_def EnsureStarted_def go_def Let_def)

lemma tidy_issue:
  assumes "tidy srv = tidy srv'"
  shows "tidy (snd (issueTicket at r srv)) = tidy (snd (issueTicket at r srv'))"
proof -
  have eq: "tidy (snd (issueTicket at r x)) = (tidy x)\<lparr>srv_draws := srv_draws (tidy x) + 1,
      tickets := AList.update (hex_EncodeToString (rand_Read (srv_rand (tidy x)) (srv_draws (tidy x)) 16))
        \<lparr>ticket_ref = r, expires = at + ticket_life\<rparr> (tickets (tidy x))\<rparr>" for x
    by (simp add: issueTicket_def tidy_def Let_def)
  show ?thesis unfolding eq assms ..
qed

lemma tidy_ticket_answer:
  assumes "tidy srv = tidy srv'"
  shows "fst (ticket_answer env r srv) = fst (ticket_answer env r srv')" "tidy (snd (ticket_answer env r srv)) = tidy (snd (ticket_answer env r srv'))"
proof -
  have "wssHost srv = wssHost (tidy srv)" "wssPath srv = wssPath (tidy srv)" "next_ticket srv = next_ticket (tidy srv)" for srv
    by (simp_all add: tidy_def next_ticket_def)
  with assms show "fst (ticket_answer env r srv) = fst (ticket_answer env r srv')"
    by (simp add: ticket_answer_def issueTicket_result Let_def) metis
  show "tidy (snd (ticket_answer env r srv)) = tidy (snd (ticket_answer env r srv'))"
    using tidy_issue [OF assms] by (simp add: ticket_answer_def Let_def)
qed

lemma ensure_alone:
  "http_exec env (HEnsure r token) (srv\<lparr>reg := snd (GetOrCreate r (reg srv))\<rparr>) =
     ([], srv\<lparr>reg := put_session r (start_call token (fst (GetOrCreate r (reg srv)))) (snd (GetOrCreate r (reg srv)))\<rparr>)"
  by (simp add: on_session_def GetOrCreate_lookup)

lemma open_alone:
  "\<exists>srv'. handler_done env [HOpen q] srv [fst (handleConnectionsOpen env q srv)] srv' \<and>
     tidy srv' = tidy (snd (handleConnectionsOpen env q srv))"
proof -
  let ?token = "bearerToken (Header_Get (Header q) ''Authorization'')"
  show ?thesis
  proof (cases "?token = [] \<or> (\<exists>e. identify env q = Inl e)")
    case True
    then have "http_exec env (HOpen q) srv = ([HReply q (fst (handleConnectionsOpen env q srv))], srv)"
      by (auto simp: handleConnectionsOpen_def Let_def)
    from done_then_reply [OF this] have "handler_done env [HOpen q] srv [fst (handleConnectionsOpen env q srv)] srv" by simp
    moreover have "snd (handleConnectionsOpen env q srv) = srv" using True by (auto simp: handleConnectionsOpen_def Let_def)
    ultimately show ?thesis by auto
  next
    case False
    then obtain r where r: "?token \<noteq> []" "identify env q = Inr r" by (cases "identify env q") auto
    have issue: "handler_done env [HIssue q r] x [fst (ticket_answer env r x)] (snd (ticket_answer env r x))" for x
      by (rule done_then_reply) (simp_all add: Let_def)
    show ?thesis
    proof (cases "Atespace r = goldenAtespace")
      case True
      with r have "handler_done env [HOpen q] srv [fst (ticket_answer env r srv)] (snd (ticket_answer env r srv))"
        by (intro handled_silent [where ts' = "[HIssue q r]" and ?srv1.0 = srv]) (simp_all add: issue Let_def)
      with True r show ?thesis by (auto simp: handleConnectionsOpen_def Let_def)
    next
      case golden: False
      let ?g = "GetOrCreate r (reg srv)"
      let ?srv = "srv\<lparr>reg := put_session r (start_call ?token (fst ?g)) (snd ?g)\<rparr>"
      let ?a = "ticket_answer env r ?srv"
      have "handler_done env [HEnsure r ?token, HIssue q r] (srv\<lparr>reg := snd ?g\<rparr>) [fst ?a] (snd ?a)"
        by (rule handled_silent [OF ensure_alone]) (simp_all add: issue)
      then have "handler_done env [HCreate r, HEnsure r ?token, HIssue q r] srv [fst ?a] (snd ?a)"
        by (intro handled_silent [where ts' = "[]" and ?srv1.0 = "srv\<lparr>reg := snd ?g\<rparr>"]) simp_all
      then have "handler_done env [HOpen q] srv [fst ?a] (snd ?a)"
        using r golden by (intro handled_silent [where ts' = "[HCreate r, HEnsure r ?token, HIssue q r]" and ?srv1.0 = srv]) (simp_all add: Let_def)
      moreover have "tidy ?srv = tidy (update_session r (EnsureStarted ?token) srv)"
        unfolding update_session_def Let_def by (rule tidy_put [OF tidy_start])
      from tidy_ticket_answer [OF this] have "fst ?a = fst (handleConnectionsOpen env q srv)" "tidy (snd ?a) = tidy (snd (handleConnectionsOpen env q srv))"
        using r golden by (simp_all add: handleConnectionsOpen_def Let_def)
      ultimately show ?thesis by auto
    qed
  qed
qed

text \<open>The other handlers, as long as they do not go on in a session.\<close>

lemma pass_alone:
  assumes "\<And>r. header_ref q = Some r \<Longrightarrow> Lookup r (reg srv) = None"
  shows "handler_done env [HPass q] srv [fst (handlePassthrough env q srv)] srv" "snd (handlePassthrough env q srv) = srv"
proof -
  have caller: "on_caller f q srv = srv" for f using assms by (simp add: on_caller_def split: option.split)
  let ?o = "forward_request q srv"
  have relay: "handler_done env [HDo q] srv [relayed (Do env ?o)] srv" by (rule done_then_reply) simp_all
  show "snd (handlePassthrough env q srv) = srv" by (simp add: handlePassthrough_def Let_def caller)
  show "handler_done env [HPass q] srv [fst (handlePassthrough env q srv)] srv"
  proof (cases "valid_request env (out_method ?o) (out_url ?o)")
    case False
    then show ?thesis by (intro done_then_reply) (simp_all add: handlePassthrough_def Let_def)
  next
    case valid: True
    then have fst: "fst (handlePassthrough env q srv) = relayed (Do env ?o)" by (simp add: handlePassthrough_def Let_def)
    show ?thesis unfolding fst
    proof (cases "header_ref q")
      case None
      with valid relay show "handler_done env [HPass q] srv [relayed (Do env ?o)] srv"
        by (intro handled_silent [where ts' = "[HDo q]" and ?srv1.0 = srv]) (simp_all add: Let_def)
    next
      case (Some r)
      have "handler_done env [HLookup q r] srv [relayed (Do env ?o)] srv"
        by (rule handled_silent [where ts' = "[HDo q]" and ?srv1.0 = srv]) (use relay assms [OF Some] in simp_all)
      with valid Some show "handler_done env [HPass q] srv [relayed (Do env ?o)] srv"
        by (intro handled_silent [where ts' = "[HLookup q r]" and ?srv1.0 = srv]) (simp_all add: Let_def)
    qed
  qed
qed

lemma refused_alone:
  assumes "fst (redeemTicket (now env) (query_get ''ticket'' (RawQuery q)) srv) = None"
  shows "handler_done env [HSocket q] srv [http_Error ''invalid or expired ticket'' 401]
      (snd (redeemTicket (now env) (query_get ''ticket'' (RawQuery q)) srv))"
    "handleActorSocket env q srv = (Some (http_Error ''invalid or expired ticket'' 401),
      Inr (snd (redeemTicket (now env) (query_get ''ticket'' (RawQuery q)) srv)))"
  using assms by (auto simp: handleActorSocket_def Let_def intro: done_then_reply)

end
