(* ===== verification/BrokerReplies.thy ===== *)
theory BrokerReplies
  imports BrokerInv
begin

text \<open>
  The responses of a running broker. Every call of \<^verbatim>\<open>apps.connections.open\<close> is answered once, whatever else
  goes on, and a ticket that was handed out stays good until it is presented or expires.
\<close>

section \<open>What a handler answers to\<close>

definition is_open_call :: "Server \<Rightarrow> request \<Rightarrow> bool" where
  "is_open_call srv q \<longleftrightarrow> Path q \<noteq> wssPath srv \<and> Method q = ''POST'' \<and> Path q = PathConnectionsOpen"

fun request_of :: "http_task \<Rightarrow> request option" where
  "request_of (HServe q) = Some q"
| "request_of (HOpen q) = Some q"
| "request_of (HIssue q r) = Some q"
| "request_of (HSocket q) = Some q"
| "request_of (HPass q) = Some q"
| "request_of (HLookup q r) = Some q"
| "request_of (HDo q) = Some q"
| "request_of (HReply q p) = Some q"
| "request_of _ = None"

definition answers_to :: "request \<Rightarrow> http_task \<Rightarrow> bool" where
  "answers_to q t \<longleftrightarrow> request_of t = Some q"

fun replying :: "request \<Rightarrow> http_task \<Rightarrow> bool" where
  "replying q (HReply q' p) \<longleftrightarrow> q' = q"
| "replying q _ \<longleftrightarrow> False"

text \<open>A request is in the hands of the handler its path and method select.\<close>

definition routed :: "Server \<Rightarrow> http_task \<Rightarrow> bool" where
  "routed srv t = (case t of
     HOpen q \<Rightarrow> is_open_call srv q
   | HIssue q r \<Rightarrow> is_open_call srv q
   | HSocket q \<Rightarrow> \<not> is_open_call srv q
   | HPass q \<Rightarrow> \<not> is_open_call srv q
   | HLookup q r \<Rightarrow> \<not> is_open_call srv q
   | HDo q \<Rightarrow> \<not> is_open_call srv q
   | _ \<Rightarrow> True)"

lemma http_exec_server:
  assumes "http_exec env t srv = (ts', srv')"
  shows "wssPath srv' = wssPath srv" "wssHost srv' = wssHost srv" "srv_rand srv' = srv_rand srv"
  using assms by (cases t; auto simp: Let_def ticket_answer_def issueTicket_def redeemTicket_result del_ticket_def on_session_def split: option.splits)+

lemma broker_server:
  assumes "broker_step st l st'"
  shows "wssPath (run_srv st') = wssPath (run_srv st)" "wssHost (run_srv st') = wssHost (run_srv st)"
    "srv_rand (run_srv st') = srv_rand (run_srv st)"
  using assms by (cases rule: broker_cases; simp add: http_exec_server)+

lemma routed_server: "wssPath srv' = wssPath srv \<Longrightarrow> routed srv' = routed srv"
  by (simp add: routed_def is_open_call_def fun_eq_iff split: http_task.split)

lemma http_routed: "http_exec env t srv = (ts', srv') \<Longrightarrow> routed srv t \<Longrightarrow> u \<in> set ts' \<Longrightarrow> routed srv u"
  by (cases t) (auto simp: routed_def is_open_call_def Let_def split: if_splits sum.splits option.splits)

text \<open>A region hands the request on, answers it, or leaves it to a session.\<close>

lemma http_answers:
  assumes "http_exec env t srv = (ts', srv')"
  shows "length (filter (answers_to q) ts') + one (replying q t) \<le> one (answers_to q t)"
    "is_open_call srv q \<Longrightarrow> routed srv t \<Longrightarrow> length (filter (answers_to q) ts') + one (replying q t) = one (answers_to q t)"
  using assms by (cases t; auto simp: answers_to_def one_def Let_def routed_def split: if_splits sum.splits option.splits)+

section \<open>Every call is answered once\<close>

definition arrivals :: "request \<Rightarrow> 'e broker_label list \<Rightarrow> nat" where
  "arrivals q bls = length (filter (\<lambda>l. case l of Arrived q' \<Rightarrow> q' = q | _ \<Rightarrow> False) bls)"

definition replies :: "request \<Rightarrow> 'e broker_label list \<Rightarrow> nat" where
  "replies q bls = length (filter (\<lambda>l. case l of Handled env t \<Rightarrow> replying q t | _ \<Rightarrow> False) bls)"

definition in_hand :: "request \<Rightarrow> running \<Rightarrow> nat" where
  "in_hand q st = size (filter_mset (answers_to q) (handlers st))"

definition reply_inv :: "request \<Rightarrow> 'e broker_label list \<Rightarrow> running \<Rightarrow> bool" where
  "reply_inv q bls st \<longleftrightarrow> (\<forall>t \<in># handlers st. routed (run_srv st) t) \<and> replies q bls + in_hand q st \<le> arrivals q bls \<and>
     (is_open_call (run_srv st) q \<longrightarrow> replies q bls + in_hand q st = arrivals q bls)"

lemma step_reply_inv:
  assumes "reply_inv q bls st" "broker_step st l st'"
  shows "reply_inv q (bls @ [l]) st'"
proof -
  from assms(1) have inv: "\<forall>t \<in># handlers st. routed (run_srv st) t" "replies q bls + in_hand q st \<le> arrivals q bls"
    "is_open_call (run_srv st) q \<Longrightarrow> replies q bls + in_hand q st = arrivals q bls" by (simp_all add: reply_inv_def)
  have same: "routed (run_srv st') = routed (run_srv st)" "is_open_call (run_srv st') q = is_open_call (run_srv st) q"
    using broker_server(1) [OF assms(2)] by (rule routed_server, simp add: is_open_call_def)
  from assms(2) show ?thesis
  proof (cases rule: broker_cases)
    case (arrived q')
    have "in_hand q st' = in_hand q st + one (q' = q)" using arrived(3) by (simp add: in_hand_def answers_to_def one_def)
    moreover have "arrivals q (bls @ [l]) = arrivals q bls + one (q' = q)" "replies q (bls @ [l]) = replies q bls"
      using arrived(1) by (simp_all add: arrivals_def replies_def one_def)
    moreover have "\<forall>t \<in># handlers st'. routed (run_srv st) t" using arrived(3) inv(1) by (simp add: routed_def)
    ultimately show ?thesis unfolding reply_inv_def same using inv(2,3) by simp
  next
    case (handled env t ts ts')
    obtain M where M: "handlers st = add_mset t M" using handled(2) by (metis insert_DiffM)
    let ?m = "size (filter_mset (answers_to q) M)"
    have "in_hand q st' = ?m + length (filter (answers_to q) ts')" "in_hand q st = ?m + one (answers_to q t)"
      using handled(4) M by (simp_all add: in_hand_def one_def flip: mset_filter)
    moreover have "arrivals q (bls @ [l]) = arrivals q bls" "replies q (bls @ [l]) = replies q bls + one (replying q t)"
      using handled(1) by (simp_all add: arrivals_def replies_def one_def)
    moreover have "\<forall>u \<in># handlers st'. routed (run_srv st) u"
      using handled_member [OF handled(4)] inv(1) http_routed [OF handled(3)] handled(2) by blast
    moreover have "routed (run_srv st) t" using inv(1) handled(2) by blast
    ultimately show ?thesis unfolding reply_inv_def same using inv(2,3) http_answers [OF handled(3), of q] by (auto; linarith)
  next
    case (moved r s mv s')
    then show ?thesis unfolding reply_inv_def same using inv by (simp add: in_hand_def handlers_def arrivals_def replies_def)
  qed
qed

sublocale fresh_server \<subseteq> replied: run_invariant broker_step "fresh_broker srv" "reply_inv q" for q
  by unfold_locales (simp add: reply_inv_def in_hand_def arrivals_def replies_def, rule step_reply_inv)

text \<open>A handler that has a call of \<^verbatim>\<open>apps.connections.open\<close> in hand answers it, by its own regions alone.\<close>

lemma issue_done: "handler_done env [HIssue q r] srv [fst (ticket_answer env r srv)] (snd (ticket_answer env r srv))"
  by (rule done_then_reply) (simp_all add: Let_def)

lemma ensure_done: "\<exists>p srv'. handler_done env [HEnsure r token, HIssue q r] srv [p] srv'"
proof -
  let ?srv = "on_session r (start_call token) srv"
  have "handler_done env [HEnsure r token, HIssue q r] srv [fst (ticket_answer env r ?srv)] (snd (ticket_answer env r ?srv))"
    by (rule handled_silent [where ts' = "[]" and ?srv1.0 = ?srv]) (simp_all add: issue_done)
  then show ?thesis by blast
qed

lemma open_handler_done:
  assumes "pledged st g" "t \<in> set g" "answers_to q t" "routed (run_srv st) t" "is_open_call (run_srv st) q"
  shows "\<exists>p srv'. handler_done env g (run_srv st) [p] srv'"
proof -
  obtain u ts where g: "g = u # ts" using assms(2) by (cases g) auto
  note shape = assms(1) [unfolded g] assms(2) [unfolded g]
  show ?thesis
  proof (cases u)
    case (HServe q')
    with shape assms(3) have "g = [HServe q]" by (auto simp: answers_to_def g)
    moreover obtain srv' where "handler_done env [HOpen q] (run_srv st) [fst (handleConnectionsOpen env q (run_srv st))] srv'"
      using open_alone by blast
    then have "handler_done env [HServe q] (run_srv st) [fst (handleConnectionsOpen env q (run_srv st))] srv'"
      by (rule handled_silent [where ts' = "[HOpen q]" and ?srv1.0 = "run_srv st", rotated, unfolded append.simps])
        (use assms(5) in \<open>auto simp: is_open_call_def\<close>)
    ultimately show ?thesis by blast
  next
    case (HOpen q')
    with shape have "g = [HOpen q']" by (simp add: g)
    then show ?thesis using open_alone by blast
  next
    case (HCreate r)
    with shape assms(3) obtain token q' where ts: "ts = [HEnsure r token, HIssue q' r]" by (auto simp: answers_to_def)
    let ?srv = "(run_srv st)\<lparr>reg := snd (GetOrCreate r (reg (run_srv st)))\<rparr>"
    obtain p srv' where "handler_done env [HEnsure r token, HIssue q' r] ?srv [p] srv'" using ensure_done by blast
    then have "handler_done env g (run_srv st) [p] srv'"
      unfolding g HCreate ts by (intro handled_silent [where ts' = "[]" and ?srv1.0 = ?srv]) simp_all
    then show ?thesis by blast
  next
    case (HEnsure r token)
    with shape obtain q' where "ts = [HIssue q' r]" by auto
    with ensure_done show ?thesis unfolding g HEnsure by blast
  next
    case (HIssue q' r)
    with shape have "g = [HIssue q' r]" by (simp add: g)
    then show ?thesis using issue_done by blast
  next
    case (HReply q' p)
    with shape have "g = [HReply q' p]" by (simp add: g)
    then show ?thesis using done_reply by blast
  qed (use shape assms(3-5) in \<open>auto simp: answers_to_def routed_def\<close>)
qed

section \<open>Tickets stay good\<close>

text \<open>The tickets in the order in which they are issued.\<close>

definition ticket_no :: "rand_source \<Rightarrow> nat \<Rightarrow> bytes" where
  "ticket_no src k = hex_EncodeToString (rand_Read src k 16)"

definition issue_label :: "'e broker_label \<Rightarrow> bool" where
  "issue_label l \<longleftrightarrow> (\<exists>r. issues r l)"

definition issues_in :: "'e broker_label list \<Rightarrow> nat" where
  "issues_in bls = length (filter issue_label bls)"

definition presented :: "bytes \<Rightarrow> 'e broker_label list \<Rightarrow> bool" where
  "presented t bls \<longleftrightarrow> (\<exists>env q. Handled env (HSocket q) \<in> set bls \<and> query_get ''ticket'' (RawQuery q) = t)"

lemma issue_label_iff: "issue_label l \<longleftrightarrow> (\<exists>env q r. l = Handled env (HIssue q r))"
proof (cases l)
  case (Handled env t)
  then show ?thesis by (cases t) (auto simp: issue_label_def issues_def issuing_def)
qed (simp_all add: issue_label_def issues_def)

lemma issues_in_snoc: "issues_in (bls @ [l]) = issues_in bls + one (issue_label l)"
  by (simp add: issues_in_def one_def)

lemma presented_snoc: "presented t bls \<Longrightarrow> presented t (bls @ [l])"
  by (auto simp: presented_def)

text \<open>What a step does to the ticket table.\<close>

lemma http_draws:
  "http_exec env t srv = (ts', srv') \<Longrightarrow> srv_draws srv' = srv_draws srv + one (issue_label (Handled env t))"
  by (cases t) (auto simp: issue_label_iff one_def Let_def ticket_answer_def issueTicket_def redeemTicket_result del_ticket_def on_session_def
      split: option.splits)

lemma step_draws:
  assumes "broker_step st l st'"
  shows "srv_draws (run_srv st') = srv_draws (run_srv st) + one (issue_label l)"
  using assms
proof (cases rule: broker_cases)
  case (handled env t ts ts')
  from http_draws [OF handled(3)] handled(1) show ?thesis by simp
qed (simp_all add: issue_label_iff one_def)

lemma issue_exec:
  assumes "http_exec env (HIssue q r) srv = (ts', srv')"
  shows "look_ticket t srv' = (if t = next_ticket srv then Some \<lparr>ticket_ref = r, expires = now env + ticket_life\<rparr> else look_ticket t srv)"
  using assms by (auto simp: Let_def ticket_answer_def issueTicket_result put_ticket_def look_ticket_def update_conv)

lemma http_ticket_kept:
  assumes "http_exec env u srv = (ts', srv')" "look_ticket t srv = Some e" "issue_label (Handled env u) \<Longrightarrow> t \<noteq> next_ticket srv"
  shows "look_ticket t srv' = Some e \<or> presented t [Handled env u]"
proof (cases u)
  case (HIssue q r)
  with assms(3) have "t \<noteq> next_ticket srv" by (simp add: issue_label_iff)
  with assms(2) issue_exec [OF assms(1) [unfolded HIssue], of t] show ?thesis by simp
next
  case (HSocket q)
  with assms(1,2) show ?thesis
    by (auto simp: Let_def redeemTicket_result del_ticket_def look_ticket_def delete_conv presented_def)
qed (use assms(1,2) in \<open>auto simp: Let_def look_ticket_def split: option.splits\<close>)

lemma step_ticket_kept:
  assumes "broker_step st l st'" "look_ticket t (run_srv st) = Some e"
    "issue_label l \<Longrightarrow> t \<noteq> ticket_no (srv_rand (run_srv st)) (srv_draws (run_srv st))"
  shows "look_ticket t (run_srv st') = Some e \<or> presented t [l]"
  using assms(1)
proof (cases rule: broker_cases)
  case (handled env u ts ts')
  from http_ticket_kept [OF handled(3) assms(2)] assms(3) handled(1) show ?thesis by (simp add: ticket_no_def next_ticket_def)
qed (use assms(2) in \<open>simp_all add: look_ticket_def\<close>)

lemma step_ticket_new:
  assumes "broker_step st (Handled env (HIssue q r)) st'"
  shows "look_ticket (ticket_no (srv_rand (run_srv st)) (srv_draws (run_srv st))) (run_srv st') =
    Some \<lparr>ticket_ref = r, expires = now env + ticket_life\<rparr>"
  using assms
proof (cases rule: broker_cases)
  case (handled env' u ts ts')
  then have "http_exec env (HIssue q r) (run_srv st) = (ts', run_srv st')" by simp
  from issue_exec [OF this] show ?thesis by (simp add: ticket_no_def next_ticket_def)
qed simp_all

definition good_tickets :: "Server \<Rightarrow> 'e broker_label list \<Rightarrow> running \<Rightarrow> bool" where
  "good_tickets srv bls st \<longleftrightarrow> srv_rand (run_srv st) = srv_rand srv \<and> srv_draws (run_srv st) = srv_draws srv + issues_in bls \<and>
     (inj_on (ticket_no (srv_rand srv)) {..<srv_draws (run_srv st)} \<longrightarrow>
      (\<forall>bls1 env q r bls2. bls = bls1 @ Handled env (HIssue q r) # bls2 \<longrightarrow>
         (let t = ticket_no (srv_rand srv) (srv_draws srv + issues_in bls1)
          in presented t bls2 \<or> look_ticket t (run_srv st) = Some \<lparr>ticket_ref = r, expires = now env + ticket_life\<rparr>)))"

lemma step_good_tickets:
  assumes "good_tickets srv bls st" "broker_step st l st'"
  shows "good_tickets srv (bls @ [l]) st'"
proof -
  from assms(1) have inv: "srv_rand (run_srv st) = srv_rand srv" "srv_draws (run_srv st) = srv_draws srv + issues_in bls"
    by (simp_all add: good_tickets_def)
  have draws: "srv_draws (run_srv st') = srv_draws srv + issues_in (bls @ [l])"
    using step_draws [OF assms(2)] inv(2) by (simp add: issues_in_snoc)
  let ?no = "\<lambda>bls1. ticket_no (srv_rand srv) (srv_draws srv + issues_in bls1)"
  have "presented (?no bls1) bls2 \<or> look_ticket (?no bls1) (run_srv st') = Some \<lparr>ticket_ref = r, expires = now env + ticket_life\<rparr>"
    if inj: "inj_on (ticket_no (srv_rand srv)) {..<srv_draws (run_srv st')}" and split: "bls @ [l] = bls1 @ Handled env (HIssue q r) # bls2"
    for bls1 env q r bls2
  proof (cases bls2 rule: rev_cases)
    case Nil
    with split have "l = Handled env (HIssue q r)" "bls1 = bls" by auto
    with step_ticket_new [of st env q r st'] assms(2) inv show ?thesis by simp
  next
    case (snoc bls3 l')
    with split have old: "bls = bls1 @ Handled env (HIssue q r) # bls3" "l' = l" by auto
    have le: "srv_draws (run_srv st) \<le> srv_draws (run_srv st')" using step_draws [OF assms(2)] by simp
    have "inj_on (ticket_no (srv_rand srv)) {..<srv_draws (run_srv st)}" by (rule inj_on_subset [OF inj]) (use le in auto)
    with assms(1) old(1) have "presented (?no bls1) bls3 \<or>
        look_ticket (?no bls1) (run_srv st) = Some \<lparr>ticket_ref = r, expires = now env + ticket_life\<rparr>"
      unfolding good_tickets_def Let_def by blast
    moreover have "?no bls1 \<noteq> ticket_no (srv_rand (run_srv st)) (srv_draws (run_srv st))" if "issue_label l"
    proof
      assume eq: "?no bls1 = ticket_no (srv_rand (run_srv st)) (srv_draws (run_srv st))"
      have less: "srv_draws srv + issues_in bls1 < srv_draws (run_srv st)" unfolding inv(2) old(1) by (simp add: issues_in_def issue_label_iff)
      moreover have "srv_draws (run_srv st) < srv_draws (run_srv st')" using step_draws [OF assms(2)] that by (simp add: one_def)
      ultimately show False using inj_onD [OF inj eq [unfolded inv(1)]] by simp
    qed
    ultimately show ?thesis
      using step_ticket_kept [OF assms(2)] unfolding snoc old(2) presented_def by fastforce
  qed
  moreover have "srv_rand (run_srv st') = srv_rand srv" using inv(1) broker_server(3) [OF assms(2)] by simp
  ultimately show ?thesis unfolding good_tickets_def Let_def using draws by blast
qed

sublocale fresh_server \<subseteq> valid: run_invariant broker_step "fresh_broker srv" "good_tickets srv"
  by unfold_locales (simp add: good_tickets_def issues_in_def, rule step_good_tickets)

section \<open>What the answers say\<close>

definition refusal :: "response \<Rightarrow> bool" where
  "refusal p \<longleftrightarrow> p = open_answer \<lparr>OK = False, URL = [], Error = ''not_authed''\<rparr> \<or>
     p = open_answer \<lparr>OK = False, URL = [], Error = ''ws-poc_actor_not_identified''\<rparr>"

definition ticket_url :: "Server \<Rightarrow> bytes \<Rightarrow> response" where
  "ticket_url srv t = open_answer \<lparr>OK = True, URL = URL_String (wssHost srv) (wssPath srv) (''ticket='' @ t), Error = []\<rparr>"

definition granted :: "Server \<Rightarrow> 'e broker_label list \<Rightarrow> request \<Rightarrow> response \<Rightarrow> bool" where
  "granted srv bls q p \<longleftrightarrow> (\<exists>bls1 env r bls2. bls = bls1 @ Handled env (HIssue q r) # bls2 \<and>
     p = ticket_url srv (ticket_no (srv_rand srv) (srv_draws srv + issues_in bls1)))"

definition identified :: "'e broker_label list \<Rightarrow> request \<Rightarrow> ActorRef \<Rightarrow> bool" where
  "identified bls q r \<longleftrightarrow> (\<exists>env. Handled env (HOpen q) \<in> set bls \<and> identify env q = Inr r)"

definition happened :: "http_task \<Rightarrow> 'e broker_label list \<Rightarrow> running \<Rightarrow> bool" where
  "happened t bls st \<longleftrightarrow> t \<in># handlers st \<or> (\<exists>env. Handled env t \<in> set bls)"

definition answer_inv :: "Server \<Rightarrow> 'e broker_label list \<Rightarrow> running \<Rightarrow> bool" where
  "answer_inv srv bls st \<longleftrightarrow> wssHost (run_srv st) = wssHost srv \<and> wssPath (run_srv st) = wssPath srv \<and>
     (\<forall>q r. happened (HIssue q r) bls st \<longrightarrow> identified bls q r) \<and>
     (\<forall>q p. happened (HReply q p) bls st \<longrightarrow> is_open_call srv q \<longrightarrow> refusal p \<or> granted srv bls q p) \<and>
     (\<forall>env q r. Handled env (HIssue q r) \<in> set bls \<longrightarrow> served r st)"

lemma granted_more: "granted srv bls q p \<Longrightarrow> granted srv (bls @ [l]) q p"
  unfolding granted_def by (elim exE conjE) (metis append_Cons append_assoc)

lemma identified_more: "identified bls q r \<Longrightarrow> identified (bls @ [l]) q r"
  by (auto simp: identified_def)

lemma http_new_issue: "http_exec env t srv = (ts', srv') \<Longrightarrow> HIssue q r \<in> set ts' \<Longrightarrow> t = HOpen q \<and> identify env q = Inr r"
  by (cases t) (auto simp: Let_def split: if_splits sum.splits option.splits)

lemma http_new_reply:
  "http_exec env t srv = (ts', srv') \<Longrightarrow> HReply q p \<in> set ts' \<Longrightarrow> is_open_call srv q \<Longrightarrow> routed srv t \<Longrightarrow>
     t = HOpen q \<and> refusal p \<or> (\<exists>r. t = HIssue q r \<and> p = ticket_url srv (next_ticket srv))"
  by (cases t) (auto simp: refusal_def routed_def ticket_url_def ticket_answer_def issueTicket_result Let_def
      split: if_splits sum.splits option.splits)

text \<open>What a step adds to what has happened: the tasks a region hands on.\<close>

lemma step_happened:
  assumes "broker_step st l st'" "happened t (bls @ [l]) st'" "\<And>q. t \<noteq> HServe q"
  shows "happened t bls st \<or> (\<exists>env u ts'. l = Handled env u \<and> u \<in># handlers st \<and> http_exec env u (run_srv st) = (ts', run_srv st') \<and> t \<in> set ts')"
  using assms(1)
proof (cases rule: broker_cases)
  case (handled env u ts ts')
  with assms(2) handled_member [OF handled(4), of t] show ?thesis by (auto simp: happened_def)
qed (use assms(2,3) in \<open>auto simp: happened_def handlers_def\<close>)

lemma issue_happened:
  assumes "broker_step st l st'" "happened (HIssue q r) (bls @ [l]) st'"
  shows "happened (HIssue q r) bls st \<or> (\<exists>env u ts'. l = Handled env u \<and> u \<in># handlers st \<and> http_exec env u (run_srv st) = (ts', run_srv st') \<and> HIssue q r \<in> set ts')"
  by (rule step_happened [OF assms]) simp

lemma reply_happened:
  assumes "broker_step st l st'" "happened (HReply q p) (bls @ [l]) st'"
  shows "happened (HReply q p) bls st \<or> (\<exists>env u ts'. l = Handled env u \<and> u \<in># handlers st \<and> http_exec env u (run_srv st) = (ts', run_srv st') \<and> HReply q p \<in> set ts')"
  by (rule step_happened [OF assms]) simp

lemma step_answer_inv:
  assumes "answer_inv srv bls st" "broker_step st l st'" "good_tickets srv bls st" "\<forall>t \<in># handlers st. routed (run_srv st) t" "serve_inv st"
  shows "answer_inv srv (bls @ [l]) st'"
proof -
  from assms(1) have inv: "wssHost (run_srv st) = wssHost srv" "wssPath (run_srv st) = wssPath srv"
    "\<And>q r. happened (HIssue q r) bls st \<Longrightarrow> identified bls q r"
    "\<And>q p. happened (HReply q p) bls st \<Longrightarrow> is_open_call srv q \<Longrightarrow> refusal p \<or> granted srv bls q p"
    "\<And>env q r. Handled env (HIssue q r) \<in> set bls \<Longrightarrow> served r st" unfolding answer_inv_def by blast+
  have "identified (bls @ [l]) q r" if "happened (HIssue q r) (bls @ [l]) st'" for q r
    using issue_happened [OF assms(2) that]
  proof (elim disjE exE conjE)
    fix env u ts' assume u: "l = Handled env u" "http_exec env u (run_srv st) = (ts', run_srv st')" "HIssue q r \<in> set ts'"
    from http_new_issue [OF u(2,3)] u(1) show ?thesis by (auto simp: identified_def)
  qed (blast intro: inv(3) identified_more)
  moreover have "refusal p \<or> granted srv (bls @ [l]) q p" if "happened (HReply q p) (bls @ [l]) st'" and q: "is_open_call srv q" for q p
    using reply_happened [OF assms(2) that(1)]
  proof (elim disjE exE conjE)
    fix env u ts' assume u: "l = Handled env u" "http_exec env u (run_srv st) = (ts', run_srv st')" "HReply q p \<in> set ts'" "u \<in># handlers st"
    have "is_open_call (run_srv st) q" using q unfolding is_open_call_def inv(2) .
    from http_new_reply [OF u(2,3) this] assms(4) u(4) consider "refusal p" | r where "u = HIssue q r" "p = ticket_url (run_srv st) (next_ticket (run_srv st))" by blast
    then show ?thesis
    proof cases
      case 2
      have "ticket_url (run_srv st) = ticket_url srv" using inv(1,2) by (simp add: ticket_url_def fun_eq_iff)
      moreover have "next_ticket (run_srv st) = ticket_no (srv_rand srv) (srv_draws srv + issues_in bls)"
        using assms(3) by (simp add: good_tickets_def next_ticket_def ticket_no_def)
      ultimately show ?thesis using 2 u(1) unfolding granted_def by (metis append_Nil2)
    qed simp
  qed (use inv(4) q granted_more in \<open>blast+\<close>)
  moreover have "served r st'" if "Handled env (HIssue q r) \<in> set (bls @ [l])" for env q r
  proof -
    have "served r st" if l: "l = Handled env (HIssue q r)"
      using assms(2)
    proof (cases rule: broker_cases)
      case (handled env' u ts ts')
      with assms(5) l show ?thesis by (fastforce simp: serve_inv_def)
    qed (use l in simp_all)
    with that inv(5) have "served r st" by auto
    then show ?thesis by (rule served_kept [OF assms(2)])
  qed
  ultimately show ?thesis unfolding answer_inv_def using inv(1,2) broker_server(1,2) [OF assms(2)] by auto
qed

sublocale fresh_server \<subseteq> told: run_invariant broker_step "fresh_broker srv" "answer_inv srv"
proof
  show "answer_inv srv [] (fresh_broker srv)" by (simp add: answer_inv_def happened_def)
  fix bls :: "'a broker_label list" and st and l :: "'a broker_label" and st'
  assume run: "trace broker_step (fresh_broker srv) bls st" and inv: "answer_inv srv bls st" and step: "broker_step st l st'"
  have "good_tickets srv bls st" "\<forall>t \<in># handlers st. routed (run_srv st) t" "serve_inv st"
    using valid.holds [OF run] replied.holds [OF run] states.holds [OF run] by (simp_all add: reply_inv_def broker_inv_def)
  with inv step show "answer_inv srv (bls @ [l]) st'" by (rule step_answer_inv)
qed

text \<open>The ticket of an answer, when the random source did not repeat itself.\<close>

lemma granted_ticket:
  assumes "good_tickets srv bls st" "answer_inv srv bls st" "inj_on (\<lambda>k. rand_Read (srv_rand srv) k 16) {..<srv_draws (run_srv st)}"
    "granted srv bls q p"
  shows "\<exists>bls1 env r bls2 t. bls = bls1 @ Handled env (HIssue q r) # bls2 \<and> identified bls q r \<and> p = ticket_url srv t \<and>
    (presented t bls2 \<or> (\<forall>at. at \<le> now env + ticket_life \<longrightarrow> fst (redeemTicket at t (run_srv st)) = Some r)) \<and> served r st"
proof -
  from assms(4) obtain bls1 env r bls2 where g: "bls = bls1 @ Handled env (HIssue q r) # bls2"
    "p = ticket_url srv (ticket_no (srv_rand srv) (srv_draws srv + issues_in bls1))" by (auto simp: granted_def)
  let ?t = "ticket_no (srv_rand srv) (srv_draws srv + issues_in bls1)"
  have "inj_on (ticket_no (srv_rand srv)) {..<srv_draws (run_srv st)}"
    using assms(3) by (auto simp: inj_on_def ticket_no_def hex_EncodeToString_inject)
  with assms(1) g(1) have "presented ?t bls2 \<or> look_ticket ?t (run_srv st) = Some \<lparr>ticket_ref = r, expires = now env + ticket_life\<rparr>"
    unfolding good_tickets_def Let_def by blast
  then have "presented ?t bls2 \<or> (\<forall>at. at \<le> now env + ticket_life \<longrightarrow> fst (redeemTicket at ?t (run_srv st)) = Some r)"
    by (auto simp: redeemTicket_result)
  moreover have "happened (HIssue q r) bls st" "Handled env (HIssue q r) \<in> set bls" unfolding happened_def g(1) by auto
  then have "identified bls q r" "served r st" using assms(2) unfolding answer_inv_def by blast+
  ultimately show ?thesis using g by blast
qed

section \<open>Whoever has a session was identified\<close>

definition known :: "'e broker_label list \<Rightarrow> ActorRef \<Rightarrow> bool" where
  "known bls r \<longleftrightarrow> (\<exists>q. identified bls q r)"

fun actor_of :: "http_task \<Rightarrow> ActorRef option" where
  "actor_of (HCreate r) = Some r"
| "actor_of (HEnsure r token) = Some r"
| "actor_of (HIssue q r) = Some r"
| "actor_of (HUpgrade r) = Some r"
| "actor_of (HAttach r) = Some r"
| "actor_of _ = None"

definition known_inv :: "'e broker_label list \<Rightarrow> running \<Rightarrow> bool" where
  "known_inv bls st \<longleftrightarrow> (\<forall>r s. session_of r st = Some s \<longrightarrow> known bls r) \<and>
     (\<forall>t e. look_ticket t (run_srv st) = Some e \<longrightarrow> known bls (ticket_ref e)) \<and>
     (\<forall>t r. t \<in># handlers st \<longrightarrow> actor_of t = Some r \<longrightarrow> known bls r)"

lemma known_more: "known bls r \<Longrightarrow> known (bls @ [l]) r"
  by (auto simp: known_def intro: identified_more)

lemma http_new_actor:
  assumes "http_exec env t srv = (ts', srv')" "u \<in> set ts'" "actor_of u = Some r"
  shows "actor_of t = Some r \<or> (\<exists>q. t = HOpen q \<and> identify env q = Inr r) \<or> (\<exists>k e. look_ticket k srv = Some e \<and> ticket_ref e = r)"
proof (cases t)
  case (HSocket q)
  with assms show ?thesis by (auto simp: Let_def redeemTicket_result split: option.splits if_splits) metis
qed (use assms in \<open>auto simp: Let_def split: if_splits sum.splits option.splits\<close>)

lemma http_new_session:
  assumes "http_exec env t srv = (ts', srv')" "Lookup r (reg srv') = Some s"
  shows "(\<exists>s. Lookup r (reg srv) = Some s) \<or> t = HCreate r"
proof (cases t)
  case (HCreate r')
  with assms GetOrCreate_other [of r r' "reg srv"] show ?thesis by (cases "r = r'") auto
qed (use assms in \<open>auto simp: Let_def on_session_lookup ticket_answer_def issueTicket_def redeemTicket_result del_ticket_def split: option.splits if_splits\<close>)

lemma step_known_inv:
  assumes "known_inv bls st" "broker_step st l st'"
  shows "known_inv (bls @ [l]) st'"
proof -
  from assms(1) have inv: "\<And>r s. session_of r st = Some s \<Longrightarrow> known (bls @ [l]) r"
    "\<And>t e. look_ticket t (run_srv st) = Some e \<Longrightarrow> known (bls @ [l]) (ticket_ref e)"
    "\<And>t r. t \<in># handlers st \<Longrightarrow> actor_of t = Some r \<Longrightarrow> known (bls @ [l]) r" by (auto simp: known_inv_def intro: known_more)
  from assms(2) show ?thesis
  proof (cases rule: broker_cases)
    case (arrived q)
    with inv show ?thesis by (auto simp: known_inv_def)
  next
    case (handled env t ts ts')
    have "known (bls @ [l]) r" if "session_of r st' = Some s" for r s
      using http_new_session [OF handled(3) that] inv(1) inv(3) [OF handled(2)] by auto
    moreover have "known (bls @ [l]) (ticket_ref e)" if "look_ticket k (run_srv st') = Some e" for k e
      using http_look_ticket [OF handled(3) that] inv(2) inv(3) [OF handled(2), of "ticket_ref e"]
      by (cases t) (auto simp: issuing_def)
    moreover have "known (bls @ [l]) r" if "u \<in># handlers st'" "actor_of u = Some r" for u r
    proof -
      have "known (bls @ [l]) r" if "t = HOpen q" "identify env q = Inr r" for q
        using that handled(1) by (auto simp: known_def identified_def)
      with handled_member [OF handled(4) that(1)] http_new_actor [OF handled(3) _ that(2)] inv(2) inv(3) that(2) handled(2) show ?thesis by blast
    qed
    ultimately show ?thesis unfolding known_inv_def by blast
  next
    case (moved r s mv s')
    have "known (bls @ [l]) k" if "session_of k st' = Some u" for k u
      using that moved(2,4) inv(1) by (cases "k = r") (auto simp: registry.put_other)
    with moved inv show ?thesis by (auto simp: known_inv_def handlers_def look_ticket_def)
  qed
qed

sublocale fresh_server \<subseteq> acquainted: run_invariant broker_step "fresh_broker srv" known_inv
  by unfold_locales (simp add: known_inv_def clean_look [OF clean] look_ticket_def clean [unfolded clean_def], rule step_known_inv)

end
