(* ===== verification/BrokerProps.thy ===== *)
theory BrokerProps
  imports BrokerReplies ServerProps
begin

text \<open>
  The properties of the concurrent broker, with all its handlers and sessions: its sessions, tickets,
  connections and responses, with concrete executions that meet their hypotheses.
\<close>

section \<open>A run for the examples\<close>

text \<open>
  An actor opens a connection (handler 0) and connects with the ticket it got (handler 1); its Slack loop
  makes its first steps, the connection is greeted and sends its heartbeat.
\<close>

definition socket_request :: request where
  "socket_request = \<lparr>Method = ''GET'', Path = ''/ws-poc/socketmode'', RawQuery = ''ticket='' @ next_ticket demo_server,
     Header = [], RemoteAddr = ''10.0.0.1:5001'', Body = []\<rparr>"

definition demo_traffic :: "broker_choice list" where
  "demo_traffic = BArrive open_request_of_bot # replicate 6 (BHandle 0) @ BArrive socket_request # replicate 5 (BHandle 1) @
     [BRun bot (CRun 1), BRun bot (CRun 1), BRun bot (CRun 1)] @ replicate 10 (BRun bot (CRun 2)) @
     [BMessage bot 2 (InPing None), BRun bot (CRun 2)]"

lemma traffic_result:
  "case broker_schedule demo_env demo_traffic (fresh_broker demo_server) of None \<Rightarrow> False
    | Some (bls, st) \<Rightarrow> (case session_of bot st of None \<Rightarrow> False
      | Some s \<Rightarrow> nextSink s = 1 \<and> sink s = Some 0 \<and> settled s \<and> issued bot bls = 1 \<and> Atespace bot \<noteq> goldenAtespace)"
  by code_simp

lemma traffic:
  obtains bls st s where "broker_run demo_server bls st" "session_of bot st = Some s" "nextSink s = 1" "issued bot (bls :: bytes broker_label list) = 1"
    "settled s" "Atespace bot \<noteq> goldenAtespace"
  using traffic_result broker_schedule_run by (fastforce split: option.splits)

section \<open>The broker\<close>

text \<open>
  C2. In a running broker, whatever requests come in and however handlers, sessions and timers
  interleave, every session behaves as a session: it is in a state that the session of its actor, with the
  broker's delays, can reach by itself, so that everything shown of a session's runs holds for it; in
  particular none of its goroutines panics.
\<close>

theorem broker_sessions_run:
  assumes "broker_run (NewServer (NewRegistry delay grace cf) base host path src) bls st" "Lookup r (reg (run_srv st)) = Some s"
    "c = (cf r)\<lparr>deliverDelay := delay, idleGrace := grace\<rparr>"
  shows "(\<exists>ls. session_run c r ls s) \<and> (\<forall>t p. t \<in># tasks s \<longrightarrow> exec c t s \<noteq> Some (Inl p))"
proof -
  have conf: "config_of st r = c"
    using new_server.states.holds [OF assms(1) [unfolded broker_run_def]] assms(3) by (simp add: NewServer_def NewRegistry_def)
  have "broker_inv st" using new_server.states.holds [OF assms(1) [unfolded broker_run_def]] by blast
  with assms(2) conf obtain ls where ls: "session_run c r ls s" by (auto simp: broker_inv_def all_sessions_def)
  with events.holds have "events_inv s" unfolding session_run_def by blast
  with ls exec_no_panic show ?thesis by blast
qed

theorem broker_sessions_run_witness:
  "\<exists>(bls :: bytes broker_label list) st s ls. broker_run demo_server bls st \<and> Lookup bot (reg (run_srv st)) = Some s \<and> nextSink s = 1 \<and>
     session_run \<lparr>deliverDelay = 0, idleGrace = 1000, rand_src = (\<lambda>k i. of_nat (k + i)), answer = (\<lambda>n. Ok)\<rparr> bot ls s"
proof -
  obtain bls :: "bytes broker_label list" and st s where t: "broker_run demo_server bls st" "session_of bot st = Some s" "nextSink s = 1" by (rule traffic)
  from broker_sessions_run [OF t(1) [unfolded demo_server_def] t(2) refl] obtain ls where
    "session_run \<lparr>deliverDelay = 0, idleGrace = 1000, rand_src = (\<lambda>k i. of_nat (k + i)), answer = (\<lambda>n. Ok)\<rparr> bot ls s" by auto
  with t show ?thesis by blast
qed

text \<open>
  C9. Connections need tickets: the number of connections that were ever attached to an actor's session is
  at most the number of tickets issued for that actor, which only an \<^verbatim>\<open>apps.connections.open\<close> call identified
  as that actor does.
\<close>

theorem connections_need_tickets:
  assumes "broker_run (NewServer (NewRegistry delay grace cf) base host path src) bls st" "Lookup r (reg (run_srv st)) = Some s"
  shows "nextSink s \<le> issued r bls"
proof -
  have "ticket_inv r bls st" using new_server.counts.holds [OF assms(1) [unfolded broker_run_def]] .
  with assms(2) show ?thesis by (simp add: ticket_inv_def attached_def)
qed

theorem connections_need_tickets_witness:
  "\<exists>(bls :: bytes broker_label list) st s. broker_run demo_server bls st \<and> Lookup bot (reg (run_srv st)) = Some s \<and> nextSink s = 1 \<and> 1 \<le> issued bot bls"
proof -
  obtain bls :: "bytes broker_label list" and st s where t: "broker_run demo_server bls st" "session_of bot st = Some s" "nextSink s = 1" by (rule traffic)
  from connections_need_tickets [OF t(1) [unfolded demo_server_def] t(2)] t show ?thesis by fastforce
qed

text \<open>
  C10. Whoever connects is served, and a golden template actor is not: a session that ever had a connection
  runs exactly one Slack loop, at every time, unless its actor is a golden one; the session of a golden
  actor is never started and never dials, reads or acknowledges anything at Slack.
\<close>

theorem connected_actors_are_served:
  assumes "broker_run (NewServer (NewRegistry delay grace cf) base host path src) bls st" "Lookup r (reg (run_srv st)) = Some s"
  shows "(Atespace r \<noteq> goldenAtespace \<and> 0 < nextSink s \<longrightarrow> size (filter_mset loop_task (tasks s)) = 1) \<and>
    (Atespace r = goldenAtespace \<longrightarrow> \<not> started s \<and> (\<forall>a \<in> set (out s). \<not> slack_call a))"
proof -
  have inv: "golden_inv st" "serve_inv st" "all_sessions (\<lambda>c r s. \<exists>ls. session_run c r ls s) st"
    using new_server.states.holds [OF assms(1) [unfolded broker_run_def]] by (simp_all add: broker_inv_def)
  from inv(3) assms(2) obtain ls where "session_run (config_of st r) r ls s" by (auto simp: all_sessions_def)
  with alive.holds have alive: "alive_inv s" unfolding session_run_def by blast
  have "\<not> closed s" using inv(2) assms(2) by (simp add: serve_inv_def all_sessions_def open_session_def)
  moreover have "started s" if "Atespace r \<noteq> goldenAtespace" "0 < nextSink s"
    using inv(2) assms(2) that by (auto simp: serve_inv_def attached_def served_def dest!: spec [of _ r])
  ultimately have "Atespace r \<noteq> goldenAtespace \<and> 0 < nextSink s \<longrightarrow> size (filter_mset loop_task (tasks s)) = 1"
    using alive by (simp add: alive_inv_def cnt_def)
  moreover have "Atespace r = goldenAtespace \<longrightarrow> slackless s" using inv(1) assms(2) by (simp add: golden_inv_def all_sessions_def)
  ultimately show ?thesis by (simp add: slackless_def)
qed

theorem connected_actors_are_served_witness:
  "\<exists>(bls :: bytes broker_label list) st s. broker_run demo_server bls st \<and> Lookup bot (reg (run_srv st)) = Some s \<and> nextSink s = 1 \<and>
     size (filter_mset loop_task (tasks s)) = 1"
proof -
  obtain bls :: "bytes broker_label list" and st s where t: "broker_run demo_server bls st" "session_of bot st = Some s" "nextSink s = 1"
    "Atespace bot \<noteq> goldenAtespace" by (rule traffic)
  from connected_actors_are_served [OF t(1) [unfolded demo_server_def] t(2)] t show ?thesis by auto
qed



section \<open>Responses\<close>

text \<open>An actor opens a connection, and is answered.\<close>

definition demo_opening :: "broker_choice list" where
  "demo_opening = BArrive open_request_of_bot # replicate 6 (BHandle 0)"

lemma opening_result:
  "case broker_schedule demo_env demo_opening (fresh_broker demo_server) of None \<Rightarrow> False
    | Some (bls, st) \<Rightarrow> srv_draws (run_srv st) = 1 \<and> replies open_request_of_bot bls = 1 \<and>
       (case last bls of Handled env t \<Rightarrow> (case t of HReply q p \<Rightarrow> q = open_request_of_bot \<and> \<not> refusal p | _ \<Rightarrow> False) | _ \<Rightarrow> False)"
  by code_simp

lemma demo_opened:
  obtains bls st env p where "broker_run demo_server (bls :: bytes broker_label list) st" "srv_draws (run_srv st) = 1"
    "Handled env (HReply open_request_of_bot p) \<in> set bls" "\<not> refusal p" "replies open_request_of_bot bls = 1"
proof -
  obtain bls st where s: "broker_schedule demo_env demo_opening (fresh_broker demo_server) = Some (bls, st)"
    using opening_result by (auto split: option.splits)
  with opening_result have d: "srv_draws (run_srv st) = 1" "replies open_request_of_bot bls = 1" and
    last: "case last bls of Handled env t \<Rightarrow> (case t of HReply q p \<Rightarrow> q = open_request_of_bot \<and> \<not> refusal p | _ \<Rightarrow> False) | _ \<Rightarrow> False" by auto
  from last obtain env t where t: "last bls = Handled env t" by (cases "last bls") auto
  with last obtain p where p: "t = HReply open_request_of_bot p" "\<not> refusal p" by (cases t) auto
  have "bls \<noteq> []" using d(2) by (auto simp: replies_def)
  with t p(1) have "Handled env (HReply open_request_of_bot p) \<in> set bls" by (metis last_in_set)
  with s d p(2) broker_schedule_run show thesis by (intro that) blast+
qed

lemma is_open_call_new:
  "Method q = ''POST'' \<Longrightarrow> Path q = PathConnectionsOpen \<Longrightarrow> path \<noteq> PathConnectionsOpen \<Longrightarrow> is_open_call (NewServer rg base host path src) q"
  by (auto simp: is_open_call_def NewServer_def)

text \<open>
  C13. Every call of \<^verbatim>\<open>apps.connections.open\<close> is answered once: at every time, the answers written to a request and the
  handlers that have it in hand are as many as its arrivals, and each of these handlers ends with exactly one answer when
  it runs, whatever the outside is then. No request at all is answered more often than it arrived.
\<close>

theorem opens_answered_once:
  assumes "broker_run (NewServer (NewRegistry delay grace cf) base host path src) bls st"
    "Method q = ''POST''" "Path q = PathConnectionsOpen" "path \<noteq> PathConnectionsOpen"
  shows "replies q bls + in_hand q st = arrivals q bls \<and>
    (\<forall>g \<in> set (run_http st). (\<exists>t \<in> set g. answers_to q t) \<longrightarrow> (\<exists>p srv'. handler_done env g (run_srv st) [p] srv')) \<and>
    replies q' bls \<le> arrivals q' bls"
proof -
  let ?srv = "NewServer (NewRegistry delay grace cf) base host path src"
  note run = assms(1) [unfolded broker_run_def]
  have reply: "reply_inv q bls st" "reply_inv q' bls st" by (rule new_server.replied.holds [OF run])+
  have "wssPath (run_srv st) = wssPath ?srv" using new_server.told.holds [OF run] by (simp add: answer_inv_def)
  with is_open_call_new [OF assms(2-4)] have q: "is_open_call (run_srv st) q" by (auto simp: is_open_call_def NewServer_def)
  have "serve_inv st" using new_server.states.holds [OF run] by (simp add: broker_inv_def)
  then have pledged: "pledged st g" if "g \<in> set (run_http st)" for g using that by (simp add: serve_inv_def)
  have "routed (run_srv st) t" if "g \<in> set (run_http st)" "t \<in> set g" for g t
    using reply(1) that by (force simp: reply_inv_def handlers_def)
  with pledged q open_handler_done
  have "\<forall>g \<in> set (run_http st). (\<exists>t \<in> set g. answers_to q t) \<longrightarrow> (\<exists>p srv'. handler_done env g (run_srv st) [p] srv')" by blast
  with reply q show ?thesis by (auto simp: reply_inv_def)
qed

theorem opens_answered_once_witness:
  "\<exists>(bls :: bytes broker_label list) st. broker_run demo_server bls st \<and>
     1 + in_hand open_request_of_bot st = arrivals open_request_of_bot bls"
proof -
  obtain bls :: "bytes broker_label list" and st where o: "broker_run demo_server bls st" "replies open_request_of_bot bls = 1" by (rule demo_opened)
  have q: "Method open_request_of_bot = ''POST''" "Path open_request_of_bot = PathConnectionsOpen" "''/ws-poc/socketmode'' \<noteq> PathConnectionsOpen"
    by (simp_all add: open_request_of_bot_def golden_request_def PathConnectionsOpen_def)
  from conjunct1 [OF opens_answered_once [OF o(1) [unfolded demo_server_def] q]] o show ?thesis by auto
qed

text \<open>
  C12. An answer of \<^verbatim>\<open>apps.connections.open\<close> is a refusal or it carries a good ticket, whatever handlers run at the same
  time: the ticket was issued for the actor that the call was identified as, and, as long as the random source does not
  repeat itself, it is accepted for that actor up to two minutes after that, unless it was presented since. The actor
  then has a session with a Slack loop, unless it is a golden one.
\<close>

theorem answers_carry_good_tickets:
  assumes "broker_run (NewServer (NewRegistry delay grace cf) base host path src) bls st"
    "inj_on (\<lambda>k. rand_Read src k 16) {..<srv_draws (run_srv st)}"
    "Method q = ''POST''" "Path q = PathConnectionsOpen" "path \<noteq> PathConnectionsOpen" "Handled env (HReply q p) \<in> set bls"
  shows "refusal p \<or> (\<exists>bls1 env' r bls2 t. bls = bls1 @ Handled env' (HIssue q r) # bls2 \<and> identified bls q r \<and>
    p = open_answer \<lparr>OK = True, URL = URL_String host path (''ticket='' @ t), Error = []\<rparr> \<and>
    (presented t bls2 \<or> (\<forall>at. at \<le> now env' + ticket_life \<longrightarrow> fst (redeemTicket at t (run_srv st)) = Some r)) \<and> served r st)"
proof -
  let ?srv = "NewServer (NewRegistry delay grace cf) base host path src"
  note run = assms(1) [unfolded broker_run_def]
  have told: "answer_inv ?srv bls st" by (rule new_server.told.holds [OF run])
  moreover have "happened (HReply q p) bls st" using assms(6) by (auto simp: happened_def)
  ultimately have "refusal p \<or> granted ?srv bls q p" using is_open_call_new [OF assms(3-5)] by (auto simp: answer_inv_def)
  moreover have "inj_on (\<lambda>k. rand_Read (srv_rand ?srv) k 16) {..<srv_draws (run_srv st)}" using assms(2) by (simp add: NewServer_def)
  note granted_ticket [OF new_server.valid.holds [OF run] told this, of q p]
  moreover have "ticket_url ?srv t = open_answer \<lparr>OK = True, URL = URL_String host path (''ticket='' @ t), Error = []\<rparr>" for t
    by (simp add: ticket_url_def NewServer_def)
  ultimately show ?thesis by metis
qed

theorem answers_carry_good_tickets_witness:
  "\<exists>(bls :: bytes broker_label list) st env p bls1 env' r bls2 t. broker_run demo_server bls st \<and>
     Handled env (HReply open_request_of_bot p) \<in> set bls \<and> bls = bls1 @ Handled env' (HIssue open_request_of_bot r) # bls2 \<and>
     (presented t bls2 \<or> (\<forall>at. at \<le> now env' + ticket_life \<longrightarrow> fst (redeemTicket at t (run_srv st)) = Some r))"
proof -
  obtain bls :: "bytes broker_label list" and st env p where o: "broker_run demo_server bls st" "srv_draws (run_srv st) = 1"
    "Handled env (HReply open_request_of_bot p) \<in> set bls" "\<not> refusal p" by (rule demo_opened)
  have q: "Method open_request_of_bot = ''POST''" "Path open_request_of_bot = PathConnectionsOpen" "''/ws-poc/socketmode'' \<noteq> PathConnectionsOpen"
    by (simp_all add: open_request_of_bot_def golden_request_def PathConnectionsOpen_def)
  have "inj_on f {..<srv_draws (run_srv st)}" for f :: "nat \<Rightarrow> 8 word list" using o(2) by (simp add: inj_on_def)
  from answers_carry_good_tickets [OF o(1) [unfolded demo_server_def] this q o(3)] o show ?thesis by blast
qed

end
