(* ===== verification/TlsMint.thy ===== *)
theory TlsMint
  imports Store GoStrings
begin

text \<open>
  Minting certificates, \<^verbatim>\<open>cmd/egress-broker/tlsmint.go\<close>: loading the CA, and a leaf certificate per
  name, made once and then served from the cache. PEM and X.509 decoding, key generation and
  signing are parameters; the \<open>n\<close>-th attempt to mint may use its own randomness. Times are in
  nanoseconds.
\<close>

section \<open>Parameters and state\<close>

datatype key_usage = KeyUsageDigitalSignature

datatype ext_key_usage = ExtKeyUsageServerAuth

record template =
  SerialNumber :: int
  CommonName :: bytes
  NotBefore :: int
  NotAfter :: int
  KeyUsage :: key_usage
  ExtKeyUsage :: "ext_key_usage list"
  DNSNames :: "bytes list"

record ('cert, 'key) crypto =
  pem_Decode :: "bytes \<Rightarrow> bytes option"
  ParseCertificate :: "bytes \<Rightarrow> bytes + 'cert"
  IsCA :: "'cert \<Rightarrow> bool"
  RawCert :: "'cert \<Rightarrow> bytes"
  ParseECPrivateKey :: "bytes \<Rightarrow> bytes + 'key"
  ParsePKCS8PrivateKey :: "bytes \<Rightarrow> bytes + 'key option"
  GenerateKey :: "nat \<Rightarrow> bytes + 'key"
  SerialInt :: "nat \<Rightarrow> bytes + int"
  CreateCertificate :: "nat \<Rightarrow> template \<Rightarrow> 'cert \<Rightarrow> 'key \<Rightarrow> 'key \<Rightarrow> bytes + bytes"

record 'key tls_cert =
  Certificate :: "bytes list"
  PrivateKey :: 'key
  Leaf :: template

record ('cert, 'key) certMinter =
  caCert :: 'cert
  caKey :: 'key
  cache :: "(bytes \<times> 'key tls_cert) list"
  mints :: nat

datatype mint_error =
    ReadingCert bytes
  | ReadingKey bytes
  | NoCertBlock
  | ParsingCert bytes
  | NotACA
  | NoKeyBlock
  | ParsingKey bytes
  | KeyNotEC
  | GeneratingKey bytes
  | GeneratingSerial bytes
  | Signing bytes

section \<open>Operations\<close>

definition parseECKey :: "('cert, 'key) crypto \<Rightarrow> bytes \<Rightarrow> mint_error + 'key" where
  "parseECKey cr der = (case ParseECPrivateKey cr der of
     Inr k \<Rightarrow> Inr k
   | Inl _ \<Rightarrow> (case ParsePKCS8PrivateKey cr der of
        Inl e \<Rightarrow> Inl (ParsingKey e)
      | Inr None \<Rightarrow> Inl KeyNotEC
      | Inr (Some k) \<Rightarrow> Inr k))"

definition newCertMinter :: "('cert, 'key) crypto \<Rightarrow> bytes \<Rightarrow> bytes \<Rightarrow> mint_error + ('cert, 'key) certMinter" where
  "newCertMinter cr certPEM keyPEM = (case pem_Decode cr certPEM of
     None \<Rightarrow> Inl NoCertBlock
   | Some cb \<Rightarrow> (case ParseCertificate cr cb of
        Inl e \<Rightarrow> Inl (ParsingCert e)
      | Inr ca \<Rightarrow>
          (if \<not> IsCA cr ca then Inl NotACA
           else (case pem_Decode cr keyPEM of
              None \<Rightarrow> Inl NoKeyBlock
            | Some kb \<Rightarrow> (case parseECKey cr kb of
                 Inl e \<Rightarrow> Inl e
               | Inr k \<Rightarrow> Inr \<lparr>caCert = ca, caKey = k, cache = [], mints = 0\<rparr>)))))"

definition newCertMinterFromFiles ::
  "('cert, 'key) crypto \<Rightarrow> (bytes \<Rightarrow> bytes option) \<Rightarrow> bytes \<Rightarrow> bytes \<Rightarrow> mint_error + ('cert, 'key) certMinter" where
  "newCertMinterFromFiles cr ReadFile certPath keyPath = (case ReadFile certPath of
     None \<Rightarrow> Inl (ReadingCert certPath)
   | Some certPEM \<Rightarrow> (case ReadFile keyPath of
        None \<Rightarrow> Inl (ReadingKey keyPath)
      | Some keyPEM \<Rightarrow> newCertMinter cr certPEM keyPEM))"

definition hour :: int where
  "hour = 60 * 60 * 1000000000"

definition leaf_template :: "int \<Rightarrow> int \<Rightarrow> bytes \<Rightarrow> template" where
  "leaf_template serial now name = \<lparr>SerialNumber = serial, CommonName = name, NotBefore = now - hour,
     NotAfter = now + 365 * 24 * hour, KeyUsage = KeyUsageDigitalSignature,
     ExtKeyUsage = [ExtKeyUsageServerAuth], DNSNames = [name]\<rparr>"

definition certFor :: "('cert, 'key) crypto \<Rightarrow> int \<Rightarrow> bytes \<Rightarrow> ('cert, 'key) certMinter \<Rightarrow>
    (mint_error + 'key tls_cert) \<times> ('cert, 'key) certMinter" where
  "certFor cr now name m = (case map_of (cache m) name of
     Some c \<Rightarrow> (Inr c, m)
   | None \<Rightarrow>
       (let n = mints m; m1 = m\<lparr>mints := n + 1\<rparr>
        in (case GenerateKey cr n of
              Inl e \<Rightarrow> (Inl (GeneratingKey e), m1)
            | Inr k \<Rightarrow> (case SerialInt cr n of
                 Inl e \<Rightarrow> (Inl (GeneratingSerial e), m1)
               | Inr serial \<Rightarrow>
                   (let tmpl = leaf_template serial now name
                    in (case CreateCertificate cr n tmpl (caCert m) k (caKey m) of
                          Inl e \<Rightarrow> (Inl (Signing e), m1)
                        | Inr der \<Rightarrow>
                            (let c = \<lparr>Certificate = [der, RawCert cr (caCert m)], PrivateKey = k, Leaf = tmpl\<rparr>
                             in (Inr c, m1\<lparr>cache := AList.update name c (cache m)\<rparr>))))))))"

definition getCertificate :: "('cert, 'key) crypto \<Rightarrow> int \<Rightarrow> bytes \<Rightarrow> ('cert, 'key) certMinter \<Rightarrow>
    (mint_error + 'key tls_cert) \<times> ('cert, 'key) certMinter" where
  "getCertificate cr now serverName m = certFor cr now (if serverName = [] then ''slack.com'' else serverName) m"

text \<open>\<^verbatim>\<open>TLSConfig\<close>: the protocol version at least and the certificate callback.\<close>

record ('cert, 'key) tls_config =
  MinVersion :: nat
  GetCertificate :: "int \<Rightarrow> bytes \<Rightarrow> ('cert, 'key) certMinter \<Rightarrow> (mint_error + 'key tls_cert) \<times> ('cert, 'key) certMinter"

definition VersionTLS12 :: nat where
  "VersionTLS12 = 0x0303"

definition TLSConfig :: "('cert, 'key) crypto \<Rightarrow> ('cert, 'key) tls_config" where
  "TLSConfig cr = \<lparr>MinVersion = VersionTLS12, GetCertificate = getCertificate cr\<rparr>"

section \<open>Facts\<close>

definition cached :: "bytes \<Rightarrow> ('cert, 'key) certMinter \<Rightarrow> 'key tls_cert option" where
  "cached name m = map_of (cache m) name"

definition cache_put :: "bytes \<Rightarrow> 'key tls_cert \<Rightarrow> ('cert, 'key) certMinter \<Rightarrow> ('cert, 'key) certMinter" where
  "cache_put name c m = m\<lparr>cache := AList.update name c (cache m)\<rparr>"

interpretation cert_cache: keyed_store cached cache_put
  by unfold_locales (auto simp: cached_def cache_put_def update_conv)

lemma certFor_hit: "cached name m = Some c \<Longrightarrow> certFor cr now name m = (Inr c, m)"
  by (simp add: certFor_def cached_def)

text \<open>
  A leaf certificate made by the minter for a name: it is for that name only, from an hour before to a
  year after some moment, and it is signed by the minter's CA over its own key, with the CA's
  certificate as the rest of the chain.
\<close>

definition signed_leaf :: "('cert, 'key) crypto \<Rightarrow> ('cert, 'key) certMinter \<Rightarrow> bytes \<Rightarrow> 'key tls_cert \<Rightarrow> bool" where
  "signed_leaf cr m name c \<longleftrightarrow> (\<exists>serial at n der. Leaf c = leaf_template serial at name \<and>
     Certificate c = [der, RawCert cr (caCert m)] \<and>
     CreateCertificate cr n (Leaf c) (caCert m) (PrivateKey c) (caKey m) = Inr der)"

text \<open>A miss either fails and leaves the cache alone, or mints a leaf for the name and caches it.\<close>

lemma certFor_miss:
  assumes "cached name m = None"
  obtains (error) e where "certFor cr now name m = (Inl e, m\<lparr>mints := mints m + 1\<rparr>)"
  | (minted) c where "certFor cr now name m = (Inr c, cache_put name c (m\<lparr>mints := mints m + 1\<rparr>))" "signed_leaf cr m name c"
proof (cases "GenerateKey cr (mints m)")
  case (Inl e)
  with assms show ?thesis by (intro error) (simp add: certFor_def cached_def)
next
  case k: (Inr k)
  show ?thesis
  proof (cases "SerialInt cr (mints m)")
    case (Inl e)
    with k assms show ?thesis by (intro error) (simp add: certFor_def cached_def)
  next
    case s: (Inr serial)
    show ?thesis
    proof (cases "CreateCertificate cr (mints m) (leaf_template serial now name) (caCert m) k (caKey m)")
      case (Inl e)
      with k s assms show ?thesis by (intro error) (simp add: certFor_def cached_def)
    next
      case (Inr der)
      with k s assms show ?thesis
        by (intro minted [of "\<lparr>Certificate = [der, RawCert cr (caCert m)], PrivateKey = k, Leaf = leaf_template serial now name\<rparr>"])
          (auto simp: certFor_def cached_def cache_put_def signed_leaf_def Let_def)
    qed
  qed
qed

text \<open>The minter's invariant: what is cached for a name is a leaf certificate for that name.\<close>

definition cache_ok :: "('cert, 'key) crypto \<Rightarrow> ('cert, 'key) certMinter \<Rightarrow> bool" where
  "cache_ok cr m \<longleftrightarrow> (\<forall>name c. cached name m = Some c \<longrightarrow> signed_leaf cr m name c)"

lemma cached_mints [simp]: "cached name (m\<lparr>mints := n\<rparr>) = cached name m"
  by (simp add: cached_def)

lemma cache_put_ca [simp]: "caCert (cache_put name c m) = caCert m" "caKey (cache_put name c m) = caKey m"
  by (simp_all add: cache_put_def)

lemma cache_put_mints [simp]: "mints (cache_put name c m) = mints m"
  by (simp add: cache_put_def)

lemma signed_leaf_cong:
  "caCert m = caCert m' \<Longrightarrow> caKey m = caKey m' \<Longrightarrow> signed_leaf cr m name c = signed_leaf cr m' name c"
  by (simp add: signed_leaf_def)

text \<open>One call of the minter, as its cache and its CA see it.\<close>

lemma certFor_cache:
  assumes "certFor cr now name m = (res, m')"
  shows "caCert m' = caCert m" "caKey m' = caKey m"
    "\<And>n c. cached n m = Some c \<Longrightarrow> cached n m' = Some c"
    "\<And>c. res = Inr c \<Longrightarrow> cached name m' = Some c"
    "cache_ok cr m \<Longrightarrow> cache_ok cr m'"
proof -
  have "(caCert m' = caCert m \<and> caKey m' = caKey m) \<and> (\<forall>n c. cached n m = Some c \<longrightarrow> cached n m' = Some c) \<and>
    (\<forall>c. res = Inr c \<longrightarrow> cached name m' = Some c) \<and> (cache_ok cr m \<longrightarrow> cache_ok cr m')"
  proof (cases "cached name m")
    case (Some c)
    with assms show ?thesis by (auto simp: certFor_hit)
  next
    case None
    then show ?thesis
    proof (cases rule: certFor_miss [of name m cr now])
      case (error e)
      with assms show ?thesis
        by (auto simp: cache_ok_def signed_leaf_def)
    next
      case (minted c)
      have sl: "signed_leaf cr m' n d = signed_leaf cr m n d" for n d
        using assms minted(1) by (intro signed_leaf_cong) auto
      from assms minted None show ?thesis
        unfolding cache_ok_def sl by (auto simp: cert_cache.look_put split: if_splits)
    qed
  qed
  then show "caCert m' = caCert m" "caKey m' = caKey m"
    "\<And>n c. cached n m = Some c \<Longrightarrow> cached n m' = Some c"
    "\<And>c. res = Inr c \<Longrightarrow> cached name m' = Some c"
    "cache_ok cr m \<Longrightarrow> cache_ok cr m'" by blast+
qed

section \<open>Handshakes\<close>

text \<open>The TLS server asks for a certificate at each handshake, at some time and for the name the client sent.\<close>

primrec handshakes :: "('cert, 'key) crypto \<Rightarrow> (int \<times> bytes) list \<Rightarrow> ('cert, 'key) certMinter \<Rightarrow> ('cert, 'key) certMinter" where
  "handshakes cr [] m = m"
| "handshakes cr (h # hs) m = handshakes cr hs (snd (getCertificate cr (fst h) (snd h) m))"

definition sni :: "bytes \<Rightarrow> bytes" where
  "sni serverName = (if serverName = [] then ''slack.com'' else serverName)"

lemma getCertificate_certFor: "getCertificate cr now serverName m = certFor cr now (sni serverName) m"
  by (simp add: getCertificate_def sni_def)

lemma handshakes_run:
  "caCert (handshakes cr hs m) = caCert m \<and> caKey (handshakes cr hs m) = caKey m \<and>
   (\<forall>n c. cached n m = Some c \<longrightarrow> cached n (handshakes cr hs m) = Some c) \<and>
   (cache_ok cr m \<longrightarrow> cache_ok cr (handshakes cr hs m))"
proof (induction hs arbitrary: m)
  case (Cons h hs)
  obtain res m' where m': "certFor cr (fst h) (sni (snd h)) m = (res, m')" by fastforce
  with certFor_cache [OF m'] Cons.IH [of m'] show ?case by (auto simp: getCertificate_certFor)
qed simp

lemmas handshakes_cache =
  handshakes_run [THEN conjunct1]
  handshakes_run [THEN conjunct2, THEN conjunct1]
  handshakes_run [THEN conjunct2, THEN conjunct2, THEN conjunct1, rule_format]
  handshakes_run [THEN conjunct2, THEN conjunct2, THEN conjunct2, rule_format]

lemma newCertMinter_ok:
  "newCertMinter cr certPEM keyPEM = Inr m \<Longrightarrow> cache_ok cr m \<and> IsCA cr (caCert m) \<and> mints m = 0"
  by (auto simp: newCertMinter_def cache_ok_def cached_def split: option.splits sum.splits if_splits)

end
