(* ===== verification/Boot.thy ===== *)
theory Boot
  imports Server RealSlack TlsMint
begin

text \<open>
  The two programs: the broker's \<^verbatim>\<open>main\<close> (\<^verbatim>\<open>cmd/egress-broker/main.go\<close>), which builds the components
  from the flags, dials the control plane and serves, and the suspend helper
  (\<^verbatim>\<open>cmd/suspend-helper/main.go\<close>). gRPC is a parameter: \<open>grpc\<close> makes a connection, or not, from the
  credentials and the address, and a stub of the control service from a connection.
\<close>

section \<open>The broker\<close>

record flags =
  listenAddr :: bytes
  caCertFile :: bytes
  caKeyFile :: bytes
  dnsUpstream :: bytes
  slackAPIBase :: bytes
  f_wssHost :: bytes
  f_wssPath :: bytes
  ateapiAddr :: bytes
  f_bootOnResume :: bool
  f_deliverDelay :: duration
  f_idleGrace :: duration

definition default_flags :: flags where
  "default_flags = \<lparr>listenAddr = '':443'', caCertFile = ''/etc/ws-poc/ca/tls.crt'', caKeyFile = ''/etc/ws-poc/ca/tls.key'',
     dnsUpstream = ''8.8.8.8:53'', slackAPIBase = ''https://slack.com'', f_wssHost = ''wss-primary.slack.com'',
     f_wssPath = ''/ws-poc/socketmode'', ateapiAddr = ''api.ate-system.svc:443'', f_bootOnResume = False,
     f_deliverDelay = 0, f_idleGrace = 5 * second\<rparr>"

record tls_creds =
  InsecureSkipVerify :: bool

record ('conn, 'e, 's) grpc =
  NewClient :: "tls_creds \<Rightarrow> bytes \<Rightarrow> 'conn option"
  NewControlClient :: "'conn \<Rightarrow> ('e, 's) control_api"

definition dialControl :: "('conn, 'e, 's) grpc \<Rightarrow> bytes \<Rightarrow> ('e, 's) control_api option" where
  "dialControl g addr = (case NewClient g \<lparr>InsecureSkipVerify = True\<rparr> addr of
     None \<Rightarrow> None | Some conn \<Rightarrow> Some (NewControlClient g conn))"

datatype startup_error = LoadingCA mint_error | DialingControl

record ('cert, 'key, 'e, 's) broker =
  b_minter :: "('cert, 'key) certMinter"
  b_control :: "('e, 's) controlClient"
  b_dialer :: realSlackDialer
  b_server :: Server
  b_tls :: "('cert, 'key) tls_config"
  b_addr :: bytes

definition start_broker :: "('cert, 'key) crypto \<Rightarrow> (bytes \<Rightarrow> bytes option) \<Rightarrow> ('conn, 'e, 's) grpc \<Rightarrow>
    (ActorRef \<Rightarrow> config) \<Rightarrow> rand_source \<Rightarrow> flags \<Rightarrow> startup_error + ('cert, 'key, 'e, 's) broker" where
  "start_broker cr ReadFile g cf src fl = (case newCertMinterFromFiles cr ReadFile (caCertFile fl) (caKeyFile fl) of
     Inl e \<Rightarrow> Inl (LoadingCA e)
   | Inr minter \<Rightarrow> (case dialControl g (ateapiAddr fl) of
        None \<Rightarrow> Inl DialingControl
      | Some a \<Rightarrow>
          (let control = newControlClient a (f_bootOnResume fl);
               realSlack = newRealSlackDialer (dnsUpstream fl) (slackAPIBase fl);
               rg = NewRegistry (f_deliverDelay fl) (f_idleGrace fl) cf;
               srv = NewServer rg (rs_apiBaseURL realSlack) (f_wssHost fl) (f_wssPath fl) src
           in Inr \<lparr>b_minter = minter, b_control = control, b_dialer = realSlack, b_server = srv,
                b_tls = TLSConfig cr, b_addr = listenAddr fl\<rparr>)))"

text \<open>
  \<^verbatim>\<open>main\<close> gives the exit status. \<open>listen\<close> is how \<^verbatim>\<open>ListenAndServeTLS\<close> returns: a signal closes the server, and
  then the error is \<^verbatim>\<open>ErrServerClosed\<close>.
\<close>

datatype listen_result = ServerClosed | ListenFailed bytes | NoError

definition broker_main :: "('cert, 'key) crypto \<Rightarrow> (bytes \<Rightarrow> bytes option) \<Rightarrow> ('conn, 'e, 's) grpc \<Rightarrow>
    (ActorRef \<Rightarrow> config) \<Rightarrow> rand_source \<Rightarrow> (('cert, 'key, 'e, 's) broker \<Rightarrow> listen_result) \<Rightarrow> flags \<Rightarrow> nat" where
  "broker_main cr ReadFile g cf src listen fl = (case start_broker cr ReadFile g cf src fl of
     Inl e \<Rightarrow> 1
   | Inr b \<Rightarrow> (case listen b of ListenFailed e \<Rightarrow> 1 | ServerClosed \<Rightarrow> 0 | NoError \<Rightarrow> 0))"

section \<open>The suspend helper\<close>

datatype 'e helper_exit = ReadingId | ReadingAtespace | DialFailed bytes | SuspendFailed_helper 'e | Suspended ActorRef

text \<open>\<open>Getenv\<close> is the empty text for a variable that is not set.\<close>

definition suspend_helper :: "(bytes \<Rightarrow> bytes option) \<Rightarrow> (bytes \<Rightarrow> bytes) \<Rightarrow> ('conn, 'e, 's) grpc \<Rightarrow> 's \<Rightarrow>
    'e helper_exit \<times> 's" where
  "suspend_helper ReadFile Getenv g s = (case ReadFile ''/run/ate/actor-id'' of
     None \<Rightarrow> (ReadingId, s)
   | Some i \<Rightarrow> (case ReadFile ''/run/ate/atespace'' of
        None \<Rightarrow> (ReadingAtespace, s)
      | Some sp \<Rightarrow>
          (let r = \<lparr>Atespace = TrimSpace sp, Name = TrimSpace i\<rparr>;
               env = Getenv ''ATE_API_ADDR'';
               addr = (if env = [] then ''api.ate-system.svc.cluster.local:443'' else env)
           in (case NewClient g \<lparr>InsecureSkipVerify = True\<rparr> addr of
                 None \<Rightarrow> (DialFailed addr, s)
               | Some conn \<Rightarrow>
                   (let res = SuspendActor (NewControlClient g conn) r s
                    in (case fst res of Some e \<Rightarrow> (SuspendFailed_helper e, snd res) | None \<Rightarrow> (Suspended r, snd res)))))))"

section \<open>Facts\<close>

lemma default_delays:
  "0 <s f_idleGrace default_flags" "\<not> 0 <s f_deliverDelay default_flags"
  by code_simp+

lemma start_broker_server:
  "start_broker cr ReadFile g cf src fl = Inr b \<Longrightarrow>
     b_server b = NewServer (NewRegistry (f_deliverDelay fl) (f_idleGrace fl) cf)
       (TrimRight (if slackAPIBase fl = [] then ''https://'' @ APIHost else slackAPIBase fl) (CHR ''/'')) (f_wssHost fl) (f_wssPath fl) src \<and>
     IsCA cr (caCert (b_minter b)) \<and> cache (b_minter b) = []"
  by (auto simp: start_broker_def newCertMinterFromFiles_def newCertMinter_def newRealSlackDialer_def Let_def
      split: sum.splits option.splits if_splits)

end
