(* ===== verification/BootProps.thy ===== *)
theory BootProps
  imports Boot ServerInv
begin

text \<open>
  The properties of start-up and of the certificates, with a toy signature scheme that meets their
  hypotheses.
\<close>

section \<open>Certificates\<close>

text \<open>
  C36. The certificates of the broker. For a minter loaded from CA material, after any handshakes: the
  certificate served for a name is a leaf for exactly that name (\<^verbatim>\<open>slack.com\<close> when the client sends no
  name), signed by the loaded CA, which is a CA; and every later handshake for the name, whatever
  happens in between, gets the same certificate and mints nothing.
\<close>

theorem certificate_for_name:
  assumes "newCertMinter cr certPEM keyPEM = Inr m0"
    and "getCertificate cr at name (handshakes cr hs m0) = (Inr c, m)"
  shows "signed_leaf cr m0 (sni name) c \<and> DNSNames (Leaf c) = [sni name] \<and> IsCA cr (caCert m0) \<and>
    getCertificate cr at' name (handshakes cr hs' m) = (Inr c, handshakes cr hs' m)"
proof -
  note cert = assms(2) [unfolded getCertificate_certFor]
  have ok: "cache_ok cr (handshakes cr hs m0)" using newCertMinter_ok [OF assms(1)] by (simp add: handshakes_cache(4))
  have c: "cached (sni name) m = Some c" by (rule certFor_cache(4) [OF cert refl])
  with certFor_cache(5) [OF cert ok] have "signed_leaf cr m (sni name) c" by (simp add: cache_ok_def)
  moreover have "signed_leaf cr m (sni name) c = signed_leaf cr m0 (sni name) c"
    using certFor_cache(1,2) [OF cert] by (intro signed_leaf_cong) (simp_all add: handshakes_cache)
  ultimately have "signed_leaf cr m0 (sni name) c" by simp
  moreover from this have "DNSNames (Leaf c) = [sni name]" by (auto simp: signed_leaf_def leaf_template_def)
  moreover have "getCertificate cr at' name (handshakes cr hs' m) = (Inr c, handshakes cr hs' m)"
    unfolding getCertificate_certFor by (rule certFor_hit) (rule handshakes_cache(3) [OF c])
  ultimately show ?thesis using newCertMinter_ok [OF assms(1)] by blast
qed

text \<open>A toy scheme: certificates and keys are texts, and a signature is the name and the signing key.\<close>

definition toy_crypto :: "(bytes, bytes) crypto" where
  "toy_crypto = \<lparr>pem_Decode = Some, ParseCertificate = Inr, IsCA = (\<lambda>c. c \<noteq> []), RawCert = (\<lambda>c. c),
     ParseECPrivateKey = (\<lambda>d. Inl ''not EC''), ParsePKCS8PrivateKey = (\<lambda>d. Inr (Some d)), GenerateKey = (\<lambda>n. Inr ''key''),
     SerialInt = (\<lambda>n. Inr (int n)), CreateCertificate = (\<lambda>n t ca pub key. Inr (CommonName t @ key))\<rparr>"

definition toy_minter :: "(bytes, bytes) certMinter" where
  "toy_minter = \<lparr>caCert = ''ca'', caKey = ''k'', cache = [], mints = 0\<rparr>"

theorem certificate_for_name_witness:
  "\<exists>c m. getCertificate toy_crypto 7 [] (handshakes toy_crypto [(3, ''wss-primary.slack.com'')] toy_minter) = (Inr c, m) \<and>
    signed_leaf toy_crypto toy_minter (sni []) c \<and> mints m = 2 \<and>
    getCertificate toy_crypto 9 [] (handshakes toy_crypto [(8, ''example.org'')] m) = (Inr c, handshakes toy_crypto [(8, ''example.org'')] m)"
proof -
  have new: "newCertMinter toy_crypto ''ca'' ''k'' = Inr toy_minter"
    by (simp add: newCertMinter_def toy_crypto_def parseECKey_def toy_minter_def)
  have "case getCertificate toy_crypto 7 [] (handshakes toy_crypto [(3, ''wss-primary.slack.com'')] toy_minter) of
      (Inl e, m) \<Rightarrow> False | (Inr c, m) \<Rightarrow> mints m = 2" by code_simp
  then obtain c m where cm: "getCertificate toy_crypto 7 [] (handshakes toy_crypto [(3, ''wss-primary.slack.com'')] toy_minter) = (Inr c, m)"
    "mints m = 2" by (auto split: prod.splits sum.splits)
  from certificate_for_name [OF new cm(1), of 9 "[(8, ''example.org'')]"] cm show ?thesis by blast
qed

section \<open>Start-up\<close>


section \<open>The suspend helper\<close>

text \<open>The identity files end with a newline or have other white space around the identity.\<close>

definition padding :: "bytes \<Rightarrow> bool" where
  "padding a \<longleftrightarrow> list_all (\<lambda>c. ascii_space (byte c)) a"

definition visible :: "char \<Rightarrow> bool" where
  "visible c \<longleftrightarrow> 33 \<le> byte c \<and> byte c < 127"

lemma visible_start: "visible c \<Longrightarrow> trim_left (c # x) = c # x" "visible c \<Longrightarrow> trim_left_rev (c # x) = c # x"
  by (cases x rule: list.exhaust; cases "tl x"; auto simp: visible_def ascii_space_def space2_def space3_def)+

lemma trim_padding: "padding a \<Longrightarrow> trim_left (a @ x) = trim_left x" "padding a \<Longrightarrow> trim_left_rev (a @ x) = trim_left_rev x"
proof (induction a)
  case (Cons c a)
  {
    case 1
    have "trim_left (c # y) = trim_left y" for y
      using 1 by (cases y; cases "tl y") (auto simp: padding_def)
    with 1 Cons show ?case by (simp add: padding_def)
  next
    case 2
    have "trim_left_rev (c # y) = trim_left_rev y" for y
      using 2 by (cases y; cases "tl y") (auto simp: padding_def)
    with 2 Cons show ?case by (simp add: padding_def)
  }
qed simp_all

lemma TrimSpace_padded:
  assumes "padding a" "padding b" "x \<noteq> []" "visible (hd x)" "visible (last x)"
  shows "TrimSpace (a @ x @ b) = x"
proof -
  obtain c y where x: "x = c # y" using assms(3) by (cases x) auto
  have l: "trim_left (a @ x @ b) = x @ b" using trim_padding(1) [OF assms(1)] visible_start(1) [of c "y @ b"] assms(4) x by simp
  obtain d z where rx: "rev x = d # z" "visible d" using assms(3,5) by (cases "rev x") (auto simp: last_rev hd_rev simp flip: hd_rev)
  have "padding (rev b)" using assms(2) by (simp add: padding_def)
  then have "trim_left_rev (rev b @ rev x) = rev x" using trim_padding(2) visible_start(2) [OF rx(2)] rx(1) by simp
  then show ?thesis unfolding TrimSpace_def l by simp
qed

definition file_holds :: "bytes option \<Rightarrow> bytes \<Rightarrow> bool" where
  "file_holds f x \<longleftrightarrow> x \<noteq> [] \<and> visible (hd x) \<and> visible (last x) \<and> (\<exists>a b. padding a \<and> padding b \<and> f = Some (a @ x @ b))"

lemma file_holds_trim: "file_holds f x \<Longrightarrow> \<exists>t. f = Some t \<and> TrimSpace t = x"
  using TrimSpace_padded by (fastforce simp: file_holds_def)

definition helper_addr :: "(bytes \<Rightarrow> bytes) \<Rightarrow> bytes" where
  "helper_addr Getenv = (let v = Getenv ''ATE_API_ADDR'' in if v = [] then ''api.ate-system.svc.cluster.local:443'' else v)"

text \<open>
  C38. The suspend helper suspends the actor whose identity is in its files, white space around it aside: it makes
  the call that the broker's control client makes to suspend that actor, at the address from the
  environment or the default one, and reports that call's outcome. If a file is missing or the control plane
  cannot be dialed, it calls nothing.
\<close>

theorem helper_suspends_its_actor:
  "(file_holds (ReadFile ''/run/ate/actor-id'') (Name r) \<and> file_holds (ReadFile ''/run/ate/atespace'') (Atespace r) \<and>
      dialControl g (helper_addr Getenv) = Some ctl \<longrightarrow>
    suspend_helper ReadFile Getenv g s = (case Suspend (newControlClient ctl boot) r s of
      (None, s') \<Rightarrow> (Suspended r, s') | (Some e, s') \<Rightarrow> (SuspendFailed_helper e, s'))) \<and>
   (ReadFile ''/run/ate/actor-id'' = None \<or> ReadFile ''/run/ate/atespace'' = None \<or> dialControl g (helper_addr Getenv) = None \<longrightarrow>
    snd (suspend_helper ReadFile Getenv g s) = s)"
proof (intro conjI impI; (elim conjE)?)
  assume f: "file_holds (ReadFile ''/run/ate/actor-id'') (Name r)" "file_holds (ReadFile ''/run/ate/atespace'') (Atespace r)"
    and d: "dialControl g (helper_addr Getenv) = Some ctl"
  obtain t u where t: "ReadFile ''/run/ate/actor-id'' = Some t" "TrimSpace t = Name r" "ReadFile ''/run/ate/atespace'' = Some u"
    "TrimSpace u = Atespace r" using file_holds_trim [OF f(1)] file_holds_trim [OF f(2)] by blast
  from d obtain conn where conn: "NewClient g \<lparr>InsecureSkipVerify = True\<rparr> (helper_addr Getenv) = Some conn" "ctl = NewControlClient g conn"
    by (auto simp: dialControl_def split: option.splits)
  have r: "\<lparr>Atespace = Atespace r, Name = Name r\<rparr> = r" by (cases r) simp
  show "suspend_helper ReadFile Getenv g s = (case Suspend (newControlClient ctl boot) r s of
      (None, s') \<Rightarrow> (Suspended r, s') | (Some e, s') \<Rightarrow> (SuspendFailed_helper e, s'))"
    unfolding suspend_helper_def t option.case Let_def r using conn
    by (simp add: helper_addr_def Suspend_def newControlClient_def Let_def split: prod.split option.split)
next
  assume "ReadFile ''/run/ate/actor-id'' = None \<or> ReadFile ''/run/ate/atespace'' = None \<or> dialControl g (helper_addr Getenv) = None"
  then show "snd (suspend_helper ReadFile Getenv g s) = s"
    by (auto simp: suspend_helper_def helper_addr_def dialControl_def Let_def split: option.splits)
qed

text \<open>A control plane that counts the suspends of one actor.\<close>

definition toy_grpc :: "(bytes, bytes, nat) grpc" where
  "toy_grpc = \<lparr>NewClient = (\<lambda>cr addr. Some addr),
     NewControlClient = (\<lambda>conn. \<lparr>ResumeActor = (\<lambda>q n. (None, n)),
       SuspendActor = (\<lambda>r n. (if Name r = ''bot'' then None else Some ''unknown'', n + 1)),
       ListActors = (\<lambda>size tok n. (Inl ''none'', n)), is_aborted = (\<lambda>e. False)\<rparr>)\<rparr>"

definition toy_files :: "bytes \<Rightarrow> bytes option" where
  "toy_files p = (if p = ''/run/ate/actor-id'' then Some (''bot'' @ [CHR 0x0A]) else if p = ''/run/ate/atespace'' then Some (''space'' @ [CHR 0x0A]) else None)"

theorem helper_suspends_its_actor_witness:
  "suspend_helper toy_files (\<lambda>v. []) toy_grpc 4 = (Suspended \<lparr>Atespace = ''space'', Name = ''bot''\<rparr>, 5)"
proof -
  let ?r = "\<lparr>Atespace = ''space'', Name = ''bot''\<rparr>"
  let ?ctl = "NewControlClient toy_grpc (helper_addr (\<lambda>v. []))"
  have "file_holds (toy_files ''/run/ate/actor-id'') (Name ?r)"
    unfolding file_holds_def
    by (intro conjI exI [of _ "[]"] exI [of _ "[CHR 0x0A]"]) (simp_all add: toy_files_def visible_def padding_def ascii_space_def)
  moreover have "file_holds (toy_files ''/run/ate/atespace'') (Atespace ?r)"
    unfolding file_holds_def
    by (intro conjI exI [of _ "[]"] exI [of _ "[CHR 0x0A]"]) (simp_all add: toy_files_def visible_def padding_def ascii_space_def)
  moreover have "dialControl toy_grpc (helper_addr (\<lambda>v. [])) = Some ?ctl" by (simp add: dialControl_def toy_grpc_def)
  ultimately have "suspend_helper toy_files (\<lambda>v. []) toy_grpc 4 = (case Suspend (newControlClient ?ctl False) ?r 4 of
      (None, s') \<Rightarrow> (Suspended ?r, s') | (Some e, s') \<Rightarrow> (SuspendFailed_helper e, s'))"
    by (intro helper_suspends_its_actor [THEN conjunct1, THEN mp] conjI)
  then show ?thesis by (simp add: Suspend_def newControlClient_def toy_grpc_def)
qed

end
