(* ===== verification/Wiring.thy ===== *)
theory Wiring
  imports SlackFeed RealSlack Scheduler
begin

text \<open>
  The session wired to the components it calls, as \<^verbatim>\<open>main\<close> wires them
  (\<^verbatim>\<open>cmd/egress-broker/main.go\<close>): resuming and suspending go to the control client, dialing, reading and
  acknowledging to the Slack client, frames for the actor to its WebSocket. A session of theory
  \<open>SessionSteps\<close> gets the answers to its calls from a parameter; here they come from these components,
  which act on a state \<open>'w\<close> of the outside world. Every run of the wired session is a run of that session
  with the answers the components gave, so what holds for the session's runs holds here.
\<close>

section \<open>The outside\<close>

text \<open>
  What the components themselves call: the retry helper, the singleflight group and the error of the
  caller's context for the control client; the network a dial finds and leaves behind; messages from and
  to Slack on the connection; frames to an actor's connection; the timer of \<^verbatim>\<open>sleepOrStop\<close>; the forwarded
  API call. \<open>o_drift\<close> says how the world changes by itself.
\<close>

record ('e, 'w) outside =
  o_retry :: "('e, 'w) retry"
  o_DoChan :: "bytes \<Rightarrow> ('w \<Rightarrow> 'e option \<times> 'w) \<Rightarrow> 'w \<Rightarrow> 'e option \<times> 'w"
  o_ctx :: "'w \<Rightarrow> 'e option"
  o_net :: "'w \<Rightarrow> 'e slack_net"
  o_dialed :: "bytes \<Rightarrow> 'w \<Rightarrow> 'w"
  o_recv :: "'w \<Rightarrow> ('e + bytes) \<times> 'w"
  o_send :: "bytes \<Rightarrow> 'w \<Rightarrow> 'e option \<times> 'w"
  o_close :: "'w \<Rightarrow> 'w"
  o_frame :: "sink_id \<Rightarrow> bytes \<Rightarrow> 'w \<Rightarrow> 'e option \<times> 'w"
  o_sleep :: "duration \<Rightarrow> 'w \<Rightarrow> bool \<times> 'w"
  o_forward :: "'w \<Rightarrow> 'w"
  o_drift :: "'w \<Rightarrow> 'w \<Rightarrow> bool"

record ('e, 'w) wires =
  w_control :: "('e, 'w) controlClient"
  w_slack :: realSlackDialer
  w_outside :: "('e, 'w) outside"

definition nil_error :: "'e option \<Rightarrow> reply" where
  "nil_error r = (case r of None \<Rightarrow> Ok | Some e \<Rightarrow> Fail)"

text \<open>A call of the session, done by the component it is wired to.\<close>

fun perform :: "('e, 'w) wires \<Rightarrow> action \<Rightarrow> 'w \<Rightarrow> reply \<times> 'w" where
  "perform x (OWrite sk f) w = (let r = o_frame (w_outside x) sk f w in (nil_error (fst r), snd r))"
| "perform x (OSuspend q) w = (let r = Suspend (w_control x) q w in (nil_error (fst r), snd r))"
| "perform x (OResume q) w =
     (let r = Resume (o_retry (w_outside x)) (o_DoChan (w_outside x)) (w_control x) (o_ctx (w_outside x) w) q w
      in (nil_error (fst r), snd r))"
| "perform x OForward w = (Ok, o_forward (w_outside x) w)"
| "perform x (ODial token) w =
     ((case Dial (o_net (w_outside x) w) (w_slack x) token of Inl e \<Rightarrow> Fail | Inr u \<Rightarrow> Ok), o_dialed (w_outside x) token w)"
| "perform x ORead w =
     (let r = o_recv (w_outside x) w
      in ((case Conn_Read (fst r) of Inl e \<Rightarrow> Fail | Inr er \<Rightarrow> OkFrame (snd er)), snd r))"
| "perform x (OSlackAck i) w = (let r = o_send (w_outside x) (Conn_Ack i) w in (nil_error (fst r), snd r))"
| "perform x (OSleep d) w = (let r = o_sleep (w_outside x) d w in (if fst r then Ok else Fail, snd r))"
| "perform x OConnClose w = (Ok, o_close (w_outside x) w)"

section \<open>Runs\<close>

text \<open>
  A step of the session, with the call its region made, the world it was made in and the answer, or a
  change of the world.
\<close>

type_synonym 'w call = "action \<times> 'w \<times> reply"

datatype 'w wired_label = Did label "'w call list" | Drift

inductive wired_step :: "('e, 'w) wires \<Rightarrow> config \<Rightarrow> session \<times> 'w \<Rightarrow> 'w wired_label \<Rightarrow> session \<times> 'w \<Rightarrow> bool" for x c where
  w_call: "\<lbrakk>call_of t s = Some a; perform x a w = (rp, w'); step (c\<lparr>answer := \<lambda>_. rp\<rparr>) s (Ran t) s'\<rbrakk> \<Longrightarrow>
    wired_step x c (s, w) (Did (Ran t) [(a, w, rp)]) (s', w')"
| w_quiet: "\<lbrakk>\<And>t. l = Ran t \<Longrightarrow> call_of t s = None; step c s l s'\<rbrakk> \<Longrightarrow> wired_step x c (s, w) (Did l []) (s', w)"
| w_drift: "o_drift (w_outside x) w w' \<Longrightarrow> wired_step x c (s, w) Drift (s, w')"

inductive_cases wired_stepE [consumes 1, case_names w_call w_quiet w_drift]: "wired_step x c (s, w) l sw"

definition wired_run :: "('e, 'w) wires \<Rightarrow> config \<Rightarrow> ActorRef \<Rightarrow> 'w \<Rightarrow> 'w wired_label list \<Rightarrow> session \<Rightarrow> 'w \<Rightarrow> bool" where
  "wired_run x c r w0 wls s w = trace (wired_step x c) (new_session r, w0) wls (s, w)"

fun calls :: "'w wired_label list \<Rightarrow> 'w call list" where
  "calls [] = []"
| "calls (Did l cs # wls) = cs @ calls wls"
| "calls (Drift # wls) = calls wls"

fun acted :: "'w wired_label list \<Rightarrow> label list" where
  "acted [] = []"
| "acted (Did l cs # wls) = l # acted wls"
| "acted (Drift # wls) = acted wls"

lemma calls_append [simp]: "calls (wls @ wls') = calls wls @ calls wls'"
  by (induction wls rule: calls.induct) auto

lemma acted_append [simp]: "acted (wls @ wls') = acted wls @ acted wls'"
  by (induction wls rule: acted.induct) auto

definition answers_of :: "'w call list \<Rightarrow> nat \<Rightarrow> reply" where
  "answers_of cs i = (if i < length cs then snd (snd (cs ! i)) else Ok)"

section \<open>A session sees only the answers to the calls it made\<close>

lemma stamp_answer [simp]: "stampLocked (c\<lparr>answer := f\<rparr>) = stampLocked c"
  by (simp add: stampLocked_def fun_eq_iff)

lemma build_frames_answer [simp]: "build_frames (c\<lparr>answer := f\<rparr>) es s = build_frames c es s"
  by (induction es arbitrary: s) (simp_all split: sum.split)

lemma locked_answer [simp]:
  "onEvent_locked (c\<lparr>answer := f\<rparr>) = onEvent_locked c" "deliver_locked (c\<lparr>answer := f\<rparr>) = deliver_locked c"
  "armIdleLocked (c\<lparr>answer := f\<rparr>) = armIdleLocked c"
  by (auto simp: onEvent_locked_def deliver_locked_def buildEventFramesLocked_def armIdleLocked_def fun_eq_iff Let_def
      split: option.split)

lemma exec_answer:
  assumes "call_of t s \<noteq> None \<Longrightarrow> f (length (out s)) = g (length (out s))"
  shows "exec (c\<lparr>answer := f\<rparr>) t s = exec (c\<lparr>answer := g\<rparr>) t s"
  using assms by (cases t) (auto simp: io_def noteActivity_def suspend_failed_locked_def Ack_event_def endForward_def
      sleepOrStop_def Let_def split: option.split)

lemma step_answer:
  assumes "step (c\<lparr>answer := f\<rparr>) s l s'" "\<And>t. l = Ran t \<Longrightarrow> call_of t s \<noteq> None \<Longrightarrow> f (length (out s)) = g (length (out s))"
  shows "step (c\<lparr>answer := g\<rparr>) s l s'"
  using assms(1)
proof cases
  case (run i t ts ts' s1)
  with exec_answer [of t s f g c] assms(2) have "exec (c\<lparr>answer := g\<rparr>) t s = Some (Inr (ts', s1))" by metis
  with run show ?thesis by (auto intro: step.run)
next
  case (fire i fn)
  show ?thesis unfolding fire(1,2) by (rule step.fire) (rule fire(3))
next
  case connect
  show ?thesis unfolding connect by (rule step.connect)
next
  case (receive i sk ts t y)
  show ?thesis unfolding receive(1,2) by (rule step.receive) (rule receive)+
next
  case (ping_lost i sk ts)
  show ?thesis unfolding ping_lost(1,2) by (rule step.ping_lost) (rule ping_lost)+
next
  case (hang_up i sk ts)
  show ?thesis unfolding hang_up(1,2) by (rule step.hang_up) (rule hang_up)+
next
  case forward
  show ?thesis unfolding forward by (rule step.forward)
next
  case (open_call token)
  show ?thesis unfolding open_call by (rule step.open_call)
next
  case close_call
  show ?thesis unfolding close_call by (rule step.close_call)
qed

lemma trace_answer:
  assumes "trace (step (c\<lparr>answer := f\<rparr>)) s0 ls s" "\<And>i. i < length (out s) \<Longrightarrow> f i = g i"
  shows "trace (step (c\<lparr>answer := g\<rparr>)) s0 ls s"
  using assms
proof (induction rule: trace.induct)
  case (trace_snoc s ls s' l s'')
  note out = step_out [OF trace_snoc.hyps(2)]
  have "trace (step (c\<lparr>answer := g\<rparr>)) s ls s'" by (rule trace_snoc.IH) (simp add: trace_snoc.prems out)
  moreover have "step (c\<lparr>answer := g\<rparr>) s' l s''"
    by (rule step_answer [OF trace_snoc.hyps(2)]) (rule trace_snoc.prems, auto simp: out)
  ultimately show ?case by (rule trace.trace_snoc)
qed (rule trace_Nil)

section \<open>The wired session is the session\<close>

definition performed :: "('e, 'w) wires \<Rightarrow> 'w call \<Rightarrow> bool" where
  "performed x cl \<longleftrightarrow> (case cl of (a, w, rp) \<Rightarrow> fst (perform x a w) = rp)"

definition wired_inv :: "('e, 'w) wires \<Rightarrow> config \<Rightarrow> ActorRef \<Rightarrow> 'w wired_label list \<Rightarrow> session \<times> 'w \<Rightarrow> bool" where
  "wired_inv x c r wls sw \<longleftrightarrow> session_run (c\<lparr>answer := answers_of (calls wls)\<rparr>) r (acted wls) (fst sw) \<and>
     map fst (calls wls) = out (fst sw) \<and> (\<forall>cl \<in> set (calls wls). performed x cl)"

lemma answers_of_append: "i < length cs \<Longrightarrow> answers_of (cs @ cs') i = answers_of cs i"
  by (simp add: answers_of_def nth_append)

lemma run_more_answers:
  assumes "session_run (c\<lparr>answer := answers_of cs\<rparr>) r ls s" "map fst cs = out s"
  shows "session_run (c\<lparr>answer := answers_of (cs @ cs')\<rparr>) r ls s"
  unfolding session_run_def
proof (rule trace_answer [OF assms(1) [unfolded session_run_def]])
  fix i assume "i < length (out s)"
  with assms(2) show "answers_of cs i = answers_of (cs @ cs') i" by (metis answers_of_append length_map)
qed

lemma step_wired_inv:
  assumes "wired_inv x c r wls sw" "wired_step x c sw l sw'"
  shows "wired_inv x c r (wls @ [l]) sw'"
proof -
  obtain s w where sw: "sw = (s, w)" by (cases sw)
  from assms(1) have inv: "session_run (c\<lparr>answer := answers_of (calls wls)\<rparr>) r (acted wls) s"
    "map fst (calls wls) = out s" "\<forall>cl \<in> set (calls wls). performed x cl" by (simp_all add: wired_inv_def sw)
  from inv(2) have len: "length (calls wls) = length (out s)" by (metis length_map)
  from assms(2) [unfolded sw] show ?thesis
  proof (cases rule: wired_stepE)
    case (w_call t a rp w' s')
    have "session_run (c\<lparr>answer := answers_of (calls wls @ [(a, w, rp)])\<rparr>) r (acted wls) s"
      by (rule run_more_answers [OF inv(1,2)])
    moreover have "step (c\<lparr>answer := answers_of (calls wls @ [(a, w, rp)])\<rparr>) s (Ran t) s'"
      by (rule step_answer [OF w_call(5)]) (simp add: answers_of_def flip: len)
    ultimately have "session_run (c\<lparr>answer := answers_of (calls (wls @ [l]))\<rparr>) r (acted (wls @ [l])) s'"
      using w_call(1) by (simp add: session_run_def trace.trace_snoc)
    moreover have "map fst (calls (wls @ [l])) = out s'" using step_out [OF w_call(5)] inv(2) w_call(1,3) by simp
    ultimately show ?thesis using inv(3) w_call(1,2,4) by (auto simp: wired_inv_def performed_def)
  next
    case (w_quiet l' s')
    have "step (c\<lparr>answer := answers_of (calls wls)\<rparr>) s l' s'"
      by (rule step_answer [where f = "answer c"]) (use w_quiet in auto)
    then have "session_run (c\<lparr>answer := answers_of (calls (wls @ [l]))\<rparr>) r (acted (wls @ [l])) s'"
      using inv(1) w_quiet(1) by (simp add: session_run_def trace.trace_snoc)
    moreover have "out s' = out s" using step_out [OF w_quiet(4)] w_quiet(3) by (auto split: label.splits option.splits)
    ultimately show ?thesis using inv(2,3) w_quiet(1,2) by (simp add: wired_inv_def)
  next
    case (w_drift w')
    with inv show ?thesis by (simp add: wired_inv_def)
  qed
qed

lemma wired_inv_new: "wired_inv x c r [] (new_session r, w0)"
  by (simp add: wired_inv_def session_run_def trace_Nil) (simp add: new_session_def)

interpretation wired: run_invariant "wired_step x c" "(new_session r, w0)" "wired_inv x c r" for x c r w0
  by unfold_locales (rule wired_inv_new, rule step_wired_inv)

section \<open>A session calls for its own actor\<close>

definition own_call :: "ActorRef \<Rightarrow> action \<Rightarrow> bool" where
  "own_call r a = (case a of OSuspend q \<Rightarrow> q = r | OResume q \<Rightarrow> q = r | _ \<Rightarrow> True)"

definition own_inv :: "ActorRef \<Rightarrow> session \<Rightarrow> bool" where
  "own_inv r s \<longleftrightarrow> ref s = r \<and> (\<forall>a \<in> set (out s). own_call r a)"

lemma step_ref: "step c s l s' \<Longrightarrow> ref s' = ref s"
  by (cases rule: step_cases) (auto simp: go_def Stop_def dest: exec_ref)

lemma step_own_inv: "own_inv r s \<Longrightarrow> step c s l s' \<Longrightarrow> own_inv r s'"
  using step_ref [of c s l s'] step_out [of c s l s']
  by (auto simp: own_inv_def own_call_def split: label.splits option.splits elim!: call_of.elims)

interpretation own: state_invariant "step c" "new_session r" "own_inv r" for c r
  by unfold_locales (simp add: own_inv_def new_session_def, rule step_own_inv)

section \<open>What Slack sent\<close>

text \<open>The event messages among those that the read loop received on its WebSocket.\<close>

definition received :: "('e, 'w) wires \<Rightarrow> 'w call \<Rightarrow> bytes list" where
  "received x cl = (case cl of (a, v, rp) \<Rightarrow>
     if a = ORead then (case fst (o_recv (w_outside x) v) of Inl e \<Rightarrow> [] | Inr raw \<Rightarrow> if is_event_raw raw then [raw] else []) else [])"

definition slack_events :: "('e, 'w) wires \<Rightarrow> 'w call list \<Rightarrow> bytes list" where
  "slack_events x cs = concat (map (received x) cs)"

lemma performed_received:
  "performed x (a, v, rp) \<Longrightarrow> (if a = ORead then event_frame rp else []) = received x (a, v, rp)"
  by (auto simp: performed_def received_def event_frame_def Conn_Read_def is_event_raw_def Let_def split: sum.splits)

lemma events_read_answers:
  "events_read (c\<lparr>answer := answers_of cs\<rparr>) (map fst cs) = concat (map (\<lambda>(a, v, rp). if a = ORead then event_frame rp else []) cs)"
proof (induction cs rule: rev_induct)
  case (snoc cl cs)
  have same: "events_read (c\<lparr>answer := answers_of (cs @ [cl])\<rparr>) (map fst cs) = events_read (c\<lparr>answer := answers_of cs\<rparr>) (map fst cs)" for cl
    unfolding events_read_def by (intro arg_cong [of _ _ concat] map_cong) (auto simp: answers_of_append)
  have last: "answers_of (cs @ [cl]) (length cs) = snd (snd cl)" for cl by (simp add: answers_of_def)
  show ?case by (cases cl) (simp add: events_read_snoc same snoc last)
qed simp

lemma wired_events_read:
  assumes "wired_inv x c r wls (s, w)"
  shows "events_read (c\<lparr>answer := answers_of (calls wls)\<rparr>) (out s) = slack_events x (calls wls)"
proof -
  have "map (\<lambda>(a, v, rp). if a = ORead then event_frame rp else []) (calls wls) = map (received x) (calls wls)"
    by (rule map_cong [OF refl]) (use assms performed_received in \<open>fastforce simp: wired_inv_def\<close>)
  moreover have "map fst (calls wls) = out s" using assms by (simp add: wired_inv_def)
  ultimately show ?thesis using events_read_answers [where c = c and cs = "calls wls"] by (simp only: slack_events_def)
qed

section \<open>The call a choice makes\<close>

text \<open>For schedulers: the call that the region chosen next makes.\<close>

definition next_call :: "choice \<Rightarrow> session \<Rightarrow> action option" where
  "next_call ch s = (case ch of CRun i \<Rightarrow> (if i < length (gos s) then (case gos s ! i of [] \<Rightarrow> None | t # ts \<Rightarrow> call_of t s) else None)
     | _ \<Rightarrow> None)"

lemma take_choice_call:
  assumes "take_choice c ch s = Some (l, s')"
  shows "next_call ch s = (case l of Ran t \<Rightarrow> call_of t s | _ \<Rightarrow> None)"
proof (cases ch)
  case (CRun i)
  with assms show ?thesis by (auto simp: next_call_def split: if_splits list.splits option.splits sum.splits)
qed (use assms in \<open>auto simp: next_call_def split: if_splits list.splits task.splits\<close>)

end
