(* ===== verification/Deployed.thy ===== *)
theory Deployed
  imports Boot BrokerReplies Wiring
begin

text \<open>
  The broker as \<^verbatim>\<open>main\<close> starts it (\<^verbatim>\<open>cmd/egress-broker/main.go\<close>): the concurrent broker of theory \<open>Broker\<close> in
  which the calls of all sessions are done by the one control client and the one Slack client that \<open>start_broker\<close>
  made, in a world they share. A run of it is a run of \<open>Broker\<close> with the answers these clients gave, and what
  one session sees of it is a run of the wired session of theory \<open>Wiring\<close>.
\<close>

section \<open>Steps\<close>

text \<open>
  The clients of a session: those of the broker, and connections of its own, to Slack and to the actor. For one
  session, what the others do is a change of the world.
\<close>

definition wires_of :: "('cert, 'key, 'e, 'w) broker \<Rightarrow> (ActorRef \<Rightarrow> ('e, 'w) outside) \<Rightarrow> ActorRef \<Rightarrow> ('e, 'w) wires" where
  "wires_of b X r = \<lparr>w_control = b_control b, w_slack = b_dialer b, w_outside = (X r)\<lparr>o_drift := \<lambda>w w'. True\<rparr>\<rparr>"

text \<open>The locator of the handlers is the control client.\<close>

definition locator_is :: "('e, 'w) controlClient \<Rightarrow> 'h http_env \<Rightarrow> bool" where
  "locator_is ctl env \<longleftrightarrow> (\<forall>ip i r. locate env ip i = Inr r \<longrightarrow> (\<exists>v v'. LocateByPodIP ctl ip v = Some (Inr r, v')))"

datatype ('h, 'w) deployed_label = DBroker "'h broker_label" | DCall ActorRef task "'w call" | DDrift

definition calls_out :: "'h broker_label \<Rightarrow> running \<Rightarrow> bool" where
  "calls_out l st \<longleftrightarrow> (\<exists>r t s. l = Moved r (MStep (Ran t)) \<and> session_of r st = Some s \<and> call_of t s \<noteq> None)"

inductive deployed_step :: "('cert, 'key, 'e, 'w) broker \<Rightarrow> (ActorRef \<Rightarrow> ('e, 'w) outside) \<Rightarrow>
    running \<times> 'w \<Rightarrow> ('h, 'w) deployed_label \<Rightarrow> running \<times> 'w \<Rightarrow> bool" for b X where
  d_quiet: "\<lbrakk>broker_step st l st'; \<not> calls_out l st; \<And>env t. l = Handled env t \<Longrightarrow> locator_is (b_control b) env\<rbrakk> \<Longrightarrow>
    deployed_step b X (st, w) (DBroker l) (st', w)"
| d_call: "\<lbrakk>session_of r st = Some s; call_of t s = Some a; perform (wires_of b X r) a w = (rp, w');
     step ((config_of st r)\<lparr>answer := \<lambda>_. rp\<rparr>) s (Ran t) s'\<rbrakk> \<Longrightarrow>
    deployed_step b X (st, w) (DCall r t (a, w, rp)) (put_running r s' st, w')"
| d_drift: "deployed_step b X (st, w) DDrift (st, w')"

inductive_cases deployed_stepE [consumes 1, case_names d_quiet d_call d_drift]: "deployed_step b X (st, w) l sw"

definition deployed_run :: "('cert, 'key, 'e, 'w) broker \<Rightarrow> (ActorRef \<Rightarrow> ('e, 'w) outside) \<Rightarrow> 'w \<Rightarrow>
    ('h, 'w) deployed_label list \<Rightarrow> running \<Rightarrow> 'w \<Rightarrow> bool" where
  "deployed_run b X w0 dls st w = trace (deployed_step b X) (fresh_broker (b_server b), w0) dls (st, w)"

text \<open>What a run did: the steps of the broker, and for one actor the calls of its session and the events that arrived.\<close>

definition broker_labels :: "('h, 'w) deployed_label list \<Rightarrow> 'h broker_label list" where
  "broker_labels dls = concat (map (\<lambda>l. case l of DBroker bl \<Rightarrow> [bl] | DCall r t c \<Rightarrow> [Moved r (MStep (Ran t))] | DDrift \<Rightarrow> []) dls)"

definition calls_for :: "ActorRef \<Rightarrow> ('h, 'w) deployed_label list \<Rightarrow> 'w call list" where
  "calls_for r dls = concat (map (\<lambda>l. case l of DCall r' t c \<Rightarrow> if r' = r then [c] else [] | _ \<Rightarrow> []) dls)"

fun move_label :: "move \<Rightarrow> label list" where
  "move_label (MStep l) = [l]"
| "move_label _ = []"

definition arrived_for :: "ActorRef \<Rightarrow> ('h, 'w) deployed_label list \<Rightarrow> bytes list" where
  "arrived_for r dls = arrived (concat (map (\<lambda>l. case l of Moved r' mv \<Rightarrow> if r' = r then move_label mv else [] | _ \<Rightarrow> []) (broker_labels dls)))"

lemma labels_snoc [simp]:
  "broker_labels (dls @ [DBroker bl]) = broker_labels dls @ [bl]" "broker_labels (dls @ [DDrift]) = broker_labels dls"
  "broker_labels (dls @ [DCall r t c]) = broker_labels dls @ [Moved r (MStep (Ran t))]"
  "calls_for k (dls @ [DBroker bl]) = calls_for k dls" "calls_for k (dls @ [DDrift]) = calls_for k dls"
  "calls_for k (dls @ [DCall r t c]) = calls_for k dls @ (if r = k then [c] else [])"
  by (simp_all add: broker_labels_def calls_for_def)

lemma arrived_snoc:
  "arrived_for k (dls @ [DDrift]) = arrived_for k dls"
  "arrived_for k (dls @ [DCall r t c]) = arrived_for k dls @ (if r = k then arrived [Ran t] else [])"
  "arrived_for k (dls @ [DBroker (Moved r mv)]) = arrived_for k dls @ (if r = k then arrived (move_label mv) else [])"
  "(\<And>r mv. bl \<noteq> Moved r mv) \<Longrightarrow> arrived_for k (dls @ [DBroker bl]) = arrived_for k dls"
  by (auto simp: arrived_for_def split: broker_label.split)

lemma labels_Nil [simp]: "broker_labels [] = []" "calls_for k [] = []" "arrived_for k [] = []"
  by (simp_all add: broker_labels_def calls_for_def arrived_for_def)

section \<open>What one session sees\<close>

lemma call_arrives: "call_of t s \<noteq> None \<Longrightarrow> arrived [Ran t] = []"
  by (cases t) auto

lemma wired_called: "trace (wired_step x c) sw wls (s, w) \<Longrightarrow> step c s Called s' \<Longrightarrow> trace (wired_step x c) sw (wls @ [Did Called []]) (s', w)"
  by (rule trace_snoc, assumption, rule w_quiet) simp_all

lemma move_wired:
  assumes "session_move c s mv s'" "wired_run x c r w0 wls s w" "\<And>t. mv = MStep (Ran t) \<Longrightarrow> call_of t s = None"
  shows "\<exists>wls'. wired_run x c r w0 (wls @ wls') s' w \<and> calls wls' = [] \<and> arrived (acted wls') = arrived (move_label mv)"
  using assms(1)
proof (cases rule: session_moveE)
  case (m_step l)
  have "wired_step x c (s, w) (Did l []) (s', w)" by (rule w_quiet) (use m_step assms(3) in auto)
  with assms(2) have "wired_run x c r w0 (wls @ [Did l []]) s' w" unfolding wired_run_def by (rule trace_snoc)
  then show ?thesis using m_step(1) by (intro exI [of _ "[Did l []]"]) simp
next
  case (m_message i sk ts m)
  show ?thesis
  proof (cases "socket_tasks sk m = [ServeSocket sk]")
    case True
    then have "s' = s" using m_message by (simp add: list_update_same_conv)
    with assms(2) m_message(1) show ?thesis by (intro exI [of _ "[]"]) simp
  next
    case False
    have "step c s Called s'"
      unfolding m_message(2) using socket_tasks_cases [of sk m] False step.receive [OF m_message(3,4)] step.ping_lost [OF m_message(3,4)]
      by (elim disjE exE) auto
    from wired_called [OF assms(2) [unfolded wired_run_def] this] show ?thesis
      using m_message(1) by (intro exI [of _ "[Did Called []]"]) (simp add: wired_run_def)
  qed
next
  case (m_hang_up i sk ts)
  have "step c s Called s'" unfolding m_hang_up(2) by (rule step.hang_up [OF m_hang_up(3,4)])
  from wired_called [OF assms(2) [unfolded wired_run_def] this] show ?thesis
    using m_hang_up(1) by (intro exI [of _ "[Did Called []]"]) (simp add: wired_run_def)
next
  case (m_start token)
  let ?s = "go [Start token] s"
  have "trace (wired_step x c) (new_session r, w0) (wls @ [Did Called []]) (?s, w)"
    by (rule wired_called [OF assms(2) [unfolded wired_run_def] step.open_call])
  moreover have "step c ?s (Ran (Start token)) s'" unfolding m_start(2) by (rule start_call_step)
  then have "wired_step x c (?s, w) (Did (Ran (Start token)) []) (s', w)" by (intro w_quiet) auto
  ultimately have "wired_run x c r w0 ((wls @ [Did Called []]) @ [Did (Ran (Start token)) []]) s' w"
    unfolding wired_run_def by (rule trace_snoc)
  then show ?thesis using m_start(1) by (intro exI [of _ "[Did Called [], Did (Ran (Start token)) []]"]) simp
next
  case m_socket
  have "step c s Called s'" unfolding m_socket(2) socket_call_def by (rule step.connect)
  from wired_called [OF assms(2) [unfolded wired_run_def] this] show ?thesis
    using m_socket(1) by (intro exI [of _ "[Did Called []]"]) (simp add: wired_run_def)
next
  case m_pass
  have "step c s Called s'" unfolding m_pass(2) pass_call_def by (rule step.forward)
  from wired_called [OF assms(2) [unfolded wired_run_def] this] show ?thesis
    using m_pass(1) by (intro exI [of _ "[Did Called []]"]) (simp add: wired_run_def)
qed

definition seen :: "('cert, 'key, 'e, 'w) broker \<Rightarrow> (ActorRef \<Rightarrow> ('e, 'w) outside) \<Rightarrow> (ActorRef \<Rightarrow> config) \<Rightarrow> ActorRef \<Rightarrow>
    ('h, 'w) deployed_label list \<Rightarrow> session \<Rightarrow> 'w \<Rightarrow> bool" where
  "seen b X cfg r dls s w \<longleftrightarrow> (\<exists>w0 wls. wired_run (wires_of b X r) (cfg r) r w0 wls s w \<and>
     calls wls = calls_for r dls \<and> arrived (acted wls) = arrived_for r dls)"

definition seen_at :: "('cert, 'key, 'e, 'w) broker \<Rightarrow> (ActorRef \<Rightarrow> ('e, 'w) outside) \<Rightarrow> (ActorRef \<Rightarrow> config) \<Rightarrow> ActorRef \<Rightarrow>
    ('h, 'w) deployed_label list \<Rightarrow> session option \<Rightarrow> 'w \<Rightarrow> bool" where
  "seen_at b X cfg r dls so w = (case so of
     None \<Rightarrow> calls_for r dls = [] \<and> arrived_for r dls = [] | Some s \<Rightarrow> seen b X cfg r dls s w)"

definition seen_inv :: "('cert, 'key, 'e, 'w) broker \<Rightarrow> (ActorRef \<Rightarrow> ('e, 'w) outside) \<Rightarrow> (ActorRef \<Rightarrow> config) \<Rightarrow> ActorRef \<Rightarrow>
    ('h, 'w) deployed_label list \<Rightarrow> running \<times> 'w \<Rightarrow> bool" where
  "seen_inv b X cfg r dls sw \<longleftrightarrow> config_of (fst sw) = cfg \<and> seen_at b X cfg r dls (session_of r (fst sw)) (snd sw)"

lemma seen_drift:
  assumes "seen b X cfg r dls s w" "calls_for r dls' = calls_for r dls" "arrived_for r dls' = arrived_for r dls"
  shows "seen b X cfg r dls' s w'"
proof -
  from assms(1) obtain w0 wls where w: "wired_run (wires_of b X r) (cfg r) r w0 wls s w" "calls wls = calls_for r dls"
    "arrived (acted wls) = arrived_for r dls" by (auto simp: seen_def)
  have "wired_step (wires_of b X r) (cfg r) (s, w) Drift (s, w')" by (rule w_drift) (simp add: wires_of_def)
  with w(1) have "wired_run (wires_of b X r) (cfg r) r w0 (wls @ [Drift]) s w'" unfolding wired_run_def by (rule trace_snoc)
  with w(2,3) assms(2,3) show ?thesis unfolding seen_def by (intro exI [of _ w0] exI [of _ "wls @ [Drift]"]) simp
qed

lemma seen_move:
  assumes "seen b X cfg r dls s w" "session_move (cfg r) s mv s'" "\<And>t. mv = MStep (Ran t) \<Longrightarrow> call_of t s = None"
    "calls_for r dls' = calls_for r dls" "arrived_for r dls' = arrived_for r dls @ arrived (move_label mv)"
  shows "seen b X cfg r dls' s' w"
proof -
  from assms(1) obtain w0 wls where w: "wired_run (wires_of b X r) (cfg r) r w0 wls s w" "calls wls = calls_for r dls"
    "arrived (acted wls) = arrived_for r dls" by (auto simp: seen_def)
  from move_wired [OF assms(2) w(1) assms(3)] obtain wls' where
    "wired_run (wires_of b X r) (cfg r) r w0 (wls @ wls') s' w" "calls wls' = []" "arrived (acted wls') = arrived (move_label mv)" by blast
  with w(2,3) assms(4,5) show ?thesis unfolding seen_def by (intro exI [of _ w0] exI [of _ "wls @ wls'"]) simp
qed

lemma seen_call:
  assumes "seen b X cfg r dls s w" "call_of t s = Some a" "perform (wires_of b X r) a w = (rp, w')"
    "step ((cfg r)\<lparr>answer := \<lambda>_. rp\<rparr>) s (Ran t) s'"
  shows "seen b X cfg r (dls @ [DCall r t (a, w, rp)]) s' w'"
proof -
  from assms(1) obtain w0 wls where w: "wired_run (wires_of b X r) (cfg r) r w0 wls s w" "calls wls = calls_for r dls"
    "arrived (acted wls) = arrived_for r dls" by (auto simp: seen_def)
  from w(1) w_call [OF assms(2-4)] have "wired_run (wires_of b X r) (cfg r) r w0 (wls @ [Did (Ran t) [(a, w, rp)]]) s' w'"
    unfolding wired_run_def by (rule trace_snoc)
  moreover have "arrived [Ran t] = []" using assms(2) by (intro call_arrives [of t s]) simp
  ultimately show ?thesis using w(2,3) unfolding seen_def
    by (intro exI [of _ w0] exI [of _ "wls @ [Did (Ran t) [(a, w, rp)]]"]) (simp add: arrived_snoc)
qed

lemma seen_new: "calls_for r dls = [] \<Longrightarrow> arrived_for r dls = [] \<Longrightarrow> seen b X cfg r dls (new_session r) w"
  unfolding seen_def wired_run_def by (intro exI [of _ w] exI [of _ "[]"]) (simp add: trace_Nil)

lemma seen_at_drift:
  "seen_at b X cfg r dls so w \<Longrightarrow> calls_for r dls' = calls_for r dls \<Longrightarrow> arrived_for r dls' = arrived_for r dls \<Longrightarrow> seen_at b X cfg r dls' so w'"
  by (cases so) (auto simp: seen_at_def intro: seen_drift)

lemma seen_at_change:
  assumes "seen_at b X cfg r dls so w" "session_change (cfg r) r so mo so'"
    "\<And>t s. mo = Some (MStep (Ran t)) \<Longrightarrow> so = Some s \<Longrightarrow> call_of t s = None" "calls_for r dls' = calls_for r dls"
    "arrived_for r dls' = arrived_for r dls @ (case mo of None \<Rightarrow> [] | Some mv \<Rightarrow> arrived (move_label mv))"
  shows "seen_at b X cfg r dls' so' w"
  using assms(2)
proof cases
  case same
  with assms show ?thesis by (auto intro: seen_at_drift)
next
  case created
  with assms(1,4,5) show ?thesis by (simp add: seen_at_def seen_new)
next
  case (moved s mv s')
  with assms(1) have "seen b X cfg r dls s w" by (simp add: seen_at_def)
  from seen_move [OF this moved(4) _ assms(4)] moved(1-3) assms(3,5) show ?thesis by (simp add: seen_at_def)
qed

lemma handler_move_label: "handler_move t r = Some mv \<Longrightarrow> move_label mv = [] \<and> (\<forall>l. mv \<noteq> MStep l)"
  by (cases t) (auto split: if_splits)

lemma quiet_change:
  assumes "broker_step st bl st'"
  shows "\<exists>mo. session_change (config_of st r) r (session_of r st) mo (session_of r st') \<and>
    arrived_for r (dls @ [DBroker bl]) = arrived_for r dls @ (case mo of None \<Rightarrow> [] | Some mv \<Rightarrow> arrived (move_label mv)) \<and>
    (\<forall>t. mo = Some (MStep (Ran t)) \<longrightarrow> bl = Moved r (MStep (Ran t)))"
  using assms
proof (cases rule: broker_cases)
  case (arrived q)
  have "arrived_for r (dls @ [DBroker bl]) = arrived_for r dls" unfolding arrived(1) by (rule arrived_snoc(4)) simp
  with arrived(2) show ?thesis by (intro exI [of _ None]) (simp add: session_change.same)
next
  case (handled env t ts ts')
  have arr: "arrived_for r (dls @ [DBroker bl]) = arrived_for r dls" unfolding handled(1) by (rule arrived_snoc(4)) simp
  from http_change [OF handled(3), of "config_of st r" r] obtain mo where
    ch: "session_change (config_of st r) r (session_of r st) mo (session_of r st')" "mo = None \<or> mo = handler_move t r" by blast
  moreover have "move_label mv = [] \<and> mv \<noteq> MStep u" if "mo = Some mv" for mv u using handler_move_label [of t r mv] ch(2) that by auto
  ultimately show ?thesis using arr by (intro exI [of _ mo]) (auto split: option.split)
next
  case (moved r' s mv s')
  have arr: "arrived_for r (dls @ [DBroker bl]) = arrived_for r dls @ (if r' = r then arrived (move_label mv) else [])"
    unfolding moved(1) by (rule arrived_snoc(3))
  show ?thesis
  proof (cases "r' = r")
    case True
    with moved arr show ?thesis
      by (intro exI [of _ "Some mv"]) (auto simp: registry.put_present intro: session_change.moved)
  next
    case False
    with moved(4) have "session_of r st' = session_of r st" by (simp add: registry.put_other)
    with False arr show ?thesis by (intro exI [of _ None]) (simp add: session_change.same)
  qed
qed

lemma put_running_session [simp]: "session_of k (put_running r s st) = (if k = r then Some s else session_of k st)"
  by (simp add: put_running_def registry.look_put)

lemma put_running_config [simp]: "config_of (put_running r s st) = config_of st"
  by (simp add: put_running_def put_session_def)

lemma step_seen_inv:
  assumes "seen_inv b X cfg r dls sw" "deployed_step b X sw l sw'"
  shows "seen_inv b X cfg r (dls @ [l]) sw'"
proof -
  obtain st w where sw: "sw = (st, w)" by (cases sw)
  from assms(1) have cfg: "config_of st = cfg" and inv: "seen_at b X cfg r dls (session_of r st) w" by (simp_all add: seen_inv_def sw)
  from assms(2) [unfolded sw] show ?thesis
  proof (cases rule: deployed_stepE)
    case (d_drift w')
    with cfg inv show ?thesis by (auto simp: seen_inv_def arrived_snoc intro: seen_at_drift)
  next
    case (d_call r' s t a rp w' s')
    have "seen_at b X cfg r (dls @ [l]) (if r = r' then Some s' else session_of r st) w'"
    proof (cases "r = r'")
      case True
      with inv d_call(3) have "seen b X cfg r dls s w" by (simp add: seen_at_def)
      from seen_call [OF this d_call(4)] d_call True cfg show ?thesis by (simp add: seen_at_def)
    next
      case False
      with inv show ?thesis by (auto simp: d_call(1) arrived_snoc intro: seen_at_drift)
    qed
    with d_call(2) cfg show ?thesis by (simp add: seen_inv_def)
  next
    case (d_quiet bl st')
    from quiet_change [OF d_quiet(3), of r dls, unfolded cfg] obtain mo where
      mo: "session_change (cfg r) r (session_of r st) mo (session_of r st')"
      "arrived_for r (dls @ [l]) = arrived_for r dls @ (case mo of None \<Rightarrow> [] | Some mv \<Rightarrow> arrived (move_label mv))"
      "\<And>t. mo = Some (MStep (Ran t)) \<Longrightarrow> bl = Moved r (MStep (Ran t))" unfolding d_quiet(1) by blast
    have "call_of t s = None" if "mo = Some (MStep (Ran t))" "session_of r st = Some s" for t s
      using mo(3) [OF that(1)] d_quiet(4) that(2) by (auto simp: calls_out_def)
    from seen_at_change [OF inv mo(1) this _ mo(2)] d_quiet(1,2) broker_config [OF d_quiet(3)] cfg show ?thesis
      by (simp add: seen_inv_def)
  qed
qed

section \<open>The deployed broker is the broker\<close>

text \<open>A broker in which the answers to the sessions' calls are given by \<open>f\<close>.\<close>

definition srv_answers :: "(ActorRef \<Rightarrow> nat \<Rightarrow> reply) \<Rightarrow> Server \<Rightarrow> Server" where
  "srv_answers f srv = srv\<lparr>reg := (reg srv)\<lparr>reg_config := \<lambda>r. (reg_config (reg srv) r)\<lparr>answer := f r\<rparr>\<rparr>\<rparr>"

definition with_answers :: "(ActorRef \<Rightarrow> nat \<Rightarrow> reply) \<Rightarrow> running \<Rightarrow> running" where
  "with_answers f st = st\<lparr>run_srv := srv_answers f (run_srv st)\<rparr>"

lemma with_answers_simps [simp]:
  "run_http (with_answers f st) = run_http st" "run_srv (with_answers f st) = srv_answers f (run_srv st)"
  "Lookup r (reg (srv_answers f srv)) = Lookup r (reg srv)" "reg_config (reg (srv_answers f srv)) r = (reg_config (reg srv) r)\<lparr>answer := f r\<rparr>"
  "with_answers g (with_answers f st) = with_answers g st"
  by (simp_all add: with_answers_def srv_answers_def Lookup_def)

lemma http_exec_answers:
  "http_exec env t (srv_answers f srv) = (fst (http_exec env t srv), srv_answers f (snd (http_exec env t srv)))"
  by (cases t) (auto simp: srv_answers_def Let_def Lookup_def GetOrCreate_def put_session_def on_session_def ticket_answer_def
      issueTicket_def redeemTicket_def forward_request_def split: option.split)

lemma move_answers:
  assumes "session_move c s mv s'" "\<And>t. mv = MStep (Ran t) \<Longrightarrow> call_of t s \<noteq> None \<Longrightarrow> g (length (out s)) = answer c (length (out s))"
  shows "session_move (c\<lparr>answer := g\<rparr>) s mv s'"
  using assms(1)
proof (cases rule: session_moveE)
  case (m_step l)
  have "step (c\<lparr>answer := g\<rparr>) s l s'" by (rule step_answer [where f = "answer c"]) (use m_step assms(2) in auto)
  with m_step show ?thesis by (simp add: session_move.m_step)
qed (simp_all add: session_move.intros)

lemma step_with_answers:
  assumes "broker_step st l st'"
    "\<And>r t s. l = Moved r (MStep (Ran t)) \<Longrightarrow> session_of r st = Some s \<Longrightarrow> call_of t s \<noteq> None \<Longrightarrow>
       g r (length (out s)) = answer (config_of st r) (length (out s))"
  shows "broker_step (with_answers g st) l (with_answers g st')"
  using assms(1)
proof (cases rule: broker_stepE)
  case (b_arrive q)
  have "with_answers g st' = (with_answers g st)\<lparr>run_http := run_http (with_answers g st) @ [[HServe q]]\<rparr>"
    unfolding b_arrive(2) by (simp add: with_answers_def)
  then show ?thesis unfolding b_arrive(1) by (simp only: broker_step.b_arrive)
next
  case (b_handle i t ts env ts' srv')
  have "http_exec env t (run_srv (with_answers g st)) = (ts', srv_answers g srv')" using b_handle(5) by (simp add: http_exec_answers)
  moreover have "with_answers g st' = (with_answers g st)\<lparr>run_srv := srv_answers g srv', run_http := (run_http (with_answers g st))[i := ts' @ ts]\<rparr>"
    unfolding b_handle(2) by (simp add: with_answers_def)
  ultimately show ?thesis
    using broker_step.b_handle [of i "with_answers g st" t ts env ts' "srv_answers g srv'"] b_handle(1,3,4) by simp
next
  case (b_session r s mv s')
  have "session_move (config_of (with_answers g st) r) s mv s'"
    unfolding with_answers_simps by (rule move_answers [OF b_session(4)]) (use assms(2) b_session(1,3) in auto)
  moreover have "with_answers g st' = (with_answers g st)\<lparr>run_srv := (run_srv (with_answers g st))\<lparr>reg := put_session r s' (reg (run_srv (with_answers g st)))\<rparr>\<rparr>"
    unfolding b_session(2) by (simp add: with_answers_def srv_answers_def put_session_def)
  moreover have "session_of r (with_answers g st) = Some s" using b_session(3) by simp
  ultimately show ?thesis unfolding b_session(1) using b_session(5) by (simp only: broker_step.b_session)
qed

lemma move_out:
  assumes "session_move c s mv s'"
  shows "out s' = out s @ (case mv of MStep (Ran t) \<Rightarrow> (case call_of t s of None \<Rightarrow> [] | Some a \<Rightarrow> [a]) | _ \<Rightarrow> [])"
  using assms
proof (cases rule: session_moveE)
  case (m_step l)
  with step_out [OF m_step(2)] show ?thesis by (cases l) simp_all
qed (simp_all add: start_call_def EnsureStarted_def socket_call_def pass_call_def go_def Let_def)

lemma session_out:
  assumes "broker_step st l st'" "session_of r st = Some s"
  shows "\<exists>s'. session_of r st' = Some s' \<and> length (out s) \<le> length (out s') \<and>
    (\<forall>t. l = Moved r (MStep (Ran t)) \<and> call_of t s \<noteq> None \<longrightarrow> length (out s) < length (out s'))"
  using assms(1)
proof (cases rule: broker_cases)
  case (arrived q)
  with assms(2) show ?thesis by simp
next
  case (handled env t ts ts')
  from http_change [OF handled(3), of "config_of st r" r] assms(2) obtain mo where
    "session_change (config_of st r) r (Some s) mo (session_of r st')" by auto
  then show ?thesis using handled(1) by cases (auto simp: move_out)
next
  case (moved r' s1 mv s')
  with assms(2) move_out [OF moved(3)] show ?thesis
    by (cases "r = r'") (auto simp: registry.put_present registry.put_other split: option.split)
qed

lemma trace_with_answers:
  assumes "trace broker_step st0 bls st" "\<And>r s i. session_of r st = Some s \<Longrightarrow> i < length (out s) \<Longrightarrow> g r i = answer (config_of st r) i"
  shows "trace broker_step (with_answers g st0) bls (with_answers g st)"
  using assms
proof (induction rule: trace.induct)
  case (trace_snoc st0 bls st l st')
  have agree: "g r i = answer (config_of st r) i" if "session_of r st' = Some s'" "i < length (out s')" for r s' i
    using trace_snoc.prems [OF that] broker_config [OF trace_snoc.hyps(2)] by simp
  have "trace broker_step (with_answers g st0) bls (with_answers g st)"
    by (rule trace_snoc.IH) (use session_out [OF trace_snoc.hyps(2)] agree in fastforce)
  moreover have "broker_step (with_answers g st) l (with_answers g st')"
    by (rule step_with_answers [OF trace_snoc.hyps(2)]) (use session_out [OF trace_snoc.hyps(2)] agree in fastforce)
  ultimately show ?case by (rule trace.trace_snoc)
qed (rule trace_Nil)

definition answers_given :: "('h, 'w) deployed_label list \<Rightarrow> ActorRef \<Rightarrow> nat \<Rightarrow> reply" where
  "answers_given dls r = answers_of (calls_for r dls)"

lemma answers_given_quiet [simp]:
  "answers_given (dls @ [DDrift]) = answers_given dls" "answers_given (dls @ [DBroker bl]) = answers_given dls"
  by (simp_all add: answers_given_def fun_eq_iff)

definition deployed_inv :: "Server \<Rightarrow> ('h, 'w) deployed_label list \<Rightarrow> running \<times> 'w \<Rightarrow> bool" where
  "deployed_inv srv dls sw \<longleftrightarrow> trace broker_step (with_answers (answers_given dls) (fresh_broker srv)) (broker_labels dls)
     (with_answers (answers_given dls) (fst sw))"

lemma seen_calls:
  assumes "seen_at b X cfg r dls (Some s) w"
  shows "map fst (calls_for r dls) = out s"
proof -
  from assms obtain w0 wls where w: "wired_run (wires_of b X r) (cfg r) r w0 wls s w" "calls wls = calls_for r dls"
    by (auto simp: seen_at_def seen_def)
  with wired.holds [OF w(1) [unfolded wired_run_def]] show ?thesis by (simp add: wired_inv_def)
qed

lemma step_deployed_inv:
  assumes "deployed_inv srv dls sw" "deployed_step b X sw l sw'" "\<And>r. seen_inv b X cfg r dls sw"
  shows "deployed_inv srv (dls @ [l]) sw'"
proof -
  obtain st w where sw: "sw = (st, w)" by (cases sw)
  from assms(1) have inv: "trace broker_step (with_answers (answers_given dls) (fresh_broker srv)) (broker_labels dls) (with_answers (answers_given dls) st)"
    by (simp add: deployed_inv_def sw)
  from assms(2) [unfolded sw] show ?thesis
  proof (cases rule: deployed_stepE)
    case (d_drift w')
    with inv show ?thesis by (simp add: deployed_inv_def)
  next
    case (d_quiet bl st')
    have "broker_step (with_answers (answers_given dls) st) bl (with_answers (answers_given dls) st')"
      by (rule step_with_answers [OF d_quiet(3)]) (use d_quiet(4) in \<open>auto simp: calls_out_def\<close>)
    with inv have "trace broker_step (with_answers (answers_given dls) (fresh_broker srv)) (broker_labels dls @ [bl]) (with_answers (answers_given dls) st')"
      by (rule trace_snoc)
    with d_quiet(1,2) show ?thesis by (simp add: deployed_inv_def)
  next
    case (d_call r s t a rp w' s')
    let ?g = "answers_given (dls @ [l])"
    have len: "length (calls_for k dls) = length (out u)" if "session_of k st = Some u" for k u
      using seen_calls [of b X cfg k dls u w] assms(3) [of k] that by (metis seen_inv_def sw fst_conv snd_conv length_map)
    have "?g k i = answers_given dls k i" if "session_of k st = Some u" "i < length (out u)" for k u i
      using that len [OF that(1)] by (simp add: answers_given_def d_call(1) answers_of_append)
    then have "trace broker_step (with_answers ?g (fresh_broker srv)) (broker_labels dls) (with_answers ?g st)"
      using trace_with_answers [OF inv, of ?g] by simp
    moreover have "?g r (length (out s)) = rp" by (simp add: answers_given_def d_call(1) answers_of_def flip: len [OF d_call(3)])
    then have "step ((config_of st r)\<lparr>answer := ?g r\<rparr>) s (Ran t) s'" by (intro step_answer [OF d_call(6)]) simp
    then have "session_move (config_of (with_answers ?g st) r) s (MStep (Ran t)) s'" by (intro m_step) simp_all
    with d_call(3) have "broker_step (with_answers ?g st) (Moved r (MStep (Ran t))) (put_running r s' (with_answers ?g st))"
      unfolding put_running_def by (intro b_session) simp_all
    moreover have "put_running r s' (with_answers ?g st) = with_answers ?g (put_running r s' st)"
      by (simp add: put_running_def with_answers_def srv_answers_def put_session_def)
    ultimately have "trace broker_step (with_answers ?g (fresh_broker srv)) (broker_labels dls @ [Moved r (MStep (Ran t))]) (with_answers ?g (put_running r s' st))"
      by (metis trace_snoc)
    with d_call(1,2) show ?thesis by (simp add: deployed_inv_def)
  qed
qed

section \<open>Runs\<close>

locale deployed_broker =
  fixes b :: "('cert, 'key, 'e, 'w) broker" and X :: "ActorRef \<Rightarrow> ('e, 'w) outside"
  assumes clean: "clean (b_server b)"

sublocale deployed_broker \<subseteq> sees: run_invariant "deployed_step b X" "(fresh_broker (b_server b), w0)"
    "seen_inv b X (reg_config (reg (b_server b))) r" for w0 r
  by unfold_locales (simp add: seen_inv_def seen_at_def clean_look [OF clean], rule step_seen_inv)

sublocale deployed_broker \<subseteq> acts: run_invariant "deployed_step b X" "(fresh_broker (b_server b), w0)" "deployed_inv (b_server b)" for w0
  by unfold_locales (simp add: deployed_inv_def trace_Nil, rule step_deployed_inv, assumption+, rule sees.holds)

context deployed_broker
begin

lemma session_seen:
  assumes "deployed_run b X w0 dls st w" "session_of r st = Some s"
  obtains w1 wls where "wired_run (wires_of b X r) (reg_config (reg (b_server b)) r) r w1 wls s w" "calls wls = calls_for r dls"
    "arrived (acted wls) = arrived_for r dls"
  using sees.holds [OF assms(1) [unfolded deployed_run_def], of r] assms(2) by (auto simp: seen_inv_def seen_at_def seen_def)

lemma runs_as_broker:
  assumes "deployed_run b X w0 dls st w"
  shows "broker_run (srv_answers (answers_given dls) (b_server b)) (broker_labels dls) (with_answers (answers_given dls) st)"
proof -
  have "with_answers f (fresh_broker srv) = fresh_broker (srv_answers f srv)" for f srv by (simp add: with_answers_def fresh_broker_def)
  with acts.holds [OF assms [unfolded deployed_run_def]] show ?thesis by (simp add: deployed_inv_def broker_run_def)
qed

end

interpretation started: deployed_broker "b\<lparr>b_server := NewServer (NewRegistry delay grace cf) base host path src\<rparr>" X
    for b :: "('cert, 'key, 'e, 'w) broker" and delay grace cf base host path src X
  by unfold_locales (simp add: clean_new)

text \<open>The broker that \<^verbatim>\<open>main\<close> starts is of this form.\<close>

lemma start_broker_form:
  assumes "start_broker cr ReadFile g cf src fl = Inr b"
  shows "b = b\<lparr>b_server := NewServer (NewRegistry (f_deliverDelay fl) (f_idleGrace fl) cf) (apiBaseURL (b_server b)) (f_wssHost fl) (f_wssPath fl) src\<rparr>"
  using start_broker_server [OF assms] by (simp add: NewServer_def)

lemma srv_answers_new: "srv_answers f (NewServer (NewRegistry delay grace cf) base host path src) =
    NewServer (NewRegistry delay grace (\<lambda>r. (cf r)\<lparr>answer := f r\<rparr>)) base host path src"
proof -
  have "(\<lambda>r. (cf r)\<lparr>deliverDelay := delay, idleGrace := grace, answer := f r\<rparr>) =
      (\<lambda>r. (cf r)\<lparr>answer := f r, deliverDelay := delay, idleGrace := grace\<rparr>)"
  proof
    show "(cf r)\<lparr>deliverDelay := delay, idleGrace := grace, answer := f r\<rparr> = (cf r)\<lparr>answer := f r, deliverDelay := delay, idleGrace := grace\<rparr>" for r
      by (cases "cf r") simp
  qed
  then show ?thesis by (simp add: srv_answers_def NewServer_def NewRegistry_def)
qed

lemma started_session:
  assumes "start_broker cr ReadFile g cf src fl = Inr b" "deployed_run b X w0 dls st w" "session_of r st = Some s"
  obtains w1 wls where "wired_run (wires_of b X r) ((cf r)\<lparr>deliverDelay := f_deliverDelay fl, idleGrace := f_idleGrace fl\<rparr>) r w1 wls s w"
    "calls wls = calls_for r dls" "arrived (acted wls) = arrived_for r dls"
proof -
  let ?srv = "NewServer (NewRegistry (f_deliverDelay fl) (f_idleGrace fl) cf) (apiBaseURL (b_server b)) (f_wssHost fl) (f_wssPath fl) src"
  have form: "b\<lparr>b_server := ?srv\<rparr> = b" by (rule start_broker_form [OF assms(1), symmetric])
  have conf: "reg_config (reg ?srv) r = (cf r)\<lparr>deliverDelay := f_deliverDelay fl, idleGrace := f_idleGrace fl\<rparr>"
    by (simp add: NewServer_def NewRegistry_def)
  have "b_server b = ?srv" using arg_cong [OF form, of b_server] by simp
  with started.session_seen [where b = b and delay = "f_deliverDelay fl" and grace = "f_idleGrace fl" and cf = cf and base = "apiBaseURL (b_server b)"
      and host = "f_wssHost fl" and path = "f_wssPath fl" and src = src and X = X, unfolded form, OF assms(2,3)] conf that show thesis by metis
qed

lemma started_runs:
  assumes "start_broker cr ReadFile g cf src fl = Inr b" "deployed_run b X w0 dls st w"
  shows "broker_run (NewServer (NewRegistry (f_deliverDelay fl) (f_idleGrace fl) (\<lambda>r. (cf r)\<lparr>answer := answers_given dls r\<rparr>))
      (apiBaseURL (b_server b)) (f_wssHost fl) (f_wssPath fl) src) (broker_labels dls) (with_answers (answers_given dls) st)"
proof -
  let ?srv = "NewServer (NewRegistry (f_deliverDelay fl) (f_idleGrace fl) cf) (apiBaseURL (b_server b)) (f_wssHost fl) (f_wssPath fl) src"
  have form: "b\<lparr>b_server := ?srv\<rparr> = b" by (rule start_broker_form [OF assms(1), symmetric])
  then have "b_server b = ?srv" using arg_cong [OF form, of b_server] by simp
  with started.runs_as_broker [where b = b and delay = "f_deliverDelay fl" and grace = "f_idleGrace fl" and cf = cf and base = "apiBaseURL (b_server b)"
      and host = "f_wssHost fl" and path = "f_wssPath fl" and src = src and X = X, unfolded form, OF assms(2)] show ?thesis by (metis srv_answers_new)
qed

text \<open>The handlers of a run ask the control client.\<close>

lemma trace_locator:
  "trace (deployed_step b X) sw0 dls sw \<Longrightarrow> Handled env t \<in> set (broker_labels dls) \<Longrightarrow> locator_is (b_control b) env"
proof (induction rule: trace.induct)
  case (trace_snoc sw0 dls sw l sw')
  obtain st w where sw: "sw = (st, w)" by (cases sw)
  from trace_snoc.hyps(2) [unfolded sw] trace_snoc.IH trace_snoc.prems show ?case by (cases rule: deployed_stepE) auto
qed simp

lemma deployed_locator:
  "deployed_run b X w0 dls st w \<Longrightarrow> Handled env t \<in> set (broker_labels dls) \<Longrightarrow> locator_is (b_control b) env"
  unfolding deployed_run_def by (rule trace_locator)

section \<open>An executable scheduler\<close>

definition quiet_choose :: "'h http_env \<Rightarrow> broker_choice \<Rightarrow> running \<times> 'w \<Rightarrow> (('h, 'w) deployed_label \<times> running \<times> 'w) option" where
  "quiet_choose env ch sw = (case broker_choose env ch (fst sw) of None \<Rightarrow> None | Some ls \<Rightarrow> Some (DBroker (fst ls), snd ls, snd sw))"

definition call_choose :: "('cert, 'key, 'e, 'w) broker \<Rightarrow> (ActorRef \<Rightarrow> ('e, 'w) outside) \<Rightarrow> ActorRef \<Rightarrow> choice \<Rightarrow> session \<Rightarrow> action \<Rightarrow>
    running \<times> 'w \<Rightarrow> (('h, 'w) deployed_label \<times> running \<times> 'w) option" where
  "call_choose b X r ch s a sw =
     (let p = perform (wires_of b X r) a (snd sw)
      in (case take_choice ((config_of (fst sw) r)\<lparr>answer := \<lambda>_. fst p\<rparr>) ch s of
            None \<Rightarrow> None
          | Some ls \<Rightarrow> (case fst ls of
               Ran t \<Rightarrow> Some (DCall r t (a, snd sw, fst p), put_running r (snd ls) (fst sw), snd p) | _ \<Rightarrow> None)))"

definition deployed_choose :: "('cert, 'key, 'e, 'w) broker \<Rightarrow> (ActorRef \<Rightarrow> ('e, 'w) outside) \<Rightarrow> 'h http_env \<Rightarrow> broker_choice \<Rightarrow>
    running \<times> 'w \<Rightarrow> (('h, 'w) deployed_label \<times> running \<times> 'w) option" where
  "deployed_choose b X env ch sw = (case ch of
     BRun r ch' \<Rightarrow> (case session_of r (fst sw) of
        None \<Rightarrow> None
      | Some s \<Rightarrow> (case next_call ch' s of None \<Rightarrow> quiet_choose env ch sw | Some a \<Rightarrow> call_choose b X r ch' s a sw))
   | _ \<Rightarrow> quiet_choose env ch sw)"

fun deployed_schedule :: "('cert, 'key, 'e, 'w) broker \<Rightarrow> (ActorRef \<Rightarrow> ('e, 'w) outside) \<Rightarrow> 'h http_env \<Rightarrow> broker_choice list \<Rightarrow>
    running \<times> 'w \<Rightarrow> (('h, 'w) deployed_label list \<times> running \<times> 'w) option" where
  "deployed_schedule b X env [] sw = Some ([], sw)"
| "deployed_schedule b X env (ch # chs) sw = (case deployed_choose b X env ch sw of
     None \<Rightarrow> None
   | Some r \<Rightarrow> (case deployed_schedule b X env chs (snd r) of None \<Rightarrow> None | Some r' \<Rightarrow> Some (fst r # fst r', snd r')))"

lemma broker_choose_label:
  assumes "broker_choose env ch st = Some (l, st')"
  shows "l = Moved r (MStep (Ran t)) \<Longrightarrow> session_of r st = Some s \<Longrightarrow> \<exists>ch'. ch = BRun r ch' \<and> next_call ch' s = call_of t s"
    "l = Handled env' u \<Longrightarrow> env' = env"
proof -
  assume l: "l = Moved r (MStep (Ran t))" "session_of r st = Some s"
  show "\<exists>ch'. ch = BRun r ch' \<and> next_call ch' s = call_of t s"
  proof (cases ch)
    case (BRun k ch')
    with assms l obtain s' where k: "k = r" and "session_choice (config_of st r) ch s = Some (MStep (Ran t), s')"
      by (auto simp: broker_choose_def choice_ref_def split: option.splits)
    then have "take_choice (config_of st r) ch' s = Some (Ran t, s')"
      using BRun by (auto simp: session_choice_def split: option.splits label.splits)
    from take_choice_call [OF this] BRun k show ?thesis by simp
  qed (use assms l in \<open>auto simp: broker_choose_def choice_ref_def session_choice_def Let_def split: option.splits if_splits list.splits\<close>)
next
  assume "l = Handled env' u"
  with assms show "env' = env"
    by (cases ch) (auto simp: broker_choose_def choice_ref_def Let_def split: option.splits if_splits list.splits)
qed

lemma quiet_choose_step:
  assumes "quiet_choose env ch sw = Some (l, sw')" "locator_is (b_control b) env"
    "\<And>r ch' s. ch = BRun r ch' \<Longrightarrow> session_of r (fst sw) = Some s \<Longrightarrow> next_call ch' s = None"
  shows "deployed_step b X sw l sw'"
proof -
  obtain st w where sw: "sw = (st, w)" by (cases sw)
  from assms(1) obtain bl st' where bl: "broker_choose env ch st = Some (bl, st')" "l = DBroker bl" "sw' = (st', w)"
    by (auto simp: quiet_choose_def sw split: option.splits)
  have "\<not> calls_out bl st" using broker_choose_label(1) [OF bl(1)] assms(3) by (fastforce simp: calls_out_def sw)
  moreover have "locator_is (b_control b) env'" if "bl = Handled env' u" for env' u
    using broker_choose_label(2) [OF bl(1) that] assms(2) by simp
  ultimately show ?thesis unfolding sw bl(2,3) by (rule d_quiet [OF broker_choose_step [OF bl(1)]])
qed

lemma call_choose_step:
  assumes "call_choose b X r ch s a sw = Some (l, sw')" "session_of r (fst sw) = Some s" "next_call ch s = Some a"
  shows "deployed_step b X sw l sw'"
proof -
  obtain st w where sw: "sw = (st, w)" by (cases sw)
  obtain rp w' where p: "perform (wires_of b X r) a w = (rp, w')" by (cases "perform (wires_of b X r) a w")
  from assms(1) obtain t s' where c: "take_choice ((config_of st r)\<lparr>answer := \<lambda>_. rp\<rparr>) ch s = Some (Ran t, s')"
    "l = DCall r t (a, w, rp)" "sw' = (put_running r s' st, w')"
    by (auto simp: call_choose_def sw p Let_def split: option.splits label.splits)
  have "call_of t s = Some a" using take_choice_call [OF c(1)] assms(3) by simp
  from d_call [OF assms(2) [unfolded sw fst_conv] this p take_choice_step [OF c(1)]] show ?thesis unfolding sw c(2,3) .
qed

lemma deployed_choose_step:
  assumes "deployed_choose b X env ch sw = Some (l, sw')" "locator_is (b_control b) env"
  shows "deployed_step b X sw l sw'"
proof (cases ch)
  case (BRun r ch')
  with assms(1) obtain s where s: "session_of r (fst sw) = Some s" by (auto simp: deployed_choose_def split: option.splits)
  show ?thesis
  proof (cases "next_call ch' s")
    case None
    with assms s BRun show ?thesis by (intro quiet_choose_step [of env ch]) (auto simp: deployed_choose_def)
  next
    case (Some a)
    with assms s BRun show ?thesis by (intro call_choose_step [of b X r ch' s a]) (auto simp: deployed_choose_def)
  qed
qed (use assms in \<open>auto simp: deployed_choose_def intro: quiet_choose_step\<close>)

lemma deployed_schedule_run:
  assumes "deployed_schedule b X env chs (fresh_broker (b_server b), w0) = Some (dls, st, w)" "locator_is (b_control b) env"
  shows "deployed_run b X w0 dls st w"
proof -
  have "deployed_schedule b X env chs sw = Some (dls, sw') \<Longrightarrow> trace (deployed_step b X) sw dls sw'" for sw sw'
  proof (induction chs arbitrary: sw dls)
    case (Cons ch chs)
    from Cons.prems obtain l sw1 dls' where c: "deployed_choose b X env ch sw = Some (l, sw1)"
      "deployed_schedule b X env chs sw1 = Some (dls', sw')" "dls = l # dls'" by (auto split: option.splits)
    from trace_Cons [OF deployed_choose_step [OF c(1) assms(2)] Cons.IH [OF c(2)]] show ?case unfolding c(3) .
  qed (simp add: trace_Nil)
  with assms(1) show ?thesis unfolding deployed_run_def by blast
qed

end
