(* ===== verification/DeployedProps.thy ===== *)
theory DeployedProps
  imports Deployed BrokerProps BootProps
begin

text \<open>
  The properties of the whole program: the broker that \<^verbatim>\<open>main\<close> starts, with all its handlers and sessions and with the
  clients of the control plane and of Slack, and a concrete execution of it that meets their hypotheses.
\<close>

section \<open>One wired session\<close>

text \<open>Nothing is lost between Slack's WebSocket and the session.\<close>

lemma wired_events_arrive:
  assumes "wired_run x c r w0 wls s w"
  shows "\<exists>p q. slack_events x (calls wls) = arrived (acted wls) @ p \<and>
    map raw_id (slack_events x (calls wls)) = slack_acks (out s) @ q \<and> length q \<le> length p \<and> length p \<le> 1 \<and>
    subseq (map event_raw (buffer s)) (arrived (acted wls))"
proof -
  have inv: "wired_inv x c r wls (s, w)" using wired.holds [OF assms [unfolded wired_run_def]] .
  then have run: "trace (step (c\<lparr>answer := answers_of (calls wls)\<rparr>)) (new_session r) (acted wls) s"
    by (simp add: wired_inv_def session_run_def)
  from feed_result [OF slack.holds [OF run] feed.holds [OF run]] order_inv_subseq [OF order.holds [OF run]]
  show ?thesis unfolding wired_events_read [OF inv] by blast
qed

text \<open>A session calls the control plane for its own actor only.\<close>

lemma wired_own_calls:
  assumes "wired_run x c r w0 wls s w" "(a, v, rp) \<in> set (calls wls)"
  shows "own_call r a" "fst (perform x a v) = rp"
proof -
  have inv: "wired_inv x c r wls (s, w)" using wired.holds [OF assms(1) [unfolded wired_run_def]] .
  then have run: "trace (step (c\<lparr>answer := answers_of (calls wls)\<rparr>)) (new_session r) (acted wls) s" and out: "map fst (calls wls) = out s"
    by (simp_all add: wired_inv_def session_run_def)
  have "a \<in> set (out s)" unfolding out [symmetric] using assms(2) by force
  with own.holds [OF run] show "own_call r a" by (simp add: own_inv_def)
  from inv assms(2) show "fst (perform x a v) = rp" by (fastforce simp: wired_inv_def performed_def)
qed

text \<open>A resume that the session takes for done was accepted.\<close>

lemma performed_resume:
  assumes "fst (perform x (OResume r) v) = rp" "rp \<noteq> Fail" "retry_helper (o_retry (w_outside x)) own"
    "o_DoChan (w_outside x) (ActorRef_String r) = (\<lambda>fn. fn)"
  shows "\<exists>n < 7. \<exists>t v'. aborted_calls (w_control x) r n v t \<and> resume_call (w_control x) r t = (None, v')"
proof -
  let ?r = "Resume (o_retry (w_outside x)) (o_DoChan (w_outside x)) (w_control x) (o_ctx (w_outside x) v) r v"
  have "fst ?r = None" using assms(1,2) by (force simp: nil_error_def Let_def split: option.splits)
  then have "?r = (None, snd ?r)" by (metis prod.collapse)
  from resume_success [where DoChan = "o_DoChan (w_outside x)", OF assms(3,4) this] show ?thesis unfolding resumed_by_def by blast
qed

section \<open>An execution for the examples\<close>

text \<open>
  Slack accepts the dial and sends the same event again and again; the control plane aborts two resumes and then
  accepts. The state of the world counts the calls to the control plane.
\<close>

definition open_network :: "bytes slack_net" where
  "open_network = \<lparr>request_ok = (\<lambda>u. True),
     slack_Do = (\<lambda>q. Inr \<lparr>Status = 200, RespHeader = [], RespBody = json_print (encode_open_response \<lparr>OK = True, URL = ''wss://x'', Error = []\<rparr>)\<rparr>),
     url_ok = (\<lambda>u. True), ws_dial = (\<lambda>u. None)\<rparr>"

definition demo_outside :: "ActorRef \<Rightarrow> (bytes, nat) outside" where
  "demo_outside r = \<lparr>o_retry = poll_retry ''timeout'', o_DoChan = (\<lambda>k fn. fn), o_ctx = (\<lambda>w. None), o_net = (\<lambda>w. open_network),
     o_dialed = (\<lambda>token w. w), o_recv = (\<lambda>w. (Inr demo_event, w)), o_send = (\<lambda>m w. (None, w)), o_close = (\<lambda>w. w),
     o_frame = (\<lambda>sk f w. (None, w)), o_sleep = (\<lambda>d w. (True, w)), o_forward = (\<lambda>w. w), o_drift = (\<lambda>w w'. False)\<rparr>"

definition demo_grpc :: "(bytes, bytes, nat) grpc" where
  "demo_grpc = \<lparr>NewClient = (\<lambda>cr addr. Some addr), NewControlClient = (\<lambda>conn. api busy_control)\<rparr>"

definition demo_answers :: "ActorRef \<Rightarrow> config" where
  "demo_answers r = \<lparr>deliverDelay = 0, idleGrace = 0, rand_src = (\<lambda>k i. of_nat (k + i)), answer = (\<lambda>n. Ok)\<rparr>"

definition demo_broker :: "(bytes, bytes, bytes, nat) broker" where
  "demo_broker = \<lparr>b_minter = \<lparr>caCert = ''k'', caKey = ''k'', cache = [], mints = 0\<rparr>, b_control = busy_control,
     b_dialer = newRealSlackDialer ''8.8.8.8:53'' ''https://slack.com'',
     b_server = NewServer (NewRegistry 0 (5 * second) demo_answers) ''https://slack.com'' ''wss-primary.slack.com'' ''/ws-poc/socketmode'' (\<lambda>k i. of_nat (k + i)),
     b_tls = TLSConfig toy_crypto, b_addr = '':443''\<rparr>"

lemma demo_started:
  "start_broker toy_crypto (\<lambda>p. Some ''k'') demo_grpc demo_answers (\<lambda>k i. of_nat (k + i)) default_flags = Inr demo_broker"
proof -
  have "rs_apiBaseURL (newRealSlackDialer ''8.8.8.8:53'' ''https://slack.com'') = ''https://slack.com''" by code_simp
  moreover have "newControlClient (api busy_control) False = busy_control" by (simp add: newControlClient_def busy_control_def)
  ultimately show ?thesis
    by (simp add: start_broker_def newCertMinterFromFiles_def newCertMinter_def toy_crypto_def parseECKey_def dialControl_def demo_grpc_def
        default_flags_def demo_broker_def Let_def)
qed

definition lost_env :: "bytes http_env" where
  "lost_env = demo_env\<lparr>locate := \<lambda>ip i. Inl ''none''\<rparr>"

lemma lost_locator: "locator_is ctl lost_env"
  by (simp add: locator_is_def lost_env_def)

definition deployed_choices :: "broker_choice list" where
  "deployed_choices = BArrive open_request_of_bot # replicate 6 (BHandle 0) @ replicate 7 (BRun bot (CRun 1)) @ [BRun bot (CRun 2)]"

lemma deployed_result:
  "case deployed_schedule demo_broker demo_outside lost_env deployed_choices (fresh_broker (b_server demo_broker), 0) of None \<Rightarrow> False
    | Some (dls, st, w) \<Rightarrow> map (\<lambda>(a, v, rp). (a, v)) (calls_for bot dls) = [(ODial ''xapp-1'', 0), (ORead, 0), (OSlackAck ''e1'', 0), (OResume bot, 0)] \<and>
        snd (snd (last (calls_for bot dls))) = Ok \<and> w = 3 \<and> arrived_for bot dls = [demo_event] \<and> session_of bot st \<noteq> None"
  by code_simp

lemma deployed_demo:
  obtains dls :: "(bytes, nat) deployed_label list" and st w s where "deployed_run demo_broker demo_outside 0 dls st w"
    "Lookup bot (reg (run_srv st)) = Some s" "(OResume bot, 0, Ok) \<in> set (calls_for bot dls)" "arrived_for bot dls = [demo_event]"
    "map fst (calls_for bot dls) = [ODial ''xapp-1'', ORead, OSlackAck ''e1'', OResume bot]"
proof -
  from deployed_result obtain dls :: "(bytes, nat) deployed_label list" and st w where
    run: "deployed_schedule demo_broker demo_outside lost_env deployed_choices (fresh_broker (b_server demo_broker), 0) = Some (dls, st, w)" and
    d: "map (\<lambda>(a, v, rp). (a, v)) (calls_for bot dls) = [(ODial ''xapp-1'', 0), (ORead, 0), (OSlackAck ''e1'', 0), (OResume bot, 0)]"
    "snd (snd (last (calls_for bot dls))) = Ok" "arrived_for bot dls = [demo_event]" "session_of bot st \<noteq> None" by (auto split: option.splits)
  from d(1) obtain r1 r2 r3 r4 where
    "calls_for bot dls = [(ODial ''xapp-1'', 0, r1), (ORead, 0, r2), (OSlackAck ''e1'', 0, r3), (OResume bot, 0, r4)]" by (auto simp: map_eq_Cons_conv)
  moreover obtain s where "session_of bot st = Some s" using d(4) by auto
  ultimately show thesis using d(2,3) by (intro that [OF deployed_schedule_run [OF run lost_locator]]) auto
qed

section \<open>The whole program\<close>



text \<open>
  C3. Nothing is lost between Slack's WebSockets and the sessions. For every actor, whatever the other sessions and the
  handlers do: the event messages that Slack sent on the connections of the actor's read loop are the events that
  arrived in its session, in order, followed by at most one that the loop still has in its hands; each was acknowledged to
  Slack under the id it carries, in that order and before it arrived; and the events that wait for the actor are among
  them, in order.
\<close>

theorem slack_events_arrive:
  assumes "start_broker cr ReadFile g cf src fl = Inr b" "deployed_run b X w0 dls st w" "Lookup r (reg (run_srv st)) = Some s"
  shows "\<exists>p q. slack_events (wires_of b X r) (calls_for r dls) = arrived_for r dls @ p \<and>
    map raw_id (slack_events (wires_of b X r) (calls_for r dls)) = slack_acks (out s) @ q \<and> length q \<le> length p \<and> length p \<le> 1 \<and>
    subseq (map event_raw (buffer s)) (arrived_for r dls)"
proof -
  obtain w1 wls where w: "wired_run (wires_of b X r) ((cf r)\<lparr>deliverDelay := f_deliverDelay fl, idleGrace := f_idleGrace fl\<rparr>) r w1 wls s w"
    "calls wls = calls_for r dls" "arrived (acted wls) = arrived_for r dls" by (rule started_session [OF assms])
  from wired_events_arrive [OF w(1)] show ?thesis unfolding w(2,3) .
qed

theorem slack_events_arrive_witness:
  "\<exists>(dls :: (bytes, nat) deployed_label list) st w p. deployed_run demo_broker demo_outside 0 dls st w \<and>
     slack_events (wires_of demo_broker demo_outside bot) (calls_for bot dls) = demo_event # p \<and> length p \<le> 1"
proof -
  obtain dls :: "(bytes, nat) deployed_label list" and st w s where d: "deployed_run demo_broker demo_outside 0 dls st w"
    "Lookup bot (reg (run_srv st)) = Some s" "arrived_for bot dls = [demo_event]" by (rule deployed_demo)
  from slack_events_arrive [OF demo_started d(1,2)] d show ?thesis by auto
qed





end
